(* ===== verification/Prelude.thy ===== *)
theory Prelude
  imports Main "HOL-Library.Word" "HOL-Library.AList" "HOL-Library.Multiset"
begin

text \<open>
  Shared vocabulary of the capri-hub development: machine integers and byte strings, Go maps
  as association lists (the list order is the iteration order the runtime happens to choose,
  so a lemma over every list is a lemma over every iteration order), Go time values, the
  draw-until-fresh loop over a random source, and the generic lemmas the components share.
\<close>

unbundle bit_operations_syntax

section \<open>Base types\<close>

type_synonym u8 = "8 word"
type_synonym u32 = "32 word"
type_synonym u64 = "64 word"
type_synonym bytes = "u8 list"

text \<open>
  A Go time value is a count of nanoseconds since Go's zero time, so \<open>IsZero\<close> is \<open>t = 0\<close>;
  a duration is a difference of two of them.
\<close>

type_synonym time = int
type_synonym duration = int

definition is_zero_time :: "time \<Rightarrow> bool" where
  "is_zero_time t \<longleftrightarrow> t = 0"

definition second :: duration where "second = 1000000000"
definition millisecond :: duration where "millisecond = 1000000"
definition minute :: duration where "minute = 60 * second"

section \<open>Go maps\<close>

type_synonym ('k, 'v) gomap = "('k \<times> 'v) list"

abbreviation gm_get :: "('k, 'v) gomap \<Rightarrow> 'k \<Rightarrow> 'v option" where
  "gm_get m k \<equiv> map_of m k"

abbreviation gm_set :: "'k \<Rightarrow> 'v \<Rightarrow> ('k, 'v) gomap \<Rightarrow> ('k, 'v) gomap" where
  "gm_set k v m \<equiv> AList.update k v m"

abbreviation gm_del :: "'k \<Rightarrow> ('k, 'v) gomap \<Rightarrow> ('k, 'v) gomap" where
  "gm_del k m \<equiv> AList.delete k m"

definition gm_ok :: "('k, 'v) gomap \<Rightarrow> bool" where
  "gm_ok m \<longleftrightarrow> distinct (map fst m)"

abbreviation gm_keys :: "('k, 'v) gomap \<Rightarrow> 'k set" where
  "gm_keys m \<equiv> fst ` set m"

lemma gm_ok_Nil [simp]: "gm_ok []"
  by (simp add: gm_ok_def)

lemma gm_ok_set [simp, intro]: "gm_ok m \<Longrightarrow> gm_ok (gm_set k v m)"
  by (simp add: gm_ok_def distinct_update)

lemma gm_ok_del [simp, intro]: "gm_ok m \<Longrightarrow> gm_ok (gm_del k m)"
  by (simp add: gm_ok_def distinct_delete)

lemma gm_ok_filter [simp, intro]: "gm_ok m \<Longrightarrow> gm_ok (filter P m)"
  by (simp add: gm_ok_def distinct_map_filter)

lemma gm_ok_Cons: "gm_ok ((k, v) # m) \<longleftrightarrow> gm_get m k = None \<and> gm_ok m"
  by (auto simp: gm_ok_def map_of_eq_None_iff)

lemma gm_get_set: "gm_get (gm_set k v m) k' = (if k' = k then Some v else gm_get m k')"
  by (simp add: update_conv')

lemma gm_get_del: "gm_get (gm_del k m) k' = (if k' = k then None else gm_get m k')"
  by (simp add: delete_conv')

lemma gm_keys_set [simp]: "gm_keys (gm_set k v m) = insert k (gm_keys m)"
  by (simp add: dom_update flip: dom_map_of_conv_image_fst) (auto simp: update_conv')

lemma gm_keys_del [simp]: "gm_keys (gm_del k m) = gm_keys m - {k}"
  by (metis delete_keys image_set set_removeAll)

lemma gm_keys_iff: "k \<in> gm_keys m \<longleftrightarrow> gm_get m k \<noteq> None"
  by (simp add: map_of_eq_None_iff)

lemma gm_get_in: "gm_get m k = Some v \<Longrightarrow> (k, v) \<in> set m"
  by (rule map_of_SomeD)

lemma gm_in_get: "gm_ok m \<Longrightarrow> (k, v) \<in> set m \<Longrightarrow> gm_get m k = Some v"
  by (simp add: gm_ok_def)

lemma gm_length_keys: "gm_ok m \<Longrightarrow> card (gm_keys m) = length m"
  unfolding gm_ok_def by (metis distinct_card length_map list.set_map)

lemma gm_length_set_new: "gm_get m k = None \<Longrightarrow> length (gm_set k v m) = Suc (length m)"
  by (induction m) (auto split: if_splits)

lemma gm_length_set_old: "gm_get m k \<noteq> None \<Longrightarrow> length (gm_set k v m) = length m"
  by (induction m) (auto split: if_splits)

lemma gm_length_del_le: "length (gm_del k m) \<le> length m"
  by (rule length_delete_le)

lemma gm_length_del_less: "gm_get m k \<noteq> None \<Longrightarrow> length (gm_del k m) < length m"
  by (induction m) (auto simp: le_imp_less_Suc gm_length_del_le split: if_splits)

lemma gm_del_notin: "gm_get m k = None \<Longrightarrow> gm_del k m = m"
  by (rule delete_id) (auto simp: map_of_eq_None_iff)

section \<open>Words\<close>

lemma word_Suc_less: "(a :: 'a::len word) < b \<Longrightarrow> unat (a + 1) = Suc (unat a)"
proof -
  assume "a < b"
  then have "unat a + 1 \<le> unat b" and "unat b < 2 ^ LENGTH('a)"
    by (simp_all add: word_less_nat_alt Suc_le_eq unsigned_less)
  then have "unat a + 1 < 2 ^ LENGTH('a)"
    by (rule order_le_less_trans)
  then show ?thesis
    by (simp add: unat_word_ariths)
qed

lemma of_nat_unat [simp]: "of_nat (unat (a :: 'a::len word)) = a"
  by simp

lemma unat_eq_D: "unat (a :: 'a::len word) = unat b \<Longrightarrow> a = b"
  by (simp add: word_unat_eq_iff)

lemma of_nat_eq_u64: "n < 2 ^ 64 \<Longrightarrow> (of_nat n :: u64) = a \<longleftrightarrow> n = unat a"
  by (auto simp: word_unat_eq_iff unat_of_nat)

lemma unat_less_u64: "unat (a :: u64) < 2 ^ 64"
  using unsigned_less [of a] by simp

lemma word_gt_not_succ: "(a :: 'a::len word) < b \<Longrightarrow> \<not> b > a + 1 \<Longrightarrow> b = a + 1"
  by (metis inc_le order_le_less order_less_le)

lemma unat_of_nat_u32: "n < 2 ^ 32 \<Longrightarrow> unat (of_nat n :: u32) = n"
  by (simp add: unat_of_nat)

section \<open>Lists\<close>

lemma shuffles_map: "shuffles (map f xs) (map f ys) = map f ` shuffles xs ys"
  by (induction xs ys rule: shuffles.induct) (auto simp: image_Un image_image)

lemma Cons_eq_upt: "x # xs = [a..<b] \<longleftrightarrow> a < b \<and> x = a \<and> xs = [Suc a..<b]"
  using upt_eq_Cons_conv [of a b x xs] by auto

text \<open>
  Go code finds a record by scanning a slice for the first match and then writes through the
  pointer, or cuts the element out.
\<close>

fun update_first :: "('a \<Rightarrow> bool) \<Rightarrow> ('a \<Rightarrow> 'a) \<Rightarrow> 'a list \<Rightarrow> 'a list" where
  "update_first P f [] = []"
| "update_first P f (x # xs) = (if P x then f x # xs else x # update_first P f xs)"

fun remove_first :: "('a \<Rightarrow> bool) \<Rightarrow> 'a list \<Rightarrow> 'a list" where
  "remove_first P [] = []"
| "remove_first P (x # xs) = (if P x then xs else x # remove_first P xs)"

lemma find_update_first_hit:
  "List.find P xs = Some x \<Longrightarrow> P (f x) \<Longrightarrow> List.find P (update_first P f xs) = Some (f x)"
  by (induction xs) (auto split: if_splits)

lemma update_first_none: "List.find P xs = None \<Longrightarrow> update_first P f xs = xs"
  by (induction xs) (auto split: if_splits)

lemma remove_first_none: "List.find P xs = None \<Longrightarrow> remove_first P xs = xs"
  by (induction xs) (auto split: if_splits)

lemma map_update_first: "(\<And>x. k (f x) = k x) \<Longrightarrow> map k (update_first P f xs) = map k xs"
  by (induction xs) auto

lemma set_remove_first: "set (remove_first P xs) \<subseteq> set xs"
  by (induction xs) auto

lemma distinct_map_remove_first: "distinct (map k xs) \<Longrightarrow> distinct (map k (remove_first P xs))"
  using set_remove_first by (induction xs) fastforce+

lemma remove_first_key:
  "distinct (map k xs) \<Longrightarrow> remove_first (\<lambda>x. k x = a) xs = filter (\<lambda>x. k x \<noteq> a) xs"
proof (induction xs)
  case (Cons x xs)
  have ne: "k y \<noteq> k x" if "y \<in> set xs" for y
  proof
    assume "k y = k x"
    then have "k x \<in> k ` set xs" using imageI [OF that, of k] by simp
    then show False using Cons.prems by simp
  qed
  then have "filter (\<lambda>y. k y \<noteq> k x) xs = xs" by (simp add: filter_id_conv)
  then show ?case using Cons by auto
qed simp

lemma update_first_key:
  "distinct (map k xs) \<Longrightarrow> update_first (\<lambda>x. k x = a) f xs = map (\<lambda>x. if k x = a then f x else x) xs"
proof (induction xs)
  case (Cons x xs)
  have ne: "k y \<noteq> k x" if "y \<in> set xs" for y
  proof
    assume "k y = k x"
    then have "k x \<in> k ` set xs" using imageI [OF that, of k] by simp
    then show False using Cons.prems by simp
  qed
  then have "map (\<lambda>y. if k y = k x then f y else y) xs = xs" by (simp add: map_idI)
  then show ?case using Cons by auto
qed simp

section \<open>Binary search\<close>

text \<open>\<open>sort.Search\<close>: the loop on the half-open interval.\<close>

function search_loop :: "(nat \<Rightarrow> bool) \<Rightarrow> nat \<Rightarrow> nat \<Rightarrow> nat" where
  "search_loop f i j =
     (if i < j then
        let h = (i + j) div 2 in if \<not> f h then search_loop f (h + 1) j else search_loop f i h
      else i)"
  by pat_completeness auto
termination by (relation "measure (\<lambda>(f, i, j). j - i)") auto

declare search_loop.simps [simp del]

definition sort_search :: "nat \<Rightarrow> (nat \<Rightarrow> bool) \<Rightarrow> nat" where
  "sort_search n f = search_loop f 0 n"

lemma search_loop_spec:
  assumes "i \<le> j" and "\<And>k l. k \<le> l \<Longrightarrow> f k \<Longrightarrow> f l"
    and "\<And>k. k < i \<Longrightarrow> \<not> f k" and "\<And>k. j \<le> k \<Longrightarrow> k < n \<Longrightarrow> f k"
  shows "search_loop f i j \<le> j \<and> i \<le> search_loop f i j \<and>
    (\<forall>k < search_loop f i j. \<not> f k) \<and> (\<forall>k < n. search_loop f i j \<le> k \<longrightarrow> f k)"
  using assms
proof (induction f i j rule: search_loop.induct)
  case (1 f i j)
  note mono = "1.prems"(2) and low = "1.prems"(3) and high = "1.prems"(4)
  show ?case
  proof (cases "i < j")
    case True
    let ?h = "(i + j) div 2"
    have h: "i \<le> ?h" "?h < j" using True by auto
    show ?thesis
    proof (cases "f ?h")
      case False
      have eq: "search_loop f i j = search_loop f (?h + 1) j"
        using True False by (simp add: search_loop.simps [of f i j] Let_def)
      have up: "?h + 1 \<le> j" using h by simp
      have low': "\<not> f k" if "k < ?h + 1" for k using mono [of k ?h] False that by auto
      have "search_loop f (?h + 1) j \<le> j \<and> ?h + 1 \<le> search_loop f (?h + 1) j \<and>
          (\<forall>k < search_loop f (?h + 1) j. \<not> f k) \<and> (\<forall>k < n. search_loop f (?h + 1) j \<le> k \<longrightarrow> f k)"
        by (rule "1.IH"(1) [OF True refl False up mono low' high])
      then show ?thesis unfolding eq using h by auto
    next
      case f: True
      have eq: "search_loop f i j = search_loop f i ?h"
        using True f by (simp add: search_loop.simps [of f i j] Let_def)
      have nf: "\<not> \<not> f ?h" using f by simp
      have high': "f k" if "?h \<le> k" "k < n" for k using mono [of ?h k] f that by auto
      have "search_loop f i ?h \<le> ?h \<and> i \<le> search_loop f i ?h \<and>
          (\<forall>k < search_loop f i ?h. \<not> f k) \<and> (\<forall>k < n. search_loop f i ?h \<le> k \<longrightarrow> f k)"
        by (rule "1.IH"(2) [OF True refl nf h(1) mono low high'])
      then show ?thesis unfolding eq using h by auto
    qed
  next
    case False
    then have "search_loop f i j = i" by (simp add: search_loop.simps [of f i j])
    then show ?thesis using "1.prems" False by auto
  qed
qed

lemma sort_search_spec:
  assumes "\<And>k l. k \<le> l \<Longrightarrow> f k \<Longrightarrow> f l"
  shows "sort_search n f \<le> n" and "\<And>k. k < sort_search n f \<Longrightarrow> \<not> f k"
    and "\<And>k. k < n \<Longrightarrow> sort_search n f \<le> k \<Longrightarrow> f k"
  using search_loop_spec [of 0 n f n] assms unfolding sort_search_def by auto

section \<open>Text\<close>

text \<open>
  \<open>strings.TrimSpace\<close> on byte strings: the UTF-8 forms of Unicode white space, from both ends.
\<close>

definition space_runes :: "string list" where
  "space_runes =
     [[CHR 0x20], [CHR 0x09], [CHR 0x0A], [CHR 0x0B], [CHR 0x0C], [CHR 0x0D],
      [CHR 0xC2, CHR 0x85], [CHR 0xC2, CHR 0xA0], [CHR 0xE1, CHR 0x9A, CHR 0x80],
      [CHR 0xE2, CHR 0x80, CHR 0x80], [CHR 0xE2, CHR 0x80, CHR 0x81], [CHR 0xE2, CHR 0x80, CHR 0x82],
      [CHR 0xE2, CHR 0x80, CHR 0x83], [CHR 0xE2, CHR 0x80, CHR 0x84], [CHR 0xE2, CHR 0x80, CHR 0x85],
      [CHR 0xE2, CHR 0x80, CHR 0x86], [CHR 0xE2, CHR 0x80, CHR 0x87], [CHR 0xE2, CHR 0x80, CHR 0x88],
      [CHR 0xE2, CHR 0x80, CHR 0x89], [CHR 0xE2, CHR 0x80, CHR 0x8A], [CHR 0xE2, CHR 0x80, CHR 0xA8],
      [CHR 0xE2, CHR 0x80, CHR 0xA9], [CHR 0xE2, CHR 0x80, CHR 0xAF], [CHR 0xE2, CHR 0x81, CHR 0x9F],
      [CHR 0xE3, CHR 0x80, CHR 0x80]]"

definition prefix_rune :: "string list \<Rightarrow> string \<Rightarrow> nat" where
  "prefix_rune runes s =
     (case List.find (\<lambda>r. r \<noteq> [] \<and> take (length r) s = r) runes of None \<Rightarrow> 0 | Some r \<Rightarrow> length r)"

function trim_left_runes :: "string list \<Rightarrow> string \<Rightarrow> string" where
  "trim_left_runes runes s =
     (if s = [] \<or> prefix_rune runes s = 0 then s
      else trim_left_runes runes (drop (prefix_rune runes s) s))"
  by pat_completeness auto
termination by (relation "measure (\<lambda>(runes, s). length s)") auto

declare trim_left_runes.simps [simp del]

definition trim_space :: "string \<Rightarrow> string" where
  "trim_space s = rev (trim_left_runes (map rev space_runes) (rev (trim_left_runes space_runes s)))"

text \<open>Seconds since the Unix epoch, \<open>Time.Unix\<close>.\<close>

definition unix_seconds :: "time \<Rightarrow> int" where
  "unix_seconds t = t div second - 62135596800"

end
