(* ===== verification/TransportUnit.thy ===== *)
theory TransportUnit
  imports Prelude
begin

text \<open>
  The transport-unit layer of \<open>wire/unit.go\<close>: the 13-byte unit header (\<open>EncodeUnit\<close>,
  \<open>DecodeUnit\<close>), the splitting of a frame into units (\<open>SplitFrame\<close>) and the reassembly of
  units into frames (\<open>Reassembler\<close>). Lengths of byte slices are naturals; header fields are
  32-bit words, and the code's \<open>uint64\<close> comparisons of them are exact.
\<close>

section \<open>Units and their wire format\<close>

definition unit_size_default :: int where "unit_size_default = 32768"
definition unit_compressed :: u8 where "unit_compressed = 1"
definition unit_fragment :: u8 where "unit_fragment = 2"
definition unit_header_size :: nat where "unit_header_size = 13"

record tunit =
  u_flags :: u8
  u_frame_id :: u32
  u_total :: u32
  u_offset :: u32
  u_data :: bytes

text \<open>Every error of this layer wraps \<open>ErrUnit\<close>; the constructors are its reasons.\<close>

datatype unit_error =
    UShort | UUnknownFlags | UExceedsTotal | UFragmentTotalZero | UCompleteShape
  | UFrameTooLong | UExceedsMaxFrame | UCompletesWhileOpen | UOpensAtOffset
  | UOtherFrameOpen | UCompressedChanges | UWrongOffset | UAssembledTooLong

text \<open>\<open>binary.BigEndian.PutUint32\<close> and \<open>Uint32\<close>.\<close>

definition put_be32 :: "u32 \<Rightarrow> bytes" where
  "put_be32 w = [ucast (drop_bit 24 w), ucast (drop_bit 16 w), ucast (drop_bit 8 w), ucast w]"

definition get_be32 :: "bytes \<Rightarrow> u32" where
  "get_be32 b = push_bit 24 (ucast (b ! 0)) OR push_bit 16 (ucast (b ! 1))
                OR push_bit 8 (ucast (b ! 2)) OR ucast (b ! 3)"

definition encode_unit :: "tunit \<Rightarrow> bytes" where
  "encode_unit u = u_flags u # put_be32 (u_frame_id u) @ put_be32 (u_total u)
                   @ put_be32 (u_offset u) @ u_data u"

definition decode_unit :: "bytes \<Rightarrow> unit_error + tunit" where
  "decode_unit b =
     (if length b < unit_header_size then Inl UShort
      else
        let u = \<lparr>u_flags = b ! 0,
                 u_frame_id = get_be32 (take 4 (drop 1 b)),
                 u_total = get_be32 (take 4 (drop 5 b)),
                 u_offset = get_be32 (take 4 (drop 9 b)),
                 u_data = drop unit_header_size b\<rparr>
        in if u_flags u AND NOT (unit_compressed OR unit_fragment) \<noteq> 0 then Inl UUnknownFlags
           else if unat (u_offset u) + length (u_data u) > unat (u_total u) then Inl UExceedsTotal
           else if u_flags u AND unit_fragment \<noteq> 0 then
             (if u_total u = 0 then Inl UFragmentTotalZero else Inr u)
           else if u_offset u \<noteq> 0 \<or> length (u_data u) \<noteq> unat (u_total u) then Inl UCompleteShape
           else Inr u)"

section \<open>Splitting a frame\<close>

text \<open>The \<open>for off := 0; off < len(payload); off += unitSize\<close> loop of \<open>SplitFrame\<close>.\<close>

function split_loop :: "bytes \<Rightarrow> u8 \<Rightarrow> u32 \<Rightarrow> u32 \<Rightarrow> nat \<Rightarrow> nat \<Rightarrow> bytes list" where
  "split_loop payload flags frame_id tot unit_size off =
     (if off < length payload \<and> 0 < unit_size then
        let stop = (if unit_size < length payload - off then off + unit_size else length payload)
        in encode_unit \<lparr>u_flags = flags OR unit_fragment, u_frame_id = frame_id, u_total = tot,
                        u_offset = of_nat off, u_data = take (stop - off) (drop off payload)\<rparr>
           # split_loop payload flags frame_id tot unit_size (off + unit_size)
      else [])"
  by pat_completeness auto
termination
  by (relation "measure (\<lambda>(payload, flags, frame_id, total, unit_size, off).
        length payload - off)") auto

declare split_loop.simps [simp del]

definition split_frame :: "bytes \<Rightarrow> bool \<Rightarrow> u32 \<Rightarrow> int \<Rightarrow> unit_error + bytes list" where
  "split_frame payload compressed frame_id unit_size0 =
     (if length payload > 2 ^ 32 - 1 then Inl UFrameTooLong
      else
        let unit_size = nat (if unit_size0 \<le> 0 then unit_size_default else unit_size0);
            flags = (if compressed then unit_compressed else 0);
            tot = of_nat (length payload)
        in if length payload \<le> unit_size
           then Inr [encode_unit \<lparr>u_flags = flags, u_frame_id = frame_id, u_total = tot,
                                  u_offset = 0, u_data = payload\<rparr>]
           else Inr (split_loop payload flags frame_id tot unit_size 0))"

section \<open>Reassembly\<close>

record reassembler =
  ra_open :: bool
  ra_frame_id :: u32
  ra_total :: u32
  ra_compressed :: bool
  ra_buf :: bytes

definition reasm_reset :: "reassembler \<Rightarrow> reassembler" where
  "reasm_reset r = r\<lparr>ra_open := False, ra_frame_id := 0, ra_total := 0,
                     ra_compressed := False, ra_buf := []\<rparr>"

definition reasm_new :: reassembler where
  "reasm_new = \<lparr>ra_open = False, ra_frame_id = 0, ra_total = 0, ra_compressed = False, ra_buf = []\<rparr>"

text \<open>
  The tail of \<open>Accept\<close>: the fragment has been appended, and the open frame is incomplete,
  too long, or complete.
\<close>

definition reasm_settle ::
  "reassembler \<Rightarrow> reassembler \<times> (unit_error + bytes \<times> bool \<times> bool)" where
  "reasm_settle r =
     (if length (ra_buf r) < unat (ra_total r) then (r, Inr ([], ra_compressed r, False))
      else if length (ra_buf r) > unat (ra_total r) then (r, Inl UAssembledTooLong)
      else (reasm_reset r, Inr (ra_buf r, ra_compressed r, True)))"

definition reasm_accept ::
  "reassembler \<Rightarrow> bytes \<Rightarrow> int \<Rightarrow> reassembler \<times> (unit_error + bytes \<times> bool \<times> bool)" where
  "reasm_accept r raw max_frame =
     (case decode_unit raw of
        Inl e \<Rightarrow> (r, Inl e)
      | Inr u \<Rightarrow>
          if max_frame > 0 \<and> unat (u_total u) > nat max_frame then (r, Inl UExceedsMaxFrame)
          else
            let frag_compressed = (u_flags u AND unit_compressed \<noteq> 0)
            in if u_flags u AND unit_fragment = 0 then
                 (if ra_open r \<and> u_frame_id u = ra_frame_id r then (r, Inl UCompletesWhileOpen)
                  else (r, Inr (u_data u, frag_compressed, True)))
               else if \<not> ra_open r then
                 (if u_offset u \<noteq> 0 then (r, Inl UOpensAtOffset)
                  else reasm_settle (r\<lparr>ra_open := True, ra_frame_id := u_frame_id u,
                         ra_total := u_total u, ra_compressed := frag_compressed,
                         ra_buf := u_data u\<rparr>))
               else if u_frame_id u \<noteq> ra_frame_id r then (r, Inl UOtherFrameOpen)
               else if frag_compressed \<noteq> ra_compressed r then (r, Inl UCompressedChanges)
               else if unat (u_offset u) \<noteq> length (ra_buf r) then (r, Inl UWrongOffset)
               else reasm_settle (r\<lparr>ra_buf := ra_buf r @ u_data u\<rparr>))"

text \<open>
  A receiving transport feeds units one after the other and gives up at the first error; the
  completed frames are what it hands on.
\<close>

fun reasm_run ::
  "reassembler \<Rightarrow> bytes list \<Rightarrow> int \<Rightarrow> reassembler \<times> (unit_error + (bytes \<times> bool) list)" where
  "reasm_run r [] max_frame = (r, Inr [])"
| "reasm_run r (raw # raws) max_frame =
     (case reasm_accept r raw max_frame of
        (r', Inl e) \<Rightarrow> (r', Inl e)
      | (r', Inr (frame, compressed, complete)) \<Rightarrow>
          (case reasm_run r' raws max_frame of
             (r'', Inl e) \<Rightarrow> (r'', Inl e)
           | (r'', Inr frames) \<Rightarrow>
               (r'', Inr (if complete then (frame, compressed) # frames else frames))))"

section \<open>Codec lemmas\<close>

lemma length_put_be32 [simp]: "length (put_be32 w) = 4"
  by (simp add: put_be32_def)

lemma get_put_be32 [simp]: "get_be32 (put_be32 w) = w"
proof (rule bit_word_eqI)
  fix n assume n: "n < LENGTH(32)"
  consider "n < 8" | "8 \<le> n" "n < 16" | "16 \<le> n" "n < 24" | "24 \<le> n" "n < 32"
    using n by fastforce
  then show "bit (get_be32 (put_be32 w)) n \<longleftrightarrow> bit w n"
    by cases (auto simp: get_be32_def put_be32_def bit_simps)
qed

lemma length_encode_unit [simp]: "length (encode_unit u) = unit_header_size + length (u_data u)"
  by (simp add: encode_unit_def unit_header_size_def)

text \<open>What the code's \<open>DecodeUnit\<close> accepts, stated on the unit itself.\<close>

definition unit_wf :: "tunit \<Rightarrow> bool" where
  "unit_wf u \<longleftrightarrow>
     u_flags u AND NOT (unit_compressed OR unit_fragment) = 0 \<and>
     unat (u_offset u) + length (u_data u) \<le> unat (u_total u) \<and>
     (if u_flags u AND unit_fragment \<noteq> 0 then u_total u \<noteq> 0
      else u_offset u = 0 \<and> length (u_data u) = unat (u_total u))"

lemma encode_unit_fields:
  "encode_unit u ! 0 = u_flags u"
  "take 4 (drop 1 (encode_unit u)) = put_be32 (u_frame_id u)"
  "take 4 (drop 5 (encode_unit u)) = put_be32 (u_total u)"
  "take 4 (drop 9 (encode_unit u)) = put_be32 (u_offset u)"
  "drop unit_header_size (encode_unit u) = u_data u"
  by (simp_all add: encode_unit_def put_be32_def unit_header_size_def numeral_eq_Suc)

lemma decode_encode_unit: "unit_wf u \<Longrightarrow> decode_unit (encode_unit u) = Inr u"
  unfolding decode_unit_def
  by (simp only: encode_unit_fields get_put_be32 length_encode_unit)
     (auto simp: unit_wf_def Let_def split: if_splits)

lemma decode_unit_wf: "decode_unit b = Inr u \<Longrightarrow> unit_wf u"
  by (auto simp: decode_unit_def unit_wf_def Let_def not_less split: if_splits)


section \<open>Invariant and memory bound of the reassembler\<close>

text \<open>
  Between two successful calls an open frame is a proper prefix of what its first fragment
  announced, and a closed reassembler holds nothing.
\<close>

definition reasm_inv :: "int \<Rightarrow> reassembler \<Rightarrow> bool" where
  "reasm_inv max_frame r \<longleftrightarrow>
     (if ra_open r then length (ra_buf r) < unat (ra_total r) \<and>
                        (max_frame > 0 \<longrightarrow> unat (ra_total r) \<le> nat max_frame)
      else r = reasm_new)"

lemma reasm_reset_new [simp]: "reasm_reset r = reasm_new"
  by (cases r) (simp add: reasm_reset_def reasm_new_def)

lemma reasm_inv_new [simp]: "reasm_inv m reasm_new"
  by (simp add: reasm_inv_def reasm_new_def)

lemma reasm_settle_inv:
  "reasm_settle r = (r', Inr out) \<Longrightarrow> ra_open r \<Longrightarrow>
   (max_frame > 0 \<longrightarrow> unat (ra_total r) \<le> nat max_frame) \<Longrightarrow> reasm_inv max_frame r'"
  by (auto simp: reasm_settle_def reasm_inv_def reasm_new_def split: if_splits)

lemma reasm_accept_inv:
  "reasm_accept r raw m = (r', Inr out) \<Longrightarrow> reasm_inv m r \<Longrightarrow> reasm_inv m r'"
  by (auto simp: reasm_accept_def Let_def reasm_inv_def
      split: sum.splits if_splits dest!: reasm_settle_inv [where max_frame = m])

lemma reasm_settle_buf: "length (ra_buf (fst (reasm_settle r))) \<le> length (ra_buf r)"
  by (simp add: reasm_settle_def reasm_new_def)

text \<open>The states one call can leave: unchanged, a fresh frame, or the open frame extended.\<close>

lemma reasm_accept_state:
  assumes "decode_unit raw = Inr u"
  obtains "fst (reasm_accept r raw m) = r"
  | s where "fst (reasm_accept r raw m) = fst (reasm_settle s)" "ra_buf s = u_data u"
      "m > 0 \<longrightarrow> unat (u_total u) \<le> nat m"
  | s where "fst (reasm_accept r raw m) = fst (reasm_settle s)" "ra_buf s = ra_buf r @ u_data u"
      "length (ra_buf r) = unat (u_offset u)" "m > 0 \<longrightarrow> unat (u_total u) \<le> nat m"
  using assms by (fastforce simp: reasm_accept_def Let_def split: if_splits)

lemma reasm_accept_buf:
  assumes "m > 0" and "length (ra_buf r) \<le> nat m"
  shows "length (ra_buf (fst (reasm_accept r raw m))) \<le> nat m"
proof (cases "decode_unit raw")
  case (Inl e)
  then show ?thesis using assms by (simp add: reasm_accept_def)
next
  case (Inr u)
  then have u: "unat (u_offset u) + length (u_data u) \<le> unat (u_total u)"
    using decode_unit_wf unit_wf_def by blast
  from Inr show ?thesis
    by (rule reasm_accept_state [of raw u r m])
       (use assms u reasm_settle_buf in \<open>fastforce intro: order_trans\<close>)+
qed

section \<open>Splitting and reassembling round trip\<close>

lemma flag_facts [simp]:
  "(unit_compressed OR unit_fragment) AND NOT unit_compressed AND NOT unit_fragment = 0"
  "unit_fragment AND NOT unit_compressed AND NOT unit_fragment = 0"
  "unit_compressed AND NOT unit_compressed AND NOT unit_fragment = 0"
  "(unit_compressed OR unit_fragment) AND unit_fragment \<noteq> 0"
  "unit_fragment \<noteq> 0"
  "unit_compressed AND unit_fragment = 0"
  "(unit_compressed OR unit_fragment) AND unit_compressed \<noteq> 0"
  "unit_fragment AND unit_compressed = 0"
  "unit_compressed \<noteq> 0"
  by (simp_all add: unit_compressed_def unit_fragment_def)

definition frag_flags :: "bool \<Rightarrow> u8" where
  "frag_flags c = (if c then unit_compressed else 0)"

text \<open>The reassembler after the first \<open>off\<close> bytes of frame \<open>p\<close>.\<close>

definition midway :: "bytes \<Rightarrow> bool \<Rightarrow> u32 \<Rightarrow> nat \<Rightarrow> reassembler" where
  "midway p c fid off =
     (if off = 0 then reasm_new
      else \<lparr>ra_open = True, ra_frame_id = fid, ra_total = of_nat (length p),
            ra_compressed = c, ra_buf = take off p\<rparr>)"

definition complete_unit :: "u32 \<times> bytes \<times> bool \<Rightarrow> bytes" where
  "complete_unit = (\<lambda>(fid, q, c). encode_unit \<lparr>u_flags = frag_flags c, u_frame_id = fid,
      u_total = of_nat (length q), u_offset = 0, u_data = q\<rparr>)"

definition frame_fits :: "int \<Rightarrow> bytes \<Rightarrow> bool" where
  "frame_fits m q \<longleftrightarrow> length q < 2 ^ 32 \<and> (m > 0 \<longrightarrow> length q \<le> nat m)"

lemma complete_unit_passes:
  assumes "frame_fits m q" and "ra_open r \<Longrightarrow> ra_frame_id r \<noteq> fid"
  shows "reasm_accept r (complete_unit (fid, q, c)) m = (r, Inr (q, c, True))"
proof -
  let ?u = "\<lparr>u_flags = frag_flags c, u_frame_id = fid, u_total = of_nat (length q),
             u_offset = 0, u_data = q\<rparr>"
  have "unit_wf ?u"
    using assms(1) by (auto simp: unit_wf_def frag_flags_def frame_fits_def unat_of_nat_u32)
  then have "decode_unit (complete_unit (fid, q, c)) = Inr ?u"
    by (simp add: complete_unit_def decode_encode_unit)
  then show ?thesis
    using assms by (auto simp: reasm_accept_def frag_flags_def frame_fits_def unat_of_nat_u32 Let_def)
qed

lemma fragment_step:
  fixes p :: bytes and c :: bool and fid :: u32
  assumes fits: "frame_fits m p" and off: "off < length p" and stop: "off < stop" "stop \<le> length p"
  defines "raw \<equiv> encode_unit \<lparr>u_flags = frag_flags c OR unit_fragment, u_frame_id = fid,
      u_total = of_nat (length p), u_offset = of_nat off, u_data = take (stop - off) (drop off p)\<rparr>"
  shows "reasm_accept (midway p c fid off) raw m =
    (if stop < length p then (midway p c fid stop, Inr ([], c, False))
     else (reasm_new, Inr (p, c, True)))"
proof -
  let ?u = "\<lparr>u_flags = frag_flags c OR unit_fragment, u_frame_id = fid,
      u_total = of_nat (length p), u_offset = of_nat off, u_data = take (stop - off) (drop off p)\<rparr>"
  have len: "length p < 2 ^ 32" using fits by (simp add: frame_fits_def)
  have tot: "unat (of_nat (length p) :: u32) = length p" using len by (rule unat_of_nat_u32)
  have offw: "unat (of_nat off :: u32) = off" using len off by (simp add: unat_of_nat_u32)
  have nz: "(of_nat (length p) :: u32) \<noteq> 0" using tot off by (metis gr_implies_not0 unat_0)
  have "unit_wf ?u"
    using stop off nz by (auto simp: unit_wf_def frag_flags_def tot offw)
  then have dec: "decode_unit raw = Inr ?u"
    by (simp add: raw_def decode_encode_unit)
  have buf: "take off p @ take (stop - off) (drop off p) = take stop p"
    using stop by (simp add: take_add [symmetric])
  have fl: "(frag_flags c OR unit_fragment) AND unit_fragment \<noteq> 0"
    "((frag_flags c OR unit_fragment) AND unit_compressed \<noteq> 0) = c"
    by (auto simp: frag_flags_def)
  show ?thesis
  proof (cases "off = 0")
    case True
    then show ?thesis
      using fits stop dec fl tot
      by (auto simp: reasm_accept_def Let_def midway_def reasm_new_def reasm_settle_def
          reasm_reset_def frame_fits_def)
  next
    case False
    then show ?thesis
      using fits stop off dec fl tot offw buf
      by (auto simp: reasm_accept_def Let_def midway_def reasm_settle_def frame_fits_def)
  qed
qed

lemma run_complete_units:
  assumes "\<forall>(fid, q, c) \<in> set ctl. frame_fits m q \<and> (ra_open r \<longrightarrow> ra_frame_id r \<noteq> fid)"
  shows "reasm_run r (map complete_unit ctl) m = (r, Inr (map snd ctl))"
  using assms
proof (induction ctl)
  case (Cons x ctl)
  obtain fid q c where x: "x = (fid, q, c)" by (cases x)
  have "reasm_accept r (complete_unit (fid, q, c)) m = (r, Inr (q, c, True))"
    using Cons.prems x by (intro complete_unit_passes) auto
  then show ?case using Cons x by simp
qed simp

text \<open>
  The core of the round trip: from the middle of frame \<open>p\<close>, its remaining units in any
  interleaving with complete units of other frames deliver \<open>p\<close> once and every other frame in
  its own order, and close the reassembler.
\<close>

lemma run_from_midway:
  fixes p :: bytes and c :: bool and fid :: u32 and size :: nat
  assumes fits: "frame_fits m p" and size: "0 < size"
    and "mix \<in> shuffles (split_loop p (frag_flags c) fid (of_nat (length p)) size off)
                        (map complete_unit ctl)"
    and "\<forall>(fid', q, c') \<in> set ctl. frame_fits m q \<and> fid' \<noteq> fid"
    and "off < length p"
  shows "\<exists>outs \<in> shuffles [(p, c)] (map snd ctl).
           reasm_run (midway p c fid off) mix m = (reasm_new, Inr outs)"
  using assms(3-)
proof (induction mix arbitrary: off ctl)
  case Nil
  then show ?case by (simp add: split_loop.simps size)
next
  case (Cons raw mix)
  define stop where "stop = (if size < length p - off then off + size else length p)"
  define tail where "tail = split_loop p (frag_flags c) fid (of_nat (length p)) size (off + size)"
  have stop: "off < stop" "stop \<le> length p" "stop < length p \<longleftrightarrow> off + size < length p"
    using size Cons.prems(3) by (auto simp: stop_def)
  have loop: "split_loop p (frag_flags c) fid (of_nat (length p)) size off =
      encode_unit \<lparr>u_flags = frag_flags c OR unit_fragment, u_frame_id = fid,
        u_total = of_nat (length p), u_offset = of_nat off,
        u_data = take (stop - off) (drop off p)\<rparr> # tail"
    using size Cons.prems(3) by (subst split_loop.simps) (simp add: stop_def tail_def Let_def)
  note step = fragment_step [OF fits Cons.prems(3) stop(1,2), of c fid]
  consider (frag) "raw = encode_unit \<lparr>u_flags = frag_flags c OR unit_fragment, u_frame_id = fid,
        u_total = of_nat (length p), u_offset = of_nat off,
        u_data = take (stop - off) (drop off p)\<rparr>" "mix \<in> shuffles tail (map complete_unit ctl)"
    | (other) fid' q c' ctl' where "ctl = (fid', q, c') # ctl'" "raw = complete_unit (fid', q, c')"
        "mix \<in> shuffles (split_loop p (frag_flags c) fid (of_nat (length p)) size off)
                       (map complete_unit ctl')"
    using Cons.prems(1) unfolding loop by (cases ctl) (auto simp: Cons_in_shuffles_iff)
  then show ?case
  proof cases
    case frag
    show ?thesis
    proof (cases "off + size < length p")
      case True
      then have "stop = off + size" by (simp add: stop_def)
      with Cons.IH [of "off + size" ctl] True Cons.prems(2) frag step show ?thesis
        by (auto simp: tail_def)
    next
      case False
      then have "mix = map complete_unit ctl"
        using frag by (simp add: tail_def split_loop.simps)
      moreover have "reasm_run reasm_new (map complete_unit ctl) m = (reasm_new, Inr (map snd ctl))"
        using Cons.prems(2) by (intro run_complete_units) (auto simp: reasm_new_def)
      moreover have "(p, c) # map snd ctl \<in> shuffles [(p, c)] (map snd ctl)"
        by (simp add: Cons_in_shuffles_iff)
      ultimately show ?thesis
        using False frag step stop(3) by auto
    qed
  next
    case other
    have "ra_open (midway p c fid off) \<Longrightarrow> ra_frame_id (midway p c fid off) \<noteq> fid'"
      using Cons.prems(2) other by (auto simp: midway_def reasm_new_def)
    then have pass: "reasm_accept (midway p c fid off) raw m = (midway p c fid off, Inr (q, c', True))"
      using Cons.prems(2) other by (auto intro: complete_unit_passes)
    obtain outs where "outs \<in> shuffles [(p, c)] (map snd ctl')"
      "reasm_run (midway p c fid off) mix m = (reasm_new, Inr outs)"
      using Cons.IH [of off ctl'] other Cons.prems by auto
    then show ?thesis
      using pass other by (auto intro!: bexI [of _ "(q, c') # outs"] simp: Cons_in_shuffles_iff)
  qed
qed

lemma split_loop_unit_bound:
  "u \<in> set (split_loop p fl fid tot sz off) \<Longrightarrow> length u \<le> unit_header_size + sz"
proof (induction p fl fid tot sz off rule: split_loop.induct)
  case (1 p fl fid tot sz off)
  then show ?case
    by (subst (asm) split_loop.simps) (auto simp: Let_def split: if_splits)
qed

section \<open>Properties\<close>

text \<open>Split, interleave, reassemble.\<close>

lemma split_mix_reassembles:
  assumes "split_frame p c fid unit_size = Inr units"
    and "mix \<in> shuffles units (map complete_unit ctl)"
    and "frame_fits m p"
    and "\<forall>(fid', q, c') \<in> set ctl. frame_fits m q \<and> fid' \<noteq> fid"
  shows "\<exists>outs \<in> shuffles [(p, c)] (map snd ctl).
           reasm_run reasm_new mix m = (reasm_new, Inr outs)"
proof -
  define size where "size = nat (if unit_size \<le> 0 then unit_size_default else unit_size)"
  have size: "0 < size" by (simp add: size_def unit_size_default_def)
  show ?thesis
  proof (cases "length p \<le> size")
    case True
    then have units: "units = map complete_unit [(fid, p, c)]"
      using assms(1) by (auto simp: split_frame_def Let_def size_def complete_unit_def frag_flags_def
          split: if_splits)
    obtain order where order: "order \<in> shuffles [(fid, p, c)] ctl" "mix = map complete_unit order"
      using assms(2) unfolding units shuffles_map by auto
    moreover have "reasm_run reasm_new (map complete_unit order) m = (reasm_new, Inr (map snd order))"
    proof (rule run_complete_units)
      have "set order = set ((fid, p, c) # ctl)"
        using order(1) by (auto dest: set_shuffles)
      then show "\<forall>(fid, q, c) \<in> set order. frame_fits m q \<and> (ra_open reasm_new \<longrightarrow> ra_frame_id reasm_new \<noteq> fid)"
        using assms(3,4) by (auto simp: reasm_new_def)
    qed
    moreover have "map snd order \<in> shuffles [(p, c)] (map snd ctl)"
      using order(1) shuffles_map [of snd "[(fid, p, c)]" ctl] by auto
    ultimately show ?thesis by auto
  next
    case False
    then have "units = split_loop p (frag_flags c) fid (of_nat (length p)) size 0"
      using assms(1) by (auto simp: split_frame_def Let_def size_def frag_flags_def split: if_splits)
    moreover have "0 < length p" "midway p c fid 0 = reasm_new"
      using False by (auto simp: midway_def)
    ultimately show ?thesis
      using run_from_midway [OF assms(3) size _ assms(4), of mix c 0] assms(2) by auto
  qed
qed

text \<open>C6: Splitting and reassembling are inverse under interleaving. The units \<open>SplitFrame\<close>
  makes of a frame, interleaved in any way with complete units of other frames (each under its
  own frame id), are accepted by a fresh \<open>Reassembler\<close>: it delivers that frame exactly once
  with its compressed flag, delivers the other frames in their order, and ends closed.\<close>

theorem split_reassemble_interleaved:
  assumes "split_frame p c fid unit_size = Inr units"
    and "mix \<in> shuffles units (map complete_unit ctl)"
    and "frame_fits m p"
    and "\<forall>(fid', q, c') \<in> set ctl. frame_fits m q \<and> fid' \<noteq> fid"
  shows "\<exists>outs \<in> shuffles [(p, c)] (map snd ctl).
           reasm_run reasm_new mix m = (reasm_new, Inr outs)"
  by (rule split_mix_reassembles [OF assms])

lemma split_reassemble_interleaved_witness:
  "\<exists>outs \<in> shuffles [([10, 20, 30], False)] [([99], True)].
     reasm_run reasm_new
       [encode_unit \<lparr>u_flags = 2, u_frame_id = 7, u_total = 3, u_offset = 0, u_data = [10, 20]\<rparr>,
        complete_unit (8, [99], True),
        encode_unit \<lparr>u_flags = 2, u_frame_id = 7, u_total = 3, u_offset = 2, u_data = [30]\<rparr>] 1024
     = (reasm_new, Inr outs)"
proof -
  have "split_frame [10, 20, 30] False 7 2 = Inr
      [encode_unit \<lparr>u_flags = 2, u_frame_id = 7, u_total = 3, u_offset = 0, u_data = [10, 20]\<rparr>,
       encode_unit \<lparr>u_flags = 2, u_frame_id = 7, u_total = 3, u_offset = 2, u_data = [30]\<rparr>]"
    by (simp add: split_frame_def split_loop.simps unit_fragment_def)
  then have "\<exists>outs \<in> shuffles [([10, 20, 30], False)] (map snd [(8 :: u32, [99 :: u8], True)]).
     reasm_run reasm_new
       [encode_unit \<lparr>u_flags = 2, u_frame_id = 7, u_total = 3, u_offset = 0, u_data = [10, 20]\<rparr>,
        complete_unit (8, [99], True),
        encode_unit \<lparr>u_flags = 2, u_frame_id = 7, u_total = 3, u_offset = 2, u_data = [30]\<rparr>] 1024
     = (reasm_new, Inr outs)"
    by (rule split_reassemble_interleaved) (auto simp: frame_fits_def Cons_in_shuffles_iff)
  then show ?thesis by simp
qed

text \<open>Memory of a reassembler is bounded by \<open>maxFrame\<close>: whatever sequence of units a peer
  sends, valid or not, and also when a call fails, the partial payload held never exceeds the
  advertised frame limit.\<close>

theorem reassembler_memory_bound:
  assumes "m > 0"
  shows "length (ra_buf (fst (reasm_run reasm_new raws m))) \<le> nat m"
proof -
  have "length (ra_buf r) \<le> nat m \<Longrightarrow> length (ra_buf (fst (reasm_run r raws m))) \<le> nat m" for r
  proof (induction raws arbitrary: r)
    case (Cons raw raws)
    show ?case
      using reasm_accept_buf [OF assms Cons.prems, of raw] Cons.IH
      by (fastforce split: sum.splits prod.splits)
  qed simp
  then show ?thesis by (simp add: reasm_new_def)
qed

lemma reassembler_memory_bound_witness:
  "length (ra_buf (fst (reasm_run reasm_new [[2, 0, 0, 0, 1, 0, 0, 0, 2, 0, 0, 0, 0, 5]] 2))) \<le> nat 2"
  by (rule reassembler_memory_bound) simp

end
