(* ===== verification/Receiver.thy ===== *)
theory Receiver
  imports Prelude
begin

text \<open>
  The in-order receiver of \<open>wire/receiver.go\<close>: a watermark and a bounded map of parked frames.
  Sequence numbers are 64-bit words; the parked map is a Go map.
\<close>

section \<open>State and operations\<close>

record receiver =
  rc_acked :: u64
  rc_window :: int
  rc_buf :: "(u64, bytes) gomap"

datatype recv_error = RSeqZero | RErrOverflow

definition resume_window :: int where "resume_window = 1500"

definition new_receiver_window :: "u64 \<Rightarrow> int \<Rightarrow> receiver" where
  "new_receiver_window acked window =
     \<lparr>rc_acked = acked, rc_window = (if window < 1 then resume_window else window), rc_buf = []\<rparr>"

definition new_receiver :: "u64 \<Rightarrow> receiver" where
  "new_receiver acked = new_receiver_window acked resume_window"

definition recv_acked :: "receiver \<Rightarrow> u64" where "recv_acked r = rc_acked r"
definition recv_buffered :: "receiver \<Rightarrow> nat" where "recv_buffered r = length (rc_buf r)"
definition recv_window :: "receiver \<Rightarrow> int" where "recv_window r = rc_window r"

text \<open>The drain loop behind a filled gap; every round removes one parked frame.\<close>

function recv_drain :: "u64 \<Rightarrow> (u64, bytes) gomap \<Rightarrow> bytes list \<Rightarrow>
    u64 \<times> (u64, bytes) gomap \<times> bytes list" where
  "recv_drain acked buf ready =
     (case gm_get buf (acked + 1) of
        None \<Rightarrow> (acked, buf, ready)
      | Some p \<Rightarrow> recv_drain (acked + 1) (gm_del (acked + 1) buf) (ready @ [p]))"
  by pat_completeness auto
termination
  by (relation "measure (\<lambda>(acked, buf, ready). length buf)") (auto simp: gm_length_del_less)

declare recv_drain.simps [simp del]

text \<open>\<open>Accept\<close> returns the payloads that became applicable, the watermark, and an error.\<close>

definition recv_accept ::
  "receiver \<Rightarrow> u64 \<Rightarrow> bytes \<Rightarrow> receiver \<times> bytes list \<times> u64 \<times> recv_error option" where
  "recv_accept r seq payload =
     (if seq = 0 then (r, [], rc_acked r, Some RSeqZero)
      else if seq \<le> rc_acked r then (r, [], rc_acked r, None)
      else if seq > rc_acked r + 1 then
        (if gm_get (rc_buf r) seq \<noteq> None then (r, [], rc_acked r, None)
         else if int (length (rc_buf r)) \<ge> rc_window r then (r, [], rc_acked r, Some RErrOverflow)
         else (r\<lparr>rc_buf := gm_set seq payload (rc_buf r)\<rparr>, [], rc_acked r, None))
      else
        let (acked, buf, ready) = recv_drain seq (rc_buf r) [payload]
        in (r\<lparr>rc_acked := acked, rc_buf := buf\<rparr>, ready, acked, None))"

text \<open>A run of frames up to the first error, with everything that became applicable.\<close>

fun recv_run :: "receiver \<Rightarrow> (u64 \<times> bytes) list \<Rightarrow> receiver \<times> bytes list \<times> recv_error option" where
  "recv_run r [] = (r, [], None)"
| "recv_run r ((seq, p) # fs) =
     (case recv_accept r seq p of
        (r', ready, _, Some e) \<Rightarrow> (r', ready, Some e)
      | (r', ready, _, None) \<Rightarrow>
          (case recv_run r' fs of (r'', ready', e) \<Rightarrow> (r'', ready @ ready', e)))"

section \<open>Invariant\<close>

text \<open>
  Parked frames lie strictly beyond the next expected sequence number, no number twice, and
  never more of them than the window allows.
\<close>

definition recv_inv :: "receiver \<Rightarrow> bool" where
  "recv_inv r \<longleftrightarrow> gm_ok (rc_buf r) \<and> 1 \<le> rc_window r \<and> int (length (rc_buf r)) \<le> rc_window r \<and>
     (\<forall>k \<in> gm_keys (rc_buf r). unat (rc_acked r) + 1 < unat k)"

lemma recv_inv_new [simp]: "recv_inv (new_receiver_window a w)"
  by (simp add: recv_inv_def new_receiver_window_def resume_window_def)

lemma unat_of_nat_u64: "n < 2 ^ 64 \<Longrightarrow> unat (of_nat n :: u64) = n"
  by (simp add: unat_of_nat)

lemma unat_succ_u64: "(a :: u64) + 1 \<noteq> 0 \<Longrightarrow> unat (a + 1) = Suc (unat a)"
  by (metis add.commute unatSuc)

lemma u64_gt_succ: "(s :: u64) > a + 1 \<Longrightarrow> s > a \<Longrightarrow> unat a + 1 < unat s"
  by (simp add: word_Suc_less word_less_nat_alt)

lemma u64_not_gt_succ: "(s :: u64) > a \<Longrightarrow> \<not> s > a + 1 \<Longrightarrow> s = a + 1 \<and> unat s = Suc (unat a)"
  using word_gt_not_succ word_Suc_less by blast

text \<open>What the drain loop computes: the longest contiguous run of parked frames.\<close>

lemma recv_drain_spec:
  assumes "recv_drain a buf rdy = (a', buf', rdy')"
    and "gm_ok buf" and "gm_get buf 0 = None"
  shows "unat a \<le> unat a'"
    and "rdy' = rdy @ map (\<lambda>n. the (gm_get buf (of_nat n))) [Suc (unat a)..<Suc (unat a')]"
    and "\<forall>n \<in> {Suc (unat a)..unat a'}. gm_get buf (of_nat n) \<noteq> None"
    and "\<forall>k. gm_get buf' k = (if unat a < unat k \<and> unat k \<le> unat a' then None else gm_get buf k)"
    and "gm_ok buf'" and "gm_get buf' (a' + 1) = None" and "length buf' \<le> length buf"
proof -
  have "unat a \<le> unat a' \<and>
    rdy' = rdy @ map (\<lambda>n. the (gm_get buf (of_nat n))) [Suc (unat a)..<Suc (unat a')] \<and>
    (\<forall>n \<in> {Suc (unat a)..unat a'}. gm_get buf (of_nat n) \<noteq> None) \<and>
    (\<forall>k. gm_get buf' k = (if unat a < unat k \<and> unat k \<le> unat a' then None else gm_get buf k)) \<and>
    gm_ok buf' \<and> gm_get buf' (a' + 1) = None \<and> length buf' \<le> length buf"
    using assms
  proof (induction a buf rdy rule: recv_drain.induct)
    case (1 a buf rdy)
    show ?case
    proof (cases "gm_get buf (a + 1)")
      case None
      then have "a' = a" "buf' = buf" "rdy' = rdy"
        using "1.prems"(1) by (simp_all add: recv_drain.simps [of a])
      then show ?thesis using None "1.prems" by auto
    next
      case (Some p)
      have nz: "a + 1 \<noteq> 0" using Some "1.prems"(3) by auto
      then have su: "unat (a + 1) = Suc (unat a)" by (rule unat_succ_u64)
      have rec: "recv_drain (a + 1) (gm_del (a + 1) buf) (rdy @ [p]) = (a', buf', rdy')"
        using Some "1.prems"(1) by (simp add: recv_drain.simps [of a])
      have IH: "unat (a + 1) \<le> unat a' \<and>
        rdy' = (rdy @ [p]) @ map (\<lambda>n. the (gm_get (gm_del (a + 1) buf) (of_nat n)))
                               [Suc (unat (a + 1))..<Suc (unat a')] \<and>
        (\<forall>n \<in> {Suc (unat (a + 1))..unat a'}. gm_get (gm_del (a + 1) buf) (of_nat n) \<noteq> None) \<and>
        (\<forall>k. gm_get buf' k = (if unat (a + 1) < unat k \<and> unat k \<le> unat a' then None
                                else gm_get (gm_del (a + 1) buf) k)) \<and>
        gm_ok buf' \<and> gm_get buf' (a' + 1) = None \<and> length buf' \<le> length (gm_del (a + 1) buf)"
        by (rule "1.IH" [OF Some rec]) (use "1.prems"(2,3) in \<open>auto simp: gm_get_del\<close>)
      have lt: "n < 2 ^ 64" if "n \<le> unat a'" for n
        using that unat_less_u64 [of a'] by simp
      have eq: "of_nat n = a + 1 \<longleftrightarrow> n = Suc (unat a)" if "n \<le> unat a'" for n
        using lt [OF that] su by (simp add: of_nat_eq_u64)
      have split: "[Suc (unat a)..<Suc (unat a')] = Suc (unat a) # [Suc (Suc (unat a))..<Suc (unat a')]"
        using IH su by (subst upt_conv_Cons) auto
      have first: "gm_get buf (of_nat (Suc (unat a))) = Some p"
        using Some of_nat_unat [of "a + 1"] su by (simp add: add.commute)
      have same: "map (\<lambda>n. the (gm_get (gm_del (a + 1) buf) (of_nat n))) [Suc (Suc (unat a))..<Suc (unat a')]
          = map (\<lambda>n. the (gm_get buf (of_nat n))) [Suc (Suc (unat a))..<Suc (unat a')]"
        using eq su by (auto simp: gm_get_del simp del: upt_Suc)
      have some: "gm_get buf (of_nat n) \<noteq> None" if "n \<in> {Suc (unat a)..unat a'}" for n
        using that IH first eq su by (cases "n = Suc (unat a)") (auto simp: gm_get_del)
      have keys: "gm_get buf' k = (if unat a < unat k \<and> unat k \<le> unat a' then None else gm_get buf k)" for k
        using IH su by (auto simp: gm_get_del word_unat_eq_iff)
      have c1: "unat a \<le> unat a'" using IH su by simp
      have c2: "rdy' = rdy @ map (\<lambda>n. the (gm_get buf (of_nat n))) [Suc (unat a)..<Suc (unat a')]"
        using IH su split first same by (simp del: upt_Suc of_nat_Suc)
      have c3: "\<forall>n \<in> {Suc (unat a)..unat a'}. gm_get buf (of_nat n) \<noteq> None"
        using some by blast
      have c4: "gm_ok buf'" "gm_get buf' (a' + 1) = None" using IH by blast+
      have c5: "length buf' \<le> length buf"
        using IH gm_length_del_le [of "a + 1" buf] by (meson le_trans)
      show ?thesis using c1 c2 c3 c4 c5 keys by blast
    qed
  qed
  then show "unat a \<le> unat a'"
    and "rdy' = rdy @ map (\<lambda>n. the (gm_get buf (of_nat n))) [Suc (unat a)..<Suc (unat a')]"
    and "\<forall>n \<in> {Suc (unat a)..unat a'}. gm_get buf (of_nat n) \<noteq> None"
    and "\<forall>k. gm_get buf' k = (if unat a < unat k \<and> unat k \<le> unat a' then None else gm_get buf k)"
    and "gm_ok buf'" and "gm_get buf' (a' + 1) = None" and "length buf' \<le> length buf"
    by blast+
qed

section \<open>One accepted frame\<close>

text \<open>The sequence numbers a receiver will never need again: applied or parked.\<close>

definition recv_seen :: "receiver \<Rightarrow> u64 set" where
  "recv_seen r = {k. unat k \<le> unat (rc_acked r)} \<union> gm_keys (rc_buf r)"

text \<open>The parked payloads are the ones a sender assigned: \<open>f\<close> gives the payload of each number.\<close>

definition recv_holds :: "(u64 \<Rightarrow> bytes) \<Rightarrow> receiver \<Rightarrow> bool" where
  "recv_holds f r \<longleftrightarrow> (\<forall>k p. gm_get (rc_buf r) k = Some p \<longrightarrow> p = f k)"

lemma recv_seen_acked: "recv_inv r \<Longrightarrow> k \<in> recv_seen r \<Longrightarrow> unat k = Suc (unat (rc_acked r)) \<Longrightarrow> False"
  by (auto simp: recv_seen_def recv_inv_def)

lemma recv_invD: "recv_inv r \<Longrightarrow> gm_get (rc_buf r) k = Some p \<Longrightarrow> unat (rc_acked r) + 1 < unat k"
  by (force simp: recv_inv_def dest: gm_get_in)

lemma recv_inv_zero: "recv_inv r \<Longrightarrow> gm_get (rc_buf r) 0 = None"
  unfolding recv_inv_def by (metis dom_map_of_conv_image_fst domIff not_less_zero unat_0)

lemma recv_accept_cases:
  assumes "recv_accept r s p = (r', ready, ack, err)"
  obtains (zero) "s = 0" "r' = r" "ready = []" "err = Some RSeqZero"
  | (dup) "s \<noteq> 0" "s \<le> rc_acked r \<or> gm_get (rc_buf r) s \<noteq> None" "r' = r" "ready = []" "err = None"
  | (overflow) "rc_acked r + 1 < s" "rc_acked r < s" "int (length (rc_buf r)) \<ge> rc_window r"
      "r' = r" "ready = []" "err = Some RErrOverflow"
  | (park) "rc_acked r + 1 < s" "rc_acked r < s" "gm_get (rc_buf r) s = None"
      "int (length (rc_buf r)) < rc_window r"
      "r' = r\<lparr>rc_buf := gm_set s p (rc_buf r)\<rparr>" "ready = []" "err = None"
  | (apply_frame) acked buf where "rc_acked r < s" "s = rc_acked r + 1" "unat s = Suc (unat (rc_acked r))"
      "recv_drain s (rc_buf r) [p] = (acked, buf, ready)"
      "r' = r\<lparr>rc_acked := acked, rc_buf := buf\<rparr>" "err = None"
proof -
  consider "s = 0" | "s \<noteq> 0" "s \<le> rc_acked r" | "s \<noteq> 0" "rc_acked r < s" "rc_acked r + 1 < s"
    | "s \<noteq> 0" "rc_acked r < s" "s = rc_acked r + 1" "unat s = Suc (unat (rc_acked r))"
    using u64_not_gt_succ [of "rc_acked r" s] by (metis not_le)
  then show ?thesis
  proof cases
    case 1
    show ?thesis by (rule zero) (use 1 assms in \<open>auto simp: recv_accept_def\<close>)
  next
    case 2
    show ?thesis by (rule dup) (use 2 assms in \<open>auto simp: recv_accept_def\<close>)
  next
    case 3
    then have step: "recv_accept r s p =
      (if gm_get (rc_buf r) s \<noteq> None then (r, [], rc_acked r, None)
       else if int (length (rc_buf r)) \<ge> rc_window r then (r, [], rc_acked r, Some RErrOverflow)
       else (r\<lparr>rc_buf := gm_set s p (rc_buf r)\<rparr>, [], rc_acked r, None))"
      unfolding recv_accept_def by simp
    show ?thesis
    proof (cases "gm_get (rc_buf r) s \<noteq> None")
      case True
      show ?thesis by (rule dup) (use True step assms 3(1) in auto)
    next
      case False
      note new = False
      show ?thesis
      proof (cases "int (length (rc_buf r)) \<ge> rc_window r")
        case True
        show ?thesis by (rule overflow) (use True new step assms 3 in auto)
      next
        case False
        show ?thesis by (rule park) (use False new step assms 3 in auto)
      qed
    qed
  next
    case 4
    obtain acked buf rdy where d: "recv_drain s (rc_buf r) [p] = (acked, buf, rdy)"
      by (cases "recv_drain s (rc_buf r) [p]")
    have "recv_accept r s p = (r\<lparr>rc_acked := acked, rc_buf := buf\<rparr>, rdy, acked, None)"
      using 4(1,2) d unfolding recv_accept_def by (auto simp: 4(3) [symmetric])
    then show ?thesis
      using assms d 4 by (intro apply_frame [of acked buf]) auto
  qed
qed

lemma recv_accept_ack: "recv_accept r s p = (r', ready, ack, err) \<Longrightarrow> ack = rc_acked r'"
  by (auto simp: recv_accept_def split: if_splits prod.splits)

lemma recv_accept_inv:
  assumes "recv_accept r s p = (r', ready, ack, err)" and "recv_inv r"
  shows "recv_inv r'"
  using assms(1)
proof (cases rule: recv_accept_cases)
  case park
  then show ?thesis
    using assms(2) u64_gt_succ by (auto simp: recv_inv_def gm_length_set_new)
next
  case (apply_frame acked buf)
  note spec = recv_drain_spec [OF apply_frame(4)]
  have ok: "gm_ok (rc_buf r)" "gm_get (rc_buf r) 0 = None"
    using assms(2) recv_inv_zero by (auto simp: recv_inv_def)
  have keys: "unat acked + 1 < unat k" if "k \<in> gm_keys buf" for k
  proof -
    have k: "gm_get buf k \<noteq> None" using that by (metis gm_keys_iff)
    then have "gm_get (rc_buf r) k \<noteq> None" "\<not> (unat s < unat k \<and> unat k \<le> unat acked)"
      using spec(4) [OF ok] by (auto split: if_splits)
    then have "unat s < unat k"
      using recv_invD [OF assms(2)] apply_frame(3) by fastforce
    then have "unat acked < unat k"
      using \<open>\<not> (unat s < unat k \<and> unat k \<le> unat acked)\<close> by simp
    moreover have "k \<noteq> acked + 1" using k spec(6) [OF ok] by auto
    ultimately show ?thesis
      by (metis u64_gt_succ word_gt_not_succ word_less_nat_alt)
  qed
  show ?thesis
    using assms(2) apply_frame spec(5,7) [OF ok] keys by (auto simp: recv_inv_def)
qed (use assms(2) in auto)

lemma recv_accept_step:
  assumes "recv_accept r s (f s) = (r', ready, ack, None)" and "recv_inv r" and "recv_holds f r"
  shows "recv_holds f r'"
    and "unat (rc_acked r) \<le> unat (rc_acked r')"
    and "ready = map (\<lambda>n. f (of_nat n)) [Suc (unat (rc_acked r))..<Suc (unat (rc_acked r'))]"
    and "recv_seen r' = insert s (recv_seen r)"
proof -
  have "recv_holds f r' \<and> unat (rc_acked r) \<le> unat (rc_acked r') \<and>
    ready = map (\<lambda>n. f (of_nat n)) [Suc (unat (rc_acked r))..<Suc (unat (rc_acked r'))] \<and>
    recv_seen r' = insert s (recv_seen r)"
    using assms(1)
  proof (cases rule: recv_accept_cases)
    case dup
    then show ?thesis
      using assms(3) by (auto simp: recv_seen_def word_le_nat_alt map_of_eq_None_iff)
  next
    case park
    then show ?thesis
      using assms(3) by (auto simp: recv_seen_def recv_holds_def gm_get_set)
  next
    case (apply_frame acked buf)
    have ok: "gm_ok (rc_buf r)" "gm_get (rc_buf r) 0 = None"
      using assms(2) recv_inv_zero by (auto simp: recv_inv_def)
    note spec = recv_drain_spec [OF apply_frame(4) ok]
    have holds: "recv_holds f r'"
      using assms(3) spec(4) apply_frame(5) by (auto simp: recv_holds_def)
    have f: "the (gm_get (rc_buf r) (of_nat n)) = f (of_nat n)" if "n \<in> {Suc (unat s)..unat acked}" for n
      using that spec(3) assms(3) by (force simp: recv_holds_def)
    have "ready = f s # map (\<lambda>n. f (of_nat n)) [Suc (unat s)..<Suc (unat acked)]"
      using spec(2) f by (auto simp del: upt_Suc)
    also have "\<dots> = map (\<lambda>n. f (of_nat n)) [unat s..<Suc (unat acked)]"
      using spec(1) by (subst (2) upt_conv_Cons) (auto simp del: upt_Suc)
    finally have ready: "ready = map (\<lambda>n. f (of_nat n)) [Suc (unat (rc_acked r))..<Suc (unat acked)]"
      using apply_frame(3) by simp
    have mem: "k \<in> gm_keys buf \<longleftrightarrow> k \<in> gm_keys (rc_buf r) \<and> \<not> (unat s < unat k \<and> unat k \<le> unat acked)" for k
      unfolding gm_keys_iff using spec(4) by auto
    have run: "k \<in> gm_keys (rc_buf r)" if "unat s < unat k" "unat k \<le> unat acked" for k
    proof -
      have "unat k \<in> {Suc (unat s)..unat acked}" using that by simp
      then have "gm_get (rc_buf r) (of_nat (unat k)) \<noteq> None" using spec(3) by blast
      then show ?thesis unfolding of_nat_unat by (metis gm_keys_iff)
    qed
    have "k \<in> recv_seen r' \<longleftrightarrow> k \<in> insert s (recv_seen r)" for k
    proof -
      have "unat k \<le> unat s \<longleftrightarrow> k = s \<or> unat k \<le> unat (rc_acked r)"
        using apply_frame(3) by (auto simp: le_Suc_eq word_unat_eq_iff)
      then show ?thesis
        using apply_frame(5) spec(1) mem [of k] run [of k] by (auto simp: recv_seen_def)
    qed
    then show ?thesis
      using holds ready apply_frame spec(1) by auto
  qed auto
  then show "recv_holds f r'" and "unat (rc_acked r) \<le> unat (rc_acked r')"
    and "ready = map (\<lambda>n. f (of_nat n)) [Suc (unat (rc_acked r))..<Suc (unat (rc_acked r'))]"
    and "recv_seen r' = insert s (recv_seen r)"
    by blast+
qed

section \<open>Runs\<close>

definition stamped :: "(u64 \<Rightarrow> bytes) \<Rightarrow> u64 list \<Rightarrow> (u64 \<times> bytes) list" where
  "stamped f seqs = map (\<lambda>s. (s, f s)) seqs"

text \<open>The payloads of the sequence numbers \<open>a + 1\<close> up to \<open>b\<close>, in order.\<close>

definition payload_run :: "(u64 \<Rightarrow> bytes) \<Rightarrow> u64 \<Rightarrow> u64 \<Rightarrow> bytes list" where
  "payload_run f a b = map (\<lambda>n. f (of_nat n)) [Suc (unat a)..<Suc (unat b)]"

lemma payload_run_refl [simp]: "payload_run f a a = []"
  by (simp add: payload_run_def)

lemma payload_run_append:
  "unat a \<le> unat b \<Longrightarrow> unat b \<le> unat c \<Longrightarrow> payload_run f a b @ payload_run f b c = payload_run f a c"
proof -
  assume le: "unat a \<le> unat b" "unat b \<le> unat c"
  then obtain k where k: "Suc (unat c) = Suc (unat b) + k"
    by (metis le_Suc_ex Suc_le_mono)
  show ?thesis
    unfolding payload_run_def k map_append [symmetric]
    using le by (subst upt_add_eq_append) auto
qed

lemma recv_run_spec:
  assumes "recv_run r (stamped f seqs) = (r', out, None)" and "recv_inv r" and "recv_holds f r"
  shows "recv_inv r' \<and> recv_holds f r' \<and> unat (rc_acked r) \<le> unat (rc_acked r') \<and>
     out = payload_run f (rc_acked r) (rc_acked r') \<and> recv_seen r' = set seqs \<union> recv_seen r"
  using assms
proof (induction seqs arbitrary: r out)
  case Nil
  then show ?case by (simp add: stamped_def)
next
  case (Cons s seqs)
  obtain r1 ready ack err where step: "recv_accept r s (f s) = (r1, ready, ack, err)"
    by (cases "recv_accept r s (f s)")
  with Cons.prems(1) obtain out' where err: "err = None"
    and rest: "recv_run r1 (stamped f seqs) = (r', out', None)" and out: "out = ready @ out'"
    by (auto simp: stamped_def split: option.splits prod.splits)
  note one = recv_accept_step [of r s f r1 ready ack, OF _ Cons.prems(2,3)]
  note inv1 = recv_accept_inv [OF step Cons.prems(2)]
  have IH: "recv_inv r' \<and> recv_holds f r' \<and> unat (rc_acked r1) \<le> unat (rc_acked r') \<and>
     out' = payload_run f (rc_acked r1) (rc_acked r') \<and> recv_seen r' = set seqs \<union> recv_seen r1"
    by (rule Cons.IH [OF rest inv1]) (use one step err in simp)
  have "ready = payload_run f (rc_acked r) (rc_acked r1)"
    unfolding payload_run_def using one(3) step err by simp
  then show ?case
    using IH one(2,4) step err out by (auto simp: payload_run_append)
qed

lemma recv_run_new:
  assumes "recv_run (new_receiver_window w win) (stamped f seqs) = (r', out, None)"
  shows "recv_inv r' \<and> unat w \<le> unat (rc_acked r') \<and> out = payload_run f w (rc_acked r') \<and>
     recv_seen r' = set seqs \<union> {k. unat k \<le> unat w}"
proof -
  have "recv_holds f (new_receiver_window w win)" "rc_acked (new_receiver_window w win) = w"
    "recv_seen (new_receiver_window w win) = {k. unat k \<le> unat w}"
    by (simp_all add: recv_holds_def recv_seen_def new_receiver_window_def)
  then show ?thesis using recv_run_spec [OF assms recv_inv_new] by simp
qed

lemma recv_run_inv: "recv_run r fs = (r', out, err) \<Longrightarrow> recv_inv r \<Longrightarrow> recv_inv r'"
proof (induction fs arbitrary: r out)
  case (Cons sp fs)
  obtain s p where sp: "sp = (s, p)" by (cases sp)
  obtain r1 ready ack e where step: "recv_accept r s p = (r1, ready, ack, e)"
    by (cases "recv_accept r s p")
  then have "recv_inv r1" using recv_accept_inv Cons.prems(2) by blast
  then show ?case
    using Cons step sp by (auto split: option.splits prod.splits)
qed simp

section \<open>Properties\<close>

text \<open>C24: In-order, exactly-once delivery. Whatever order, duplication or gaps the frames of a
  direction arrive in, a receiver that reports no error has handed on exactly the payloads
  \<open>w + 1, \<dots>, acked\<close>, in order and once each, every one of them was received, and the next
  number \<open>acked + 1\<close> was not: the watermark is the end of the longest contiguous run and never
  jumps.\<close>

theorem receiver_delivers_in_order:
  assumes "recv_run (new_receiver_window w win) (stamped f seqs) = (r', out, None)"
  shows "out = payload_run f w (rc_acked r') \<and>
     {s. w < s \<and> s \<le> rc_acked r'} \<subseteq> set seqs \<and>
     (\<forall>s \<in> set seqs. unat s \<noteq> Suc (unat (rc_acked r')))"
proof -
  note spec = recv_run_new [OF assms]
  have "s \<in> set seqs" if "w < s" "s \<le> rc_acked r'" for s
  proof -
    have "s \<in> recv_seen r'" using that by (simp add: recv_seen_def word_le_nat_alt)
    then show ?thesis using spec that by (simp add: word_less_nat_alt)
  qed
  moreover have "unat s \<noteq> Suc (unat (rc_acked r'))" if "s \<in> set seqs" for s
    using that spec recv_seen_acked [of r' s] by auto
  ultimately show ?thesis using spec by auto
qed

lemma receiver_delivers_in_order_witness:
  "\<exists>r' out. recv_run (new_receiver_window 4 2) (stamped (\<lambda>s. [ucast s]) [7, 5, 7, 6, 3]) = (r', out, None)
     \<and> out = payload_run (\<lambda>s. [ucast s]) 4 (rc_acked r') \<and> rc_acked r' = 7 \<and> out = [[5], [6], [7]]"
proof -
  have run: "recv_run (new_receiver_window 4 2) (stamped (\<lambda>s. [ucast s]) [7, 5, 7, 6, 3]) =
      (\<lparr>rc_acked = 7, rc_window = 2, rc_buf = []\<rparr>, [[5], [6], [7]], None)"
    by (simp add: stamped_def new_receiver_window_def recv_accept_def recv_drain.simps)
  show ?thesis using receiver_delivers_in_order [OF run] run by auto
qed

text \<open>The outcome does not depend on the order or multiplicity of arrivals: two runs over the
  same set of sequence numbers that stay within the window end at the same watermark and hand on
  the same payloads.\<close>

theorem receiver_order_independent:
  assumes "recv_run (new_receiver_window w win) (stamped f seqs) = (r1, out1, None)"
    and "recv_run (new_receiver_window w win') (stamped f seqs') = (r2, out2, None)"
    and "set seqs = set seqs'"
  shows "out1 = out2 \<and> rc_acked r1 = rc_acked r2"
proof -
  note s1 = recv_run_new [OF assms(1)] and s2 = recv_run_new [OF assms(2), folded assms(3)]
  have le: "unat (rc_acked a) \<le> unat (rc_acked b)"
    if "recv_inv b" "recv_seen a = recv_seen b" for a b
  proof (rule ccontr)
    assume "\<not> ?thesis"
    then have lt: "rc_acked b < rc_acked a" by (simp add: word_less_nat_alt)
    then have "rc_acked b + 1 \<in> recv_seen a"
      by (simp add: recv_seen_def word_Suc_less) (use lt in \<open>simp add: word_less_nat_alt\<close>)
    then show False
      using recv_seen_acked [OF that(1), of "rc_acked b + 1"] that(2) lt by (simp add: word_Suc_less)
  qed
  have "rc_acked r1 = rc_acked r2"
    using le [of r1 r2] le [of r2 r1] s1 s2 by (simp add: word_unat_eq_iff)
  then show ?thesis using s1 s2 by simp
qed

lemma receiver_order_independent_witness:
  "\<exists>r1 r2 out. recv_run (new_receiver_window 0 4) (stamped (\<lambda>s. [ucast s]) [2, 1]) = (r1, out, None)
     \<and> recv_run (new_receiver_window 0 4) (stamped (\<lambda>s. [ucast s]) [1, 1, 2]) = (r2, out, None)
     \<and> rc_acked r1 = rc_acked r2"
proof -
  have a: "recv_run (new_receiver_window 0 4) (stamped (\<lambda>s. [ucast s]) [2, 1]) =
      (\<lparr>rc_acked = 2, rc_window = 4, rc_buf = []\<rparr>, [[1], [2]], None)"
    and b: "recv_run (new_receiver_window 0 4) (stamped (\<lambda>s. [ucast s]) [1, 1, 2]) =
      (\<lparr>rc_acked = 2, rc_window = 4, rc_buf = []\<rparr>, [[1], [2]], None)"
    by (simp_all add: stamped_def new_receiver_window_def recv_accept_def recv_drain.simps
        word_le_nat_alt)
  show ?thesis using receiver_order_independent [OF a b] a b by auto
qed

text \<open>The parked-frame bound. Whatever frames arrive, errors included, a receiver never parks
  more frames than the advertised resume window, and an overflow changes nothing: the watermark
  and the parked frames stay where they were, so the peer can replay after a reconnect.\<close>

theorem receiver_window_bound:
  assumes "recv_run (new_receiver_window w win) fs = (r, out, err)" and "1 \<le> win"
  shows "int (recv_buffered r) \<le> win \<and>
     (recv_accept r s p = (r', ready, ack, Some RErrOverflow) \<longrightarrow>
        r' = r \<and> ready = [] \<and> ack = rc_acked r \<and> int (recv_buffered r) = win)"
proof -
  have win: "rc_window r = win"
  proof -
    have "recv_run r0 fs = (r, out, err) \<Longrightarrow> rc_window r = rc_window r0" for r0
    proof (induction fs arbitrary: r0 out)
      case (Cons sp fs)
      then show ?case
        by (cases sp) (auto simp: recv_accept_def split: if_splits prod.splits option.splits)
    qed simp
    then show ?thesis using assms by (simp add: new_receiver_window_def)
  qed
  have inv: "recv_inv r" using recv_run_inv assms(1) by simp
  show ?thesis
    using inv win by (auto simp: recv_inv_def recv_buffered_def recv_accept_def
        split: if_splits prod.splits)
qed

lemma receiver_window_bound_witness:
  "\<exists>r. recv_run (new_receiver_window 0 1) [(3, []), (2, [])] = (r, [], Some RErrOverflow)
     \<and> int (recv_buffered r) \<le> 1"
proof -
  have run: "recv_run (new_receiver_window 0 1) [(3, []), (2, [])] =
      (\<lparr>rc_acked = 0, rc_window = 1, rc_buf = [(3, [])]\<rparr>, [], Some RErrOverflow)"
    by (simp add: new_receiver_window_def recv_accept_def)
  show ?thesis using receiver_window_bound [OF run] run by simp
qed

end
