(* ===== verification/Sender.thy ===== *)
theory Sender
  imports Prelude
begin

text \<open>
  The sender side of one direction, \<open>wire/sender.go\<close>: sequence assignment and the log of
  unacknowledged frames, the only repair path after a reconnect. The in-place compaction of the
  log (\<open>copy\<close>, \<open>clear\<close>, reslice) is a \<open>dropWhile\<close> on the list it leaves.
\<close>

section \<open>State and operations\<close>

record log_entry =
  le_seq :: u64
  le_payload :: bytes

record sender =
  sn_next :: u64
  sn_acked :: u64
  sn_log :: "log_entry list"
  sn_bytes :: int

datatype send_error = SSeqZero | SSeqMismatch | SNotInLog

definition new_sender :: "u64 \<Rightarrow> sender" where
  "new_sender acked = \<lparr>sn_next = acked, sn_acked = acked, sn_log = [], sn_bytes = 0\<rparr>"

text \<open>The unexported \<open>append\<close>.\<close>

definition sender_append_entry :: "sender \<Rightarrow> u64 \<Rightarrow> bytes \<Rightarrow> sender" where
  "sender_append_entry s seq payload =
     s\<lparr>sn_next := seq, sn_log := sn_log s @ [\<lparr>le_seq = seq, le_payload = payload\<rparr>],
       sn_bytes := sn_bytes s + int (length payload)\<rparr>"

definition sender_append :: "sender \<Rightarrow> bytes \<Rightarrow> sender \<times> u64" where
  "sender_append s payload =
     (let seq = sn_next s + 1 in (sender_append_entry s seq payload, seq))"

definition sender_append_at :: "sender \<Rightarrow> u64 \<Rightarrow> bytes \<Rightarrow> sender \<times> send_error option" where
  "sender_append_at s seq payload =
     (if seq = 0 then (s, Some SSeqZero)
      else
        let s = (if sn_next s = 0 then s\<lparr>sn_next := seq - 1\<rparr> else s)
        in if seq \<noteq> sn_next s + 1 then (s, Some SSeqMismatch)
           else (sender_append_entry s seq payload, None))"

text \<open>
  The \<open>for\<close> loop of \<open>Ack\<close>: entries at or below \<open>n\<close> leave from the front and their bytes are
  subtracted.
\<close>

fun ack_loop :: "u64 \<Rightarrow> log_entry list \<Rightarrow> int \<Rightarrow> log_entry list \<times> int" where
  "ack_loop n [] b = ([], b)"
| "ack_loop n (e # es) b =
     (if le_seq e \<le> n then ack_loop n es (b - int (length (le_payload e))) else (e # es, b))"

definition sender_ack :: "sender \<Rightarrow> u64 \<Rightarrow> sender" where
  "sender_ack s n0 =
     (let n = (if n0 > sn_next s then sn_next s else n0)
      in if n \<le> sn_acked s then s
         else let (es, b) = ack_loop n (sn_log s) (sn_bytes s)
              in s\<lparr>sn_acked := n, sn_log := es, sn_bytes := b\<rparr>)"

text \<open>\<open>ElideFrom\<close>: the scan from index \<open>start\<close>, replacing the first entry with the number.\<close>

fun elide_scan :: "log_entry list \<Rightarrow> nat \<Rightarrow> u64 \<Rightarrow> nat option" where
  "elide_scan [] i seq = None"
| "elide_scan (e # es) i seq = (if le_seq e = seq then Some i else elide_scan es (Suc i) seq)"

definition sender_elide_from :: "sender \<Rightarrow> int \<Rightarrow> u64 \<Rightarrow> bytes \<Rightarrow> sender \<times> (send_error + nat)" where
  "sender_elide_from s start0 seq replacement =
     (let start = nat (if start0 < 0 then 0 else start0)
      in case elide_scan (drop start (sn_log s)) start seq of
           None \<Rightarrow> (s, Inl SNotInLog)
         | Some i \<Rightarrow>
             (s\<lparr>sn_bytes := sn_bytes s + (int (length replacement) - int (length (le_payload (sn_log s ! i)))),
                sn_log := (sn_log s)[i := (sn_log s ! i)\<lparr>le_payload := replacement\<rparr>]\<rparr>, Inr i))"

definition sender_elide :: "sender \<Rightarrow> u64 \<Rightarrow> bytes \<Rightarrow> sender \<times> send_error option" where
  "sender_elide s seq replacement =
     (case sender_elide_from s 0 seq replacement of
        (s', Inl e) \<Rightarrow> (s', Some e) | (s', Inr _) \<Rightarrow> (s', None))"

definition sender_entry_at :: "sender \<Rightarrow> int \<Rightarrow> log_entry option" where
  "sender_entry_at s i =
     (if i < 0 \<or> i \<ge> int (length (sn_log s)) then None else Some (sn_log s ! nat i))"

definition sender_entry :: "sender \<Rightarrow> u64 \<Rightarrow> log_entry option" where
  "sender_entry s seq = List.find (\<lambda>e. le_seq e = seq) (sn_log s)"

definition sender_entries :: "sender \<Rightarrow> log_entry list" where "sender_entries s = sn_log s"
definition sender_bytes :: "sender \<Rightarrow> int" where "sender_bytes s = sn_bytes s"
definition sender_len :: "sender \<Rightarrow> nat" where "sender_len s = length (sn_log s)"
definition sender_acked :: "sender \<Rightarrow> u64" where "sender_acked s = sn_acked s"
definition sender_next :: "sender \<Rightarrow> u64" where "sender_next s = sn_next s"

section \<open>Invariant\<close>

definition payload_bytes :: "log_entry list \<Rightarrow> int" where
  "payload_bytes es = (\<Sum>e\<leftarrow>es. int (length (le_payload e)))"

text \<open>
  The log is a gapless run that ends at \<open>next\<close>, starts above the watermark, and \<open>bytes\<close> is its
  weight. Without a baseline set by \<open>AppendAt\<close> it is the whole interval \<open>(acked, next]\<close>
  (\<open>sender_full\<close>).
\<close>

definition sender_inv :: "sender \<Rightarrow> bool" where
  "sender_inv s \<longleftrightarrow> sn_acked s \<le> sn_next s \<and>
     length (sn_log s) \<le> unat (sn_next s) - unat (sn_acked s) \<and>
     map (unat \<circ> le_seq) (sn_log s)
       = [Suc (unat (sn_next s)) - length (sn_log s)..<Suc (unat (sn_next s))] \<and>
     sn_bytes s = payload_bytes (sn_log s)"

definition sender_full :: "sender \<Rightarrow> bool" where
  "sender_full s \<longleftrightarrow> sender_inv s \<and> length (sn_log s) = unat (sn_next s) - unat (sn_acked s)"

lemma payload_bytes_simps [simp]:
  "payload_bytes [] = 0"
  "payload_bytes (e # es) = int (length (le_payload e)) + payload_bytes es"
  "payload_bytes (es @ fs) = payload_bytes es + payload_bytes fs"
  by (simp_all add: payload_bytes_def)

lemma sender_full_new [simp]: "sender_full (new_sender a)"
  by (simp add: sender_full_def sender_inv_def new_sender_def)

lemma new_sender_sel [simp]:
  "sn_next (new_sender a) = a" "sn_acked (new_sender a) = a"
  by (simp_all add: new_sender_def)

lemma sender_full_inv: "sender_full s \<Longrightarrow> sender_inv s"
  by (simp add: sender_full_def)

lemma ack_loop_eq: "ack_loop n es b = (dropWhile (\<lambda>e. le_seq e \<le> n) es,
    b - payload_bytes (takeWhile (\<lambda>e. le_seq e \<le> n) es))"
  by (induction n es b rule: ack_loop.induct) auto

lemma payload_bytes_drop:
  "payload_bytes es - payload_bytes (takeWhile P es) = payload_bytes (dropWhile P es)"
  by (metis add_diff_cancel_left' payload_bytes_simps(3) takeWhile_dropWhile_id)

text \<open>Dropping the acknowledged prefix of a gapless run.\<close>

lemma run_dropWhile:
  assumes "map (unat \<circ> le_seq) es = [a..<b]" and "a \<le> b"
  shows "map (unat \<circ> le_seq) (dropWhile (\<lambda>e. le_seq e \<le> n) es) = [max a (Suc (unat n))..<b]"
  using assms
proof (induction es arbitrary: a)
  case Nil
  then have "b \<le> a" by (cases "a < b") (auto simp: upt_rec)
  then show ?case by auto
next
  case (Cons e es)
  then have ab: "a < b" and hd: "unat (le_seq e) = a" and tl: "map (unat \<circ> le_seq) es = [Suc a..<b]"
    by (simp_all add: Cons_eq_upt comp_def)
  show ?case
  proof (cases "le_seq e \<le> n")
    case True
    then have "a \<le> unat n" using hd by (simp add: word_le_nat_alt)
    then show ?thesis using Cons.IH [OF tl] True ab by (simp add: max_def)
  next
    case False
    then have "unat n < a" using hd by (simp add: word_le_nat_alt)
    then have "max a (Suc (unat n)) = a" by simp
    then show ?thesis using False Cons.prems(1) by simp
  qed
qed

text \<open>The watermark after an ack: clamped to what was sent, never moved back.\<close>

definition ack_target :: "sender \<Rightarrow> u64 \<Rightarrow> u64" where
  "ack_target s n = max (sn_acked s) (min n (sn_next s))"

lemma min_word_if: "(if n > m then m else n) = min n (m :: u64)"
  by (auto simp: min_def)

lemma sender_ack_inv:
  assumes "sender_inv s"
  shows "sender_inv (sender_ack s n)"
    and "sn_acked (sender_ack s n) = ack_target s n"
    and "sn_next (sender_ack s n) = sn_next s"
    and "sn_log (sender_ack s n) = filter (\<lambda>e. ack_target s n < le_seq e) (sn_log s)"
    and "length (sn_log (sender_ack s n))
         = min (length (sn_log s)) (unat (sn_next s) - unat (ack_target s n))"
proof -
  let ?m = "min n (sn_next s)"
  let ?t = "ack_target s n"
  have le: "sn_acked s \<le> sn_next s" using assms by (simp add: sender_inv_def)
  have t: "?t \<le> sn_next s" using le by (simp add: ack_target_def)
  have log: "map (unat \<circ> le_seq) (sn_log s)
      = [Suc (unat (sn_next s)) - length (sn_log s)..<Suc (unat (sn_next s))]"
    and len: "length (sn_log s) \<le> unat (sn_next s) - unat (sn_acked s)"
    using assms by (auto simp: sender_inv_def)
  let ?d = "dropWhile (\<lambda>e. le_seq e \<le> ?t) (sn_log s)"
  have run: "map (unat \<circ> le_seq) ?d
      = [max (Suc (unat (sn_next s)) - length (sn_log s)) (Suc (unat ?t))..<Suc (unat (sn_next s))]"
    by (rule run_dropWhile [OF log]) simp
  have dlen: "length ?d = min (length (sn_log s)) (unat (sn_next s) - unat ?t)"
  proof -
    have "length ?d = Suc (unat (sn_next s))
        - max (Suc (unat (sn_next s)) - length (sn_log s)) (Suc (unat ?t))"
      using arg_cong [OF run, of length] by (simp only: length_map length_upt)
    then show ?thesis using len by (simp only: max_def min_def) arith
  qed
  have tn: "unat ?t \<le> unat (sn_next s)" using t by (simp add: word_le_nat_alt)
  have run': "map (unat \<circ> le_seq) ?d = [Suc (unat (sn_next s)) - length ?d..<Suc (unat (sn_next s))]"
    unfolding run dlen using len tn by (intro arg_cong2 [of _ _ _ _ upt]) (auto simp: min_def max_def)
  have sorted: "filter (\<lambda>e. ?t < le_seq e) es = dropWhile (\<lambda>e. le_seq e \<le> ?t) es"
    if "map (unat \<circ> le_seq) es = [a..<b]" for es a b
    using that
  proof (induction es arbitrary: a)
    case (Cons e es)
    then have e: "unat (le_seq e) = a" "map (unat \<circ> le_seq) es = [Suc a..<b]"
      by (simp_all add: Cons_eq_upt comp_def)
    show ?case
    proof (cases "le_seq e \<le> ?t")
      case True
      then show ?thesis using Cons.IH [OF e(2)] by simp
    next
      case False
      have "?t < le_seq e'" if "e' \<in> set es" for e'
      proof -
        have "unat (le_seq e') \<in> set (map (unat \<circ> le_seq) es)" using that by auto
        then have "a < unat (le_seq e')" unfolding e(2) by simp
        then show ?thesis using False e(1) by (simp add: word_less_nat_alt word_le_nat_alt)
      qed
      then show ?thesis using False by (simp add: filter_id_conv)
    qed
  qed simp
  have ack: "sender_ack s n = s\<lparr>sn_acked := ?t, sn_log := ?d, sn_bytes := payload_bytes ?d\<rparr>"
  proof (cases "?m \<le> sn_acked s")
    case True
    then have ta: "?t = sn_acked s" unfolding ack_target_def by (rule max.absorb1)
    have "?d = sn_log s"
    proof -
      have "length (takeWhile (\<lambda>e. le_seq e \<le> ?t) (sn_log s)) + length ?d = length (sn_log s)"
        by (metis length_append takeWhile_dropWhile_id)
      then have "takeWhile (\<lambda>e. le_seq e \<le> ?t) (sn_log s) = []"
        using dlen len ta by simp
      then show ?thesis by (metis append_Nil takeWhile_dropWhile_id)
    qed
    then show ?thesis
      using True assms ta by (simp add: sender_ack_def min_word_if sender_inv_def)
  next
    case False
    then have "sn_acked s \<le> ?m" by (metis linear)
    then have "?t = ?m" unfolding ack_target_def by (rule max.absorb2)
    then show ?thesis
      using False assms
      by (simp add: sender_ack_def min_word_if ack_loop_eq sender_inv_def payload_bytes_drop)
  qed
  show "sn_acked (sender_ack s n) = ?t" "sn_next (sender_ack s n) = sn_next s"
    "sn_log (sender_ack s n) = filter (\<lambda>e. ?t < le_seq e) (sn_log s)"
    "length (sn_log (sender_ack s n)) = min (length (sn_log s)) (unat (sn_next s) - unat ?t)"
    using ack dlen sorted [OF log] by simp_all
  show "sender_inv (sender_ack s n)"
    using ack t run' dlen by (simp add: sender_inv_def)
qed

lemma sender_append_inv:
  assumes "sender_inv s" and "unat (sn_next s) < 2 ^ 64 - 1"
    and "sender_append s p = (s', seq)"
  shows "sender_inv s'" and "unat seq = Suc (unat (sn_next s))" and "sn_next s' = seq"
    and "sn_acked s' = sn_acked s"
    and "sn_log s' = sn_log s @ [\<lparr>le_seq = seq, le_payload = p\<rparr>]"
proof -
  have s': "s' = sender_append_entry s seq p" "seq = sn_next s + 1"
    using assms(3) by (auto simp: sender_append_def Let_def)
  have seq: "unat (sn_next s + 1) = Suc (unat (sn_next s))"
    using assms(2) by (simp add: unat_word_ariths)
  show "unat seq = Suc (unat (sn_next s))" using s' seq by simp
  show "sn_next s' = seq" "sn_acked s' = sn_acked s"
    "sn_log s' = sn_log s @ [\<lparr>le_seq = seq, le_payload = p\<rparr>]"
    using s' by (simp_all add: sender_append_entry_def)
  show "sender_inv s'"
    using assms(1) s' seq
    by (auto simp: sender_inv_def sender_append_entry_def word_le_nat_alt comp_def Suc_diff_le)
qed

lemma elide_scan_Some:
  "elide_scan es i seq = Some j \<Longrightarrow> i \<le> j \<and> j - i < length es \<and> le_seq (es ! (j - i)) = seq"
proof (induction es arbitrary: i)
  case (Cons e es)
  then show ?case
    by (cases "le_seq e = seq") (auto dest!: Cons.IH simp: nth_Cons' Suc_diff_le)
qed simp

lemma elide_scan_None: "elide_scan es i seq = None \<longleftrightarrow> seq \<notin> le_seq ` set es"
  by (induction es arbitrary: i) auto

lemma payload_bytes_update:
  "i < length es \<Longrightarrow> payload_bytes (es[i := e]) =
     payload_bytes es + (int (length (le_payload e)) - int (length (le_payload (es ! i))))"
  by (induction es arbitrary: i) (auto split: nat.splits)

lemma elide_from_shape:
  assumes "sender_elide_from s start seq rep = (s', res)"
  shows "(res = Inl SNotInLog \<and> s' = s \<and> seq \<notin> le_seq ` set (drop (nat start) (sn_log s))) \<or>
    (\<exists>i. res = Inr i \<and> i < length (sn_log s) \<and> nat start \<le> i \<and> le_seq (sn_log s ! i) = seq \<and>
      s' = s\<lparr>sn_log := (sn_log s)[i := \<lparr>le_seq = seq, le_payload = rep\<rparr>],
             sn_bytes := sn_bytes s + (int (length rep) - int (length (le_payload (sn_log s ! i))))\<rparr>)"
proof -
  have st: "nat (if start < 0 then 0 else start) = nat start" by simp
  show ?thesis
  proof (cases "elide_scan (drop (nat start) (sn_log s)) (nat start) seq")
    case None
    then have "seq \<notin> le_seq ` set (drop (nat start) (sn_log s))" by (rule elide_scan_None [THEN iffD1])
    then show ?thesis
      using assms None by (auto simp: sender_elide_from_def st Let_def)
  next
    case (Some j)
    from elide_scan_Some [OF Some] have j: "nat start \<le> j" "j < length (sn_log s)"
      "le_seq (sn_log s ! j) = seq"
      by auto
    have ent: "(sn_log s ! j)\<lparr>le_payload := rep\<rparr> = \<lparr>le_seq = seq, le_payload = rep\<rparr>"
      using j(3) by simp
    have "res = Inr j" "s' = s\<lparr>sn_log := (sn_log s)[j := \<lparr>le_seq = seq, le_payload = rep\<rparr>],
        sn_bytes := sn_bytes s + (int (length rep) - int (length (le_payload (sn_log s ! j))))\<rparr>"
      using assms Some unfolding sender_elide_from_def st Let_def ent [symmetric] by (cases s; auto)+
    then show ?thesis using j by blast
  qed
qed

lemma sender_elide_from_inv:
  assumes "sender_elide_from s start seq rep = (s', res)" and "sender_inv s"
  shows "sender_inv s'" and "sn_next s' = sn_next s" and "sn_acked s' = sn_acked s"
    and "map le_seq (sn_log s') = map le_seq (sn_log s)"
proof -
  from elide_from_shape [OF assms(1)] consider "s' = s"
    | i where "i < length (sn_log s)" "le_seq (sn_log s ! i) = seq"
      "s' = s\<lparr>sn_log := (sn_log s)[i := \<lparr>le_seq = seq, le_payload = rep\<rparr>],
             sn_bytes := sn_bytes s + (int (length rep) - int (length (le_payload (sn_log s ! i))))\<rparr>"
    by blast
  then have "sender_inv s' \<and> sn_next s' = sn_next s \<and> sn_acked s' = sn_acked s \<and>
      map le_seq (sn_log s') = map le_seq (sn_log s)"
  proof cases
    case 2
    have seqs: "map le_seq ((sn_log s)[i := \<lparr>le_seq = seq, le_payload = rep\<rparr>]) = map le_seq (sn_log s)"
      using 2(1,2) by (simp add: map_update list_update_same_conv)
    then have "map (unat \<circ> le_seq) ((sn_log s)[i := \<lparr>le_seq = seq, le_payload = rep\<rparr>])
        = map (unat \<circ> le_seq) (sn_log s)"
      by (metis map_map)
    then show ?thesis
      using 2 assms(2) seqs by (simp add: sender_inv_def payload_bytes_update)
  qed (use assms(2) in auto)
  then show "sender_inv s'" and "sn_next s' = sn_next s" and "sn_acked s' = sn_acked s"
    and "map le_seq (sn_log s') = map le_seq (sn_log s)"
    by blast+
qed

section \<open>Histories of a sender\<close>

datatype sender_op = OpAppend bytes | OpAck u64 | OpElide u64 bytes

fun sender_step :: "sender \<Rightarrow> sender_op \<Rightarrow> sender" where
  "sender_step s (OpAppend p) = fst (sender_append s p)"
| "sender_step s (OpAck n) = sender_ack s n"
| "sender_step s (OpElide seq rep) = fst (sender_elide s seq rep)"

definition sender_steps :: "sender \<Rightarrow> sender_op list \<Rightarrow> sender" where
  "sender_steps = foldl sender_step"

fun appended :: "sender_op list \<Rightarrow> nat" where
  "appended [] = 0"
| "appended (OpAppend p # ops) = Suc (appended ops)"
| "appended (_ # ops) = appended ops"

lemma sender_elide_from_eq: "fst (sender_elide s seq rep) = fst (sender_elide_from s 0 seq rep)"
  by (simp add: sender_elide_def split: prod.splits sum.splits)

lemma sender_full_ack:
  assumes "sender_full s"
  shows "sender_full (sender_ack s n)"
proof -
  note inv = sender_ack_inv [OF sender_full_inv [OF assms], of n]
  have "sn_acked s \<le> ack_target s n" by (simp add: ack_target_def)
  then have "unat (sn_acked s) \<le> unat (ack_target s n)" by (simp only: word_le_nat_alt)
  then have "min (length (sn_log s)) (unat (sn_next s) - unat (ack_target s n))
      = unat (sn_next s) - unat (ack_target s n)"
    using assms unfolding sender_full_def by (intro min.absorb2) simp
  then show ?thesis
    unfolding sender_full_def inv(2,3) using inv(1,5) by simp
qed

lemma sender_full_append:
  assumes "sender_full s" and "unat (sn_next s) < 2 ^ 64 - 1"
  shows "sender_full (fst (sender_append s p))"
proof -
  obtain s' seq where a: "sender_append s p = (s', seq)" by (cases "sender_append s p")
  note inv = sender_append_inv [OF sender_full_inv [OF assms(1)] assms(2) a]
  have "unat (sn_acked s) \<le> unat (sn_next s)"
    using assms(1) by (simp only: sender_full_def sender_inv_def word_le_nat_alt)
  then show ?thesis
    using assms(1) inv a by (simp add: sender_full_def Suc_diff_le)
qed

lemma sender_full_elide:
  assumes "sender_full s"
  shows "sender_full (fst (sender_elide s seq rep))"
proof -
  obtain s' res where e: "sender_elide_from s 0 seq rep = (s', res)"
    by (cases "sender_elide_from s 0 seq rep")
  note inv = sender_elide_from_inv [OF e sender_full_inv [OF assms]]
  have "length (sn_log s') = length (sn_log s)" using inv(4) by (metis length_map)
  then show ?thesis
    using assms inv e by (simp add: sender_full_def sender_elide_from_eq)
qed

lemma sender_step_full:
  assumes "sender_full s" and "unat (sn_next s) + appended [op] < 2 ^ 64"
  shows "sender_full (sender_step s op) \<and>
    unat (sn_next (sender_step s op)) = unat (sn_next s) + appended [op]"
proof (cases op)
  case (OpAppend p)
  have lt: "unat (sn_next s) < 2 ^ 64 - 1" using assms(2) OpAppend by simp
  obtain s' seq where a: "sender_append s p = (s', seq)" by (cases "sender_append s p")
  show ?thesis
    using sender_full_append [OF assms(1) lt, of p] OpAppend a
      sender_append_inv(2,3) [OF sender_full_inv [OF assms(1)] lt a] by simp
next
  case (OpAck n)
  then show ?thesis
    using sender_full_ack [OF assms(1), of n]
    by (simp add: sender_ack_inv(3) [OF sender_full_inv [OF assms(1)]])
next
  case (OpElide seq rep)
  obtain s' res where e: "sender_elide_from s 0 seq rep = (s', res)"
    by (cases "sender_elide_from s 0 seq rep")
  have "sn_next s' = sn_next s"
    by (rule sender_elide_from_inv(2) [OF e sender_full_inv [OF assms(1)]])
  then show ?thesis
    using sender_full_elide [OF assms(1), of seq rep] OpElide e by (simp add: sender_elide_from_eq)
qed

lemma sender_steps_full:
  "sender_full s \<Longrightarrow> unat (sn_next s) + appended ops < 2 ^ 64 \<Longrightarrow>
   sender_full (sender_steps s ops) \<and> unat (sn_next (sender_steps s ops)) = unat (sn_next s) + appended ops"
proof (induction ops arbitrary: s)
  case Nil
  then show ?case by (simp add: sender_steps_def)
next
  case (Cons op ops)
  have split: "appended (op # ops) = appended [op] + appended ops" by (cases op) auto
  have step: "sender_full (sender_step s op)"
    "unat (sn_next (sender_step s op)) = unat (sn_next s) + appended [op]"
    using sender_step_full [OF Cons.prems(1), of op] Cons.prems(2) split by simp_all
  have unfold: "sender_steps s (op # ops) = sender_steps (sender_step s op) ops"
    by (simp only: sender_steps_def foldl.simps)
  have IH: "sender_full (sender_steps (sender_step s op) ops) \<and>
     unat (sn_next (sender_steps (sender_step s op) ops)) = unat (sn_next (sender_step s op)) + appended ops"
    by (rule Cons.IH) (use step Cons.prems(2) split in simp_all)
  show ?case unfolding unfold split using IH step(2) by linarith
qed

section \<open>Properties\<close>

text \<open>The unacknowledged log is complete and nothing else. After any history of appends, acks
  (stale, repeated or beyond what was sent) and elisions on a fresh sender, the log holds exactly
  the sequence numbers above the watermark up to the last one assigned, each once and in order,
  and the byte counter is the weight of those payloads. No frame that was not acknowledged is
  ever dropped, which is what makes the log a sufficient repair path after a reconnect.\<close>

theorem sender_log_is_unacked_interval:
  assumes "unat a + appended ops < 2 ^ 64"
  shows "let s = sender_steps (new_sender a) ops in
     map (unat \<circ> le_seq) (sender_entries s) = [Suc (unat (sender_acked s))..<Suc (unat a + appended ops)] \<and>
     unat (sender_next s) = unat a + appended ops \<and>
     sender_bytes s = payload_bytes (sender_entries s)"
proof -
  let ?s = "sender_steps (new_sender a) ops"
  have full: "sender_full ?s" and nxt: "unat (sn_next ?s) = unat a + appended ops"
    using sender_steps_full [of "new_sender a" ops] assms by simp_all
  have le: "unat (sn_acked ?s) \<le> unat (sn_next ?s)"
    using full by (simp only: sender_full_def sender_inv_def word_le_nat_alt)
  show ?thesis
    using full le nxt
    by (auto simp: sender_full_def sender_inv_def sender_entries_def sender_acked_def
        sender_next_def sender_bytes_def Let_def Suc_diff_le simp del: upt_Suc)
qed

lemma sender_log_is_unacked_interval_witness:
  "let s = sender_steps (new_sender 0) [OpAppend [1], OpAppend [2, 2], OpAck 1, OpElide 2 [9], OpAck 0] in
     map (unat \<circ> le_seq) (sender_entries s) = [Suc (unat (sender_acked s))..<3] \<and> sender_bytes s = 1"
proof -
  let ?ops = "[OpAppend [1], OpAppend [2, 2], OpAck 1, OpElide 2 [9], OpAck 0]"
  have "sender_entries (sender_steps (new_sender 0) ?ops) = [\<lparr>le_seq = 2, le_payload = [9]\<rparr>]"
    by (simp add: sender_steps_def sender_append_def sender_append_entry_def new_sender_def
        sender_ack_def sender_elide_def sender_elide_from_def sender_entries_def word_le_nat_alt)
  then show ?thesis
    using sender_log_is_unacked_interval [of 0 ?ops] by (simp add: Let_def upt_rec)
qed

text \<open>The watermark of a sender only moves forward and never past what was sent; an ack drops
  exactly the entries it covers and keeps every later one with its payload.\<close>

theorem sender_ack_exact:
  assumes "s = sender_steps (new_sender a) ops" and "unat a + appended ops < 2 ^ 64"
  shows "sender_acked (sender_ack s n) = max (sender_acked s) (min n (sender_next s)) \<and>
     sender_entries (sender_ack s n)
       = filter (\<lambda>e. max (sender_acked s) (min n (sender_next s)) < le_seq e) (sender_entries s) \<and>
     sender_next (sender_ack s n) = sender_next s"
proof -
  have "sender_full s"
    using sender_steps_full [of "new_sender a" ops] assms by simp
  note inv = sender_ack_inv [OF sender_full_inv [OF this], of n]
  show ?thesis
    unfolding sender_acked_def sender_entries_def sender_next_def
    using inv(2,3,4) unfolding ack_target_def by blast
qed

lemma sender_ack_exact_witness:
  "\<exists>s. s = sender_steps (new_sender 4) [OpAppend [1], OpAppend [2]] \<and>
     sender_acked (sender_ack s 5) = 5 \<and> sender_next (sender_ack s 5) = 6"
proof -
  let ?s = "sender_steps (new_sender 4) [OpAppend [1], OpAppend [2]]"
  have "sender_acked ?s = 4" "sender_next ?s = 6"
    by (simp_all add: sender_steps_def sender_append_def sender_append_entry_def new_sender_def
      sender_acked_def sender_next_def)
  then show ?thesis
    using sender_ack_exact [of ?s 4 "[OpAppend [1], OpAppend [2]]" 5] by (simp add: max_def min_def)
qed

text \<open>Elision keeps the sequence: it replaces the payload of one logged frame, or fails and
  changes nothing; the numbers in the log, their order, the watermark and the next number to
  assign are untouched, so folding a newer snapshot in opens no hole.\<close>

theorem sender_elide_keeps_sequence:
  assumes "sender_elide s seq rep = (s', err)"
  shows "map le_seq (sender_entries s') = map le_seq (sender_entries s) \<and>
     sender_acked s' = sender_acked s \<and> sender_next s' = sender_next s \<and>
     (err = None \<longleftrightarrow> seq \<in> le_seq ` set (sender_entries s)) \<and>
     (err = None \<longrightarrow> distinct (map le_seq (sender_entries s)) \<longrightarrow>
        sender_entry s' seq = Some \<lparr>le_seq = seq, le_payload = rep\<rparr>)"
proof -
  obtain s1 res where e: "sender_elide_from s 0 seq rep = (s1, res)"
    by (cases "sender_elide_from s 0 seq rep")
  have s': "s' = s1" "err = None \<longleftrightarrow> (\<exists>i. res = Inr i)"
    using assms e by (auto simp: sender_elide_def split: sum.splits)
  from elide_from_shape [OF e] show ?thesis
  proof (elim disjE exE conjE)
    assume "res = Inl SNotInLog" "s1 = s" "seq \<notin> le_seq ` set (drop (nat 0) (sn_log s))"
    then show ?thesis using s' by (auto simp: sender_entries_def)
  next
    fix i
    let ?e = "\<lparr>le_seq = seq, le_payload = rep\<rparr>"
    assume i: "res = Inr i" "i < length (sn_log s)" "le_seq (sn_log s ! i) = seq"
      "s1 = s\<lparr>sn_log := (sn_log s)[i := ?e],
             sn_bytes := sn_bytes s + (int (length rep) - int (length (le_payload (sn_log s ! i))))\<rparr>"
    have seqs: "map le_seq ((sn_log s)[i := ?e]) = map le_seq (sn_log s)"
      using i(2,3) by (simp add: map_update list_update_same_conv)
    have mem: "seq \<in> le_seq ` set (sn_log s)" using i(2,3) by (metis imageI nth_mem)
    have found: "List.find (\<lambda>e. le_seq e = seq) ((sn_log s)[i := ?e]) = Some ?e"
      if d: "distinct (map le_seq (sn_log s))"
    proof -
      have "distinct (map le_seq ((sn_log s)[i := ?e]))" using d seqs by simp
      moreover have "?e \<in> set ((sn_log s)[i := ?e])" using i(2) by (simp add: set_update_memI)
      ultimately show ?thesis
        by (auto simp: find_Some_iff in_set_conv_nth distinct_conv_nth) (metis log_entry.select_convs(1) nat_neq_iff less_trans)
    qed
    show ?thesis
      using s' i(1,4) seqs mem found
      by (simp add: sender_entries_def sender_acked_def sender_next_def sender_entry_def)
  qed
qed

lemma sender_elide_keeps_sequence_witness:
  "\<exists>s s'. sender_elide s 2 [9] = (s', None) \<and> map le_seq (sender_entries s') = [1, 2] \<and>
     sender_entry s' 2 = Some \<lparr>le_seq = 2, le_payload = [9]\<rparr>"
proof -
  let ?s = "sender_steps (new_sender 0) [OpAppend [1], OpAppend [2]]"
  have e: "map le_seq (sender_entries ?s) = [1, 2]"
    by (simp add: sender_steps_def sender_append_def sender_append_entry_def new_sender_def
        sender_entries_def)
  obtain s' err where s': "sender_elide ?s 2 [9] = (s', err)" by (cases "sender_elide ?s 2 [9]")
  have "le_seq ` set (sender_entries ?s) = {1, 2}" using arg_cong [OF e, of set] by simp
  then show ?thesis
    using sender_elide_keeps_sequence [OF s'] s' e by (intro exI [of _ ?s] exI [of _ s']) simp
qed

text \<open>\<open>AppendAt\<close> admits only the next number. Once a baseline is known it accepts exactly
  \<open>next + 1\<close>, refuses 0 and every gap or repeat without touching the log, and on a sender whose
  \<open>next\<close> is 0 it takes the baseline from the frame itself.\<close>

theorem sender_append_at_gapless:
  "sender_append_at s seq p =
     (if seq = 0 then (s, Some SSeqZero)
      else if sender_next s = 0 then (sender_append_entry (s\<lparr>sn_next := seq - 1\<rparr>) seq p, None)
      else if seq = sender_next s + 1 then (sender_append_entry s seq p, None)
      else (s, Some SSeqMismatch))"
  by (simp add: sender_append_at_def sender_next_def)

end
