(* ===== verification/Channel.thy ===== *)
theory Channel
  imports Sender Receiver
begin

text \<open>
  One reliable direction end to end: a sender with its unacknowledged log, a receiver, and a
  network that loses, repeats and reorders frames and acknowledgements at will and may drop the
  connection at any moment (\<open>wire/sender.go\<close>, \<open>wire/receiver.go\<close>, and the resume rule that
  \<open>internal/hub/session.go\<close> follows: the peer's watermark goes through \<open>Ack\<close>, the rest of
  the log is replayed). The two halves meet in two interfaces, \<open>sequenced_log\<close> and
  \<open>in_order_receiver\<close>; the end-to-end facts are proved from the interfaces alone and then
  interpreted on the definitions of the code.
\<close>

section \<open>The interfaces\<close>

locale sequenced_log =
  fixes push :: "'s \<Rightarrow> bytes \<Rightarrow> 's \<times> u64"
    and ack :: "'s \<Rightarrow> u64 \<Rightarrow> 's"
    and log_of :: "'s \<Rightarrow> (u64 \<times> bytes) list"
    and next_of :: "'s \<Rightarrow> u64"
    and acked_of :: "'s \<Rightarrow> u64"
    and log_ok :: "'s \<Rightarrow> bool"
  assumes push_law: "log_ok s \<Longrightarrow> unat (next_of s) < 2 ^ 64 - 1 \<Longrightarrow> push s p = (s', q) \<Longrightarrow>
      log_ok s' \<and> unat q = Suc (unat (next_of s)) \<and> next_of s' = q \<and> acked_of s' = acked_of s \<and>
      log_of s' = log_of s @ [(q, p)]"
    and ack_law: "log_ok s \<Longrightarrow> log_ok (ack s n) \<and> next_of (ack s n) = next_of s \<and>
      acked_of (ack s n) = max (acked_of s) (min n (next_of s)) \<and>
      log_of (ack s n) = filter (\<lambda>e. acked_of (ack s n) < fst e) (log_of s)"
    and log_law: "log_ok s \<Longrightarrow> acked_of s \<le> next_of s \<and>
      map (unat \<circ> fst) (log_of s) = [Suc (unat (acked_of s))..<Suc (unat (next_of s))]"

locale in_order_receiver =
  fixes accept :: "'r \<Rightarrow> u64 \<Rightarrow> bytes \<Rightarrow> 'r \<times> bytes list \<times> u64 \<times> 'e option"
    and wm :: "'r \<Rightarrow> u64"
    and parked :: "'r \<Rightarrow> (u64 \<times> bytes) set"
    and recv_ok :: "'r \<Rightarrow> bool"
  assumes accept_law: "recv_ok r \<Longrightarrow> accept r s p = (r', ready, a, None) \<Longrightarrow>
      (\<forall>(k, q) \<in> insert (s, p) (parked r). q = f k) \<Longrightarrow>
      recv_ok r' \<and> parked r' \<subseteq> insert (s, p) (parked r) \<and> unat (wm r) \<le> unat (wm r') \<and>
      ready = payload_run f (wm r) (wm r') \<and> a = wm r' \<and> wm r' \<in> {wm r, s} \<union> fst ` parked r"
    and refuse_law: "accept r s p = (r', ready, a, Some e) \<Longrightarrow> r' = r \<and> ready = []"
    and next_law: "recv_ok r \<Longrightarrow> accept r s p = (r', ready, a, err) \<Longrightarrow> s \<noteq> 0 \<Longrightarrow>
      unat s \<le> Suc (unat (wm r)) \<Longrightarrow> err = None \<and> unat s \<le> unat (wm r')"

section \<open>The network\<close>

record ('s, 'r) chan =
  ch_snd :: 's
  ch_rcv :: 'r
  ch_sent :: "bytes list"
  ch_delivered :: "bytes list"
  ch_data :: "(u64 \<times> bytes) set"
  ch_acks :: "u64 set"

text \<open>
  A step of a direction, over any sender and receiver: a fresh frame, a retransmission from the
  log, a loss, an arrival (the frame stays in flight, so it may arrive again), an arrival the
  receiver refuses, an acknowledgement in any order, and a reconnect that feeds the receiver's
  watermark to the sender and empties the network.
\<close>

inductive chan_step for push ack log_of next_of accept wm where
  send: "push (ch_snd c) p = (s', q) \<Longrightarrow> unat (next_of (ch_snd c) :: u64) < 2 ^ 64 - 1 \<Longrightarrow>
    chan_step push ack log_of next_of accept wm c
      (c\<lparr>ch_snd := s', ch_sent := ch_sent c @ [p], ch_data := insert (q, p) (ch_data c)\<rparr>)"
| retransmit: "e \<in> set (log_of (ch_snd c)) \<Longrightarrow>
    chan_step push ack log_of next_of accept wm c (c\<lparr>ch_data := insert e (ch_data c)\<rparr>)"
| lose: "chan_step push ack log_of next_of accept wm c
      (c\<lparr>ch_data := ch_data c - D, ch_acks := ch_acks c - A\<rparr>)"
| arrive: "(q, p) \<in> ch_data c \<Longrightarrow> accept (ch_rcv c) q p = (r', ready, a, None) \<Longrightarrow>
    chan_step push ack log_of next_of accept wm c
      (c\<lparr>ch_rcv := r', ch_delivered := ch_delivered c @ ready, ch_acks := insert a (ch_acks c)\<rparr>)"
| refuse: "(q, p) \<in> ch_data c \<Longrightarrow> accept (ch_rcv c) q p = (r', ready, a, Some e) \<Longrightarrow>
    chan_step push ack log_of next_of accept wm c
      (c\<lparr>ch_rcv := r', ch_delivered := ch_delivered c @ ready\<rparr>)"
| acknowledge: "n \<in> ch_acks c \<Longrightarrow>
    chan_step push ack log_of next_of accept wm c (c\<lparr>ch_snd := ack (ch_snd c) n\<rparr>)"
| reconnect: "chan_step push ack log_of next_of accept wm c
      (c\<lparr>ch_snd := ack (ch_snd c) (wm (ch_rcv c)), ch_data := {}, ch_acks := {}\<rparr>)"

text \<open>The payload the history assigned to a number.\<close>

definition sent_at :: "bytes list \<Rightarrow> u64 \<Rightarrow> bytes" where
  "sent_at sent q = sent ! (unat q - 1)"

lemma sent_at_append [simp]: "q \<noteq> 0 \<Longrightarrow> unat q \<le> length xs \<Longrightarrow> sent_at (xs @ ys) q = sent_at xs q"
  by (auto simp: sent_at_def nth_append unat_eq_0 dest: order_trans) (metis diff_Suc_less le_eq_less_or_eq
      less_le_trans less_nat_zero_code One_nat_def gr0I unat_eq_zero)

lemma payload_run_sent: "unat w \<le> length xs \<Longrightarrow> payload_run (sent_at xs) 0 w = take (unat w) xs"
proof (rule nth_equalityI)
  assume le: "unat w \<le> length xs"
  show "length (payload_run (sent_at xs) 0 w) = length (take (unat w) xs)"
    using le by (simp add: payload_run_def del: upt_Suc)
  fix i assume "i < length (payload_run (sent_at xs) 0 w)"
  then have i: "i < unat w" by (simp add: payload_run_def del: upt_Suc)
  then have "Suc i < 2 ^ 64" using unat_less_u64 [of w] by simp
  then have "unat (of_nat (Suc i) :: u64) = Suc i" by (rule unat_of_nat_u64)
  then show "payload_run (sent_at xs) 0 w ! i = take (unat w) xs ! i"
    using i by (simp add: payload_run_def sent_at_def del: upt_Suc of_nat_Suc)
qed

text \<open>A replay of the log into a receiver, up to the first error.\<close>

fun replay :: "('r \<Rightarrow> u64 \<Rightarrow> bytes \<Rightarrow> 'r \<times> bytes list \<times> u64 \<times> 'e option) \<Rightarrow>
    'r \<Rightarrow> (u64 \<times> bytes) list \<Rightarrow> 'r \<times> bytes list \<times> 'e option" where
  "replay accept r [] = (r, [], None)"
| "replay accept r ((q, p) # es) =
     (case accept r q p of
        (r', ready, _, Some e) \<Rightarrow> (r', ready, Some e)
      | (r', ready, _, None) \<Rightarrow>
          (case replay accept r' es of (r'', ready', e) \<Rightarrow> (r'', ready @ ready', e)))"

section \<open>Clients of the interfaces\<close>

locale reliable_channel =
  sequenced_log push ack log_of next_of acked_of log_ok +
  in_order_receiver accept wm parked recv_ok
  for push :: "'s \<Rightarrow> bytes \<Rightarrow> 's \<times> u64"
    and ack :: "'s \<Rightarrow> u64 \<Rightarrow> 's"
    and log_of :: "'s \<Rightarrow> (u64 \<times> bytes) list"
    and next_of :: "'s \<Rightarrow> u64"
    and acked_of :: "'s \<Rightarrow> u64"
    and log_ok :: "'s \<Rightarrow> bool"
    and accept :: "'r \<Rightarrow> u64 \<Rightarrow> bytes \<Rightarrow> 'r \<times> bytes list \<times> u64 \<times> 'e option"
    and wm :: "'r \<Rightarrow> u64"
    and parked :: "'r \<Rightarrow> (u64 \<times> bytes) set"
    and recv_ok :: "'r \<Rightarrow> bool"

text \<open>A packet that carries the payload the history assigned to its number.\<close>

definition genuine :: "bytes list \<Rightarrow> u64 \<times> bytes \<Rightarrow> bool" where
  "genuine sent e \<longleftrightarrow> fst e \<noteq> 0 \<and> unat (fst e) \<le> length sent \<and> snd e = sent_at sent (fst e)"

lemma genuine_append: "genuine sent e \<Longrightarrow> genuine (sent @ ys) e"
  by (cases e) (auto simp: genuine_def)

definition chan_inv where
  "chan_inv log_of next_of acked_of log_ok wm parked recv_ok c \<longleftrightarrow>
     log_ok (ch_snd c) \<and> recv_ok (ch_rcv c) \<and>
     length (ch_sent c) = unat (next_of (ch_snd c) :: u64) \<and>
     unat (acked_of (ch_snd c) :: u64) \<le> unat (wm (ch_rcv c) :: u64) \<and>
     unat (wm (ch_rcv c)) \<le> length (ch_sent c) \<and>
     (\<forall>a \<in> ch_acks c. unat a \<le> unat (wm (ch_rcv c))) \<and>
     (\<forall>e \<in> set (log_of (ch_snd c)) \<union> ch_data c \<union> parked (ch_rcv c). genuine (ch_sent c) e) \<and>
     ch_delivered c = payload_run (sent_at (ch_sent c)) 0 (wm (ch_rcv c))"

context reliable_channel
begin

abbreviation inv where "inv \<equiv> chan_inv log_of next_of acked_of log_ok wm parked recv_ok"

lemma accept_step:
  assumes "inv c" and "genuine (ch_sent c) (q, p)" and "accept (ch_rcv c) q p = (r', ready, a, None)"
  shows "recv_ok r' \<and> parked r' \<subseteq> insert (q, p) (parked (ch_rcv c)) \<and>
    unat (wm (ch_rcv c)) \<le> unat (wm r') \<and> a = wm r' \<and> unat (wm r') \<le> length (ch_sent c) \<and>
    ch_delivered c @ ready = payload_run (sent_at (ch_sent c)) 0 (wm r')"
proof -
  have ok: "recv_ok (ch_rcv c)" using assms(1) by (simp add: chan_inv_def)
  have gen: "\<forall>(k, x) \<in> insert (q, p) (parked (ch_rcv c)). genuine (ch_sent c) (k, x)"
    using assms(1,2) by (auto simp: chan_inv_def)
  then have "\<forall>(k, x) \<in> insert (q, p) (parked (ch_rcv c)). x = sent_at (ch_sent c) k"
    by (auto simp: genuine_def)
  note law = accept_law [OF ok assms(3) this]
  have "unat (wm r') \<le> length (ch_sent c)"
    using law gen assms(1) by (auto simp: genuine_def chan_inv_def)
  then show ?thesis
    using law assms(1) payload_run_append [of 0 "wm (ch_rcv c)" "wm r'"] by (auto simp: chan_inv_def)
qed

lemma ack_keeps:
  assumes "inv c" and "unat n \<le> unat (wm (ch_rcv c))"
  shows "log_ok (ack (ch_snd c) n) \<and> next_of (ack (ch_snd c) n) = next_of (ch_snd c) \<and>
    unat (acked_of (ack (ch_snd c) n)) \<le> unat (wm (ch_rcv c)) \<and>
    set (log_of (ack (ch_snd c) n)) \<subseteq> set (log_of (ch_snd c))"
proof -
  have "log_ok (ch_snd c)" using assms(1) by (simp add: chan_inv_def)
  note law = ack_law [OF this, of n]
  have "acked_of (ch_snd c) \<le> wm (ch_rcv c)" "n \<le> wm (ch_rcv c)"
    using assms by (simp_all add: chan_inv_def word_le_nat_alt)
  then have "max (acked_of (ch_snd c)) (min n (next_of (ch_snd c))) \<le> wm (ch_rcv c)"
    by (meson max.boundedI min.coboundedI1)
  then have "unat (acked_of (ack (ch_snd c) n)) \<le> unat (wm (ch_rcv c))"
    using law by (simp only: word_le_nat_alt)
  then show ?thesis using law by auto
qed

lemma inv_step:
  assumes "chan_step push ack log_of next_of accept wm c c'" and "inv c"
  shows "inv c'"
  using assms(1)
proof cases
  case (send p s' q)
  have "log_ok (ch_snd c)" using assms(2) by (simp add: chan_inv_def)
  note law = push_law [OF this send(3,2)]
  have wmle: "unat (wm (ch_rcv c)) \<le> length (ch_sent c)" using assms(2) by (simp add: chan_inv_def)
  have new: "genuine (ch_sent c @ [p]) (q, p)"
    using law assms(2) by (auto simp: genuine_def chan_inv_def sent_at_def nth_append)
  have run: "payload_run (sent_at (ch_sent c @ [p])) 0 (wm (ch_rcv c))
      = payload_run (sent_at (ch_sent c)) 0 (wm (ch_rcv c))"
    using wmle by (simp add: payload_run_sent)
  show ?thesis
    using assms(2) law new run unfolding chan_inv_def send(1)
    by (auto intro: genuine_append)
next
  case (arrive q p r' ready a)
  have "genuine (ch_sent c) (q, p)" using assms(2) arrive(2) by (auto simp: chan_inv_def)
  note step = accept_step [OF assms(2) this arrive(3)]
  show ?thesis
    using assms(2) step \<open>genuine (ch_sent c) (q, p)\<close> unfolding chan_inv_def arrive(1)
    by (auto intro: order_trans)
next
  case (refuse q p r' ready a e)
  then show ?thesis using assms(2) refuse_law [OF refuse(3)] by (simp add: chan_inv_def)
next
  case (acknowledge n)
  then have "unat n \<le> unat (wm (ch_rcv c))" using assms(2) by (simp add: chan_inv_def)
  from ack_keeps [OF assms(2) this] show ?thesis
    using assms(2) unfolding chan_inv_def acknowledge(1) by auto
next
  case reconnect
  from ack_keeps [OF assms(2) order_refl] show ?thesis
    using assms(2) unfolding chan_inv_def reconnect by auto
qed (use assms(2) in \<open>auto simp: chan_inv_def\<close>)

lemma inv_reachable:
  "(chan_step push ack log_of next_of accept wm)\<^sup>*\<^sup>* c c' \<Longrightarrow> inv c \<Longrightarrow> inv c'"
  by (induction rule: rtranclp_induct) (auto intro: inv_step)

text \<open>What the invariant promises: delivery is a prefix, and the log still holds the rest.\<close>

lemma inv_prefix: "inv c \<Longrightarrow> ch_delivered c = take (unat (wm (ch_rcv c))) (ch_sent c)"
  by (simp add: chan_inv_def payload_run_sent)

lemma inv_log_holds:
  assumes "inv c" and "unat (wm (ch_rcv c)) < unat q" and "unat q \<le> length (ch_sent c)"
  shows "(q, sent_at (ch_sent c) q) \<in> set (log_of (ch_snd c))"
proof -
  have ok: "log_ok (ch_snd c)" using assms(1) by (simp add: chan_inv_def)
  have "unat q \<in> set [Suc (unat (acked_of (ch_snd c)))..<Suc (unat (next_of (ch_snd c)))]"
    using assms by (auto simp: chan_inv_def)
  then have "unat q \<in> set (map (unat \<circ> fst) (log_of (ch_snd c)))" using log_law [OF ok] by simp
  then obtain e where "e \<in> set (log_of (ch_snd c))" "fst e = q"
    by (auto dest: unat_eq_D)
  moreover have "genuine (ch_sent c) e" using calculation assms(1) by (auto simp: chan_inv_def)
  ultimately show ?thesis by (metis genuine_def prod.collapse)
qed

text \<open>Replaying a gapless run that starts at or below the watermark delivers all of it.\<close>

lemma replay_complete:
  assumes "inv c" and "map (unat \<circ> fst) es = [m..<Suc (length (ch_sent c))]"
    and "m \<le> Suc (unat (wm (ch_rcv c)))" and "\<forall>e \<in> set es. genuine (ch_sent c) e"
  shows "\<exists>r out. replay accept (ch_rcv c) es = (r, out, None) \<and> ch_delivered c @ out = ch_sent c"
  using assms
proof (induction es arbitrary: c m)
  case Nil
  then have "Suc (length (ch_sent c)) \<le> m"
    by (cases "m < Suc (length (ch_sent c))") (auto simp: upt_rec)
  then have "length (ch_sent c) \<le> unat (wm (ch_rcv c))" using Nil.prems(3) by simp
  then show ?case using inv_prefix [OF Nil.prems(1)] by simp
next
  case (Cons e es)
  obtain q p where e: "e = (q, p)" by (cases e)
  have m: "unat q = m" "m < Suc (length (ch_sent c))"
    "map (unat \<circ> fst) es = [Suc m..<Suc (length (ch_sent c))]"
    using Cons.prems(2) e by (auto simp: Cons_eq_upt comp_def simp del: upt_Suc)
  have gen: "genuine (ch_sent c) (q, p)" using Cons.prems(4) e by simp
  obtain r' ready a err where acc: "accept (ch_rcv c) q p = (r', ready, a, err)"
    by (cases "accept (ch_rcv c) q p")
  have ok: "recv_ok (ch_rcv c)" using Cons.prems(1) by (simp add: chan_inv_def)
  have nl: "err = None \<and> unat q \<le> unat (wm r')"
    by (rule next_law [OF ok acc]) (use gen m(1) Cons.prems(3) in \<open>auto simp: genuine_def\<close>)
  let ?c = "c\<lparr>ch_rcv := r', ch_delivered := ch_delivered c @ ready\<rparr>"
  note step = accept_step [OF Cons.prems(1) gen, of r' ready a]
  have inv': "inv ?c"
    using Cons.prems(1) step acc nl gen by (auto simp: chan_inv_def intro: order_trans)
  have "\<exists>r out. replay accept (ch_rcv ?c) es = (r, out, None) \<and> ch_delivered ?c @ out = ch_sent ?c"
    by (rule Cons.IH [OF inv', of "Suc m"]) (use m nl Cons.prems(4) in \<open>auto simp: comp_def simp del: upt_Suc\<close>)
  then show ?case using acc nl e by auto
qed

lemma resume_complete:
  assumes "inv c"
  shows "\<exists>r out. replay accept (ch_rcv c) (log_of (ack (ch_snd c) (wm (ch_rcv c)))) = (r, out, None) \<and>
    ch_delivered c @ out = ch_sent c"
proof -
  let ?s = "ack (ch_snd c) (wm (ch_rcv c))"
  note keeps = ack_keeps [OF assms order_refl]
  have len: "unat (next_of ?s) = length (ch_sent c)" using keeps assms by (simp add: chan_inv_def)
  show ?thesis
    by (rule replay_complete [OF assms, of _ "Suc (unat (acked_of ?s))"])
      (use keeps len log_law assms in \<open>auto simp: chan_inv_def simp del: upt_Suc\<close>)
qed

end

section \<open>The interfaces on the code's definitions\<close>

definition sender_pairs :: "sender \<Rightarrow> (u64 \<times> bytes) list" where
  "sender_pairs s = map (\<lambda>e. (le_seq e, le_payload e)) (sender_entries s)"

definition receiver_parked :: "receiver \<Rightarrow> (u64 \<times> bytes) set" where
  "receiver_parked r = {(k, p). gm_get (rc_buf r) k = Some p}"

interpretation wire_log:
  sequenced_log sender_append sender_ack sender_pairs sender_next sender_acked sender_full
proof
  fix s s' p q
  assume s: "sender_full s" "unat (sender_next s) < 2 ^ 64 - 1" "sender_append s p = (s', q)"
  have lt: "unat (sn_next s) < 2 ^ 64 - 1" using s(2) by (simp add: sender_next_def)
  show "sender_full s' \<and> unat q = Suc (unat (sender_next s)) \<and> sender_next s' = q \<and>
    sender_acked s' = sender_acked s \<and> sender_pairs s' = sender_pairs s @ [(q, p)]"
    using sender_append_inv [OF sender_full_inv [OF s(1)] lt s(3)] sender_full_append [OF s(1) lt, of p] s(3)
    by (simp add: sender_next_def sender_acked_def sender_pairs_def sender_entries_def)
next
  fix s n
  assume s: "sender_full s"
  note inv = sender_ack_inv [OF sender_full_inv [OF s], of n]
  show "sender_full (sender_ack s n) \<and> sender_next (sender_ack s n) = sender_next s \<and>
    sender_acked (sender_ack s n) = max (sender_acked s) (min n (sender_next s)) \<and>
    sender_pairs (sender_ack s n) = filter (\<lambda>e. sender_acked (sender_ack s n) < fst e) (sender_pairs s)"
    using sender_full_ack [OF s, of n] inv(2,3,4)
    by (simp add: sender_next_def sender_acked_def sender_pairs_def sender_entries_def
        filter_map comp_def ack_target_def)
next
  fix s
  assume "sender_full s"
  then show "sender_acked s \<le> sender_next s \<and>
    map (unat \<circ> fst) (sender_pairs s) = [Suc (unat (sender_acked s))..<Suc (unat (sender_next s))]"
    by (auto simp: sender_full_def sender_inv_def sender_next_def sender_acked_def sender_pairs_def
        sender_entries_def comp_def word_le_nat_alt Suc_diff_le simp del: upt_Suc)
qed

lemma recv_accept_parked:
  assumes "recv_accept r s p = (r', ready, a, None)" and "recv_inv r"
  shows "receiver_parked r' \<subseteq> insert (s, p) (receiver_parked r)"
  using assms(1)
proof (cases rule: recv_accept_cases)
  case (apply_frame acked buf)
  have ok: "gm_ok (rc_buf r)" "gm_get (rc_buf r) 0 = None"
    using assms(2) recv_inv_zero by (auto simp: recv_inv_def)
  show ?thesis
    using recv_drain_spec(4) [OF apply_frame(4) ok] apply_frame(5)
    by (auto simp: receiver_parked_def split: if_splits)
qed (auto simp: receiver_parked_def gm_get_set split: if_splits)

interpretation wire_receiver: in_order_receiver recv_accept recv_acked receiver_parked recv_inv
proof
  fix r s p r' ready a f
  assume r: "recv_inv r" "recv_accept r s p = (r', ready, a, None :: recv_error option)"
    "\<forall>(k, q) \<in> insert (s, p) (receiver_parked r). q = f k"
  then have holds: "recv_holds f r" "p = f s" by (auto simp: recv_holds_def receiver_parked_def)
  note step = recv_accept_step [OF r(2) [unfolded holds(2)] r(1) holds(1)]
  have "rc_acked r' \<in> recv_seen r'" by (simp add: recv_seen_def)
  then have "rc_acked r' \<in> {rc_acked r, s} \<union> fst ` receiver_parked r"
    unfolding step(4) using step(2)
    by (auto simp: recv_seen_def receiver_parked_def image_iff word_unat_eq_iff)
      (metis gm_keys_iff fst_conv imageI not_None_eq)
  then show "recv_inv r' \<and> receiver_parked r' \<subseteq> insert (s, p) (receiver_parked r) \<and>
    unat (recv_acked r) \<le> unat (recv_acked r') \<and> ready = payload_run f (recv_acked r) (recv_acked r') \<and>
    a = recv_acked r' \<and> recv_acked r' \<in> {recv_acked r, s} \<union> fst ` receiver_parked r"
    using recv_accept_parked [OF r(2,1)] recv_accept_inv [OF r(2,1)] recv_accept_ack [OF r(2)] step(2,3)
    by (simp add: recv_acked_def payload_run_def)
next
  fix r s p r' ready a e
  assume "recv_accept r s p = (r', ready, a, Some (e :: recv_error))"
  then show "r' = r \<and> ready = []" by (cases rule: recv_accept_cases) auto
next
  fix r s p r' ready a err
  assume r: "recv_inv r" "recv_accept r s p = (r', ready, a, err)" "s \<noteq> 0"
    "unat s \<le> Suc (unat (recv_acked r))"
  show "err = None \<and> unat s \<le> unat (recv_acked r')"
    using r(2)
  proof (cases rule: recv_accept_cases)
    case dup
    then show ?thesis using r(1,4) recv_invD [OF r(1)]
      by (auto simp: recv_acked_def word_le_nat_alt) (metis Suc_eq_plus1 not_le)
  next
    case (apply_frame acked buf)
    have ok: "gm_ok (rc_buf r)" "gm_get (rc_buf r) 0 = None"
      using r(1) recv_inv_zero by (auto simp: recv_inv_def)
    show ?thesis using recv_drain_spec(1) [OF apply_frame(4) ok] apply_frame(5,6)
      by (simp add: recv_acked_def)
  next
    case overflow
    then have "Suc (unat (rc_acked r)) < unat s" using u64_gt_succ by fastforce
    then show ?thesis using r(4) by (simp add: recv_acked_def)
  next
    case park
    then have "Suc (unat (rc_acked r)) < unat s" using u64_gt_succ by fastforce
    then show ?thesis using r(4) by (simp add: recv_acked_def)
  qed (use r(3) in auto)
qed

interpretation wire_channel: reliable_channel sender_append sender_ack sender_pairs sender_next
    sender_acked sender_full recv_accept recv_acked receiver_parked recv_inv ..

definition wire_channel_start :: "int \<Rightarrow> (sender, receiver) chan" where
  "wire_channel_start win = \<lparr>ch_snd = new_sender 0, ch_rcv = new_receiver_window 0 win,
     ch_sent = [], ch_delivered = [], ch_data = {}, ch_acks = {}\<rparr>"

abbreviation wire_step :: "(sender, receiver) chan \<Rightarrow> (sender, receiver) chan \<Rightarrow> bool" where
  "wire_step \<equiv> chan_step sender_append sender_ack sender_pairs sender_next recv_accept recv_acked"

lemma wire_start_inv: "wire_channel.inv (wire_channel_start win)"
  by (simp add: chan_inv_def wire_channel_start_def sender_pairs_def sender_entries_def
      sender_next_def sender_acked_def recv_acked_def receiver_parked_def new_receiver_window_def
      recv_inv_def resume_window_def new_sender_def sender_full_def sender_inv_def)

lemmas wire_reach = wire_channel.inv_reachable [OF _ wire_start_inv]

section \<open>Properties\<close>

text \<open>A concrete history for the witnesses: two frames are sent, the second arrives first.\<close>

definition wire_sample :: "(sender, receiver) chan" where
  "wire_sample = \<lparr>ch_snd = sender_steps (new_sender 0) [OpAppend [7], OpAppend [8]],
     ch_rcv = \<lparr>rc_acked = 0, rc_window = 4, rc_buf = [(2, [8])]\<rparr>,
     ch_sent = [[7], [8]], ch_delivered = [], ch_data = {(2, [8]), (1, [7])}, ch_acks = {0}\<rparr>"

lemma wire_sample_reachable: "wire_step\<^sup>*\<^sup>* (wire_channel_start 4) wire_sample"
proof -
  let ?s1 = "sender_steps (new_sender 0) [OpAppend [7]]"
  let ?s2 = "sender_steps (new_sender 0) [OpAppend [7], OpAppend [8]]"
  let ?c0 = "wire_channel_start 4"
  let ?c1 = "?c0\<lparr>ch_snd := ?s1, ch_sent := [[7]], ch_data := {(1, [7])}\<rparr>"
  let ?c2 = "?c1\<lparr>ch_snd := ?s2, ch_sent := [[7], [8]], ch_data := {(2, [8]), (1, [7])}\<rparr>"
  have a1: "sender_append (new_sender 0) [7] = (?s1, 1)" and a2: "sender_append ?s1 [8] = (?s2, 2)"
    and n: "unat (sender_next (new_sender 0)) = 0" "unat (sender_next ?s1) = 1"
    by (simp_all add: sender_steps_def sender_append_def sender_append_entry_def new_sender_def
        sender_next_def)
  have s1: "wire_step ?c0 ?c1"
    using chan_step.send [of sender_append ?c0 "[7]" ?s1 1 sender_next] a1 n
    by (simp add: wire_channel_start_def)
  have s2: "wire_step ?c1 ?c2"
    using chan_step.send [of sender_append ?c1 "[8]" ?s2 2 sender_next] a2 n
    by (simp add: wire_channel_start_def)
  have s3: "wire_step ?c2 wire_sample"
    using chan_step.arrive [of 2 "[8]" ?c2 recv_accept "\<lparr>rc_acked = 0, rc_window = 4, rc_buf = [(2, [8])]\<rparr>" "[]" 0]
    by (simp add: wire_channel_start_def wire_sample_def recv_accept_def new_receiver_window_def)
  show ?thesis
    by (rule converse_rtranclp_into_rtranclp [OF s1 converse_rtranclp_into_rtranclp [OF s2
        r_into_rtranclp [of wire_step, OF s3]]])
qed

text \<open>C1: End-to-end safety of a direction. Over a network that loses, repeats and reorders data
  and acknowledgements and drops the connection any number of times, the payloads handed on are
  always a prefix of the payloads sent, in order and without repeats, and every payload not yet
  handed on is still in the sender's log under its own number.\<close>

theorem channel_prefix_and_repair:
  assumes "wire_step\<^sup>*\<^sup>* (wire_channel_start win) c"
  shows "ch_delivered c = take (unat (recv_acked (ch_rcv c))) (ch_sent c) \<and>
    (\<forall>q. recv_acked (ch_rcv c) < q \<and> q \<le> sender_next (ch_snd c) \<longrightarrow>
       (q, ch_sent c ! (unat q - 1)) \<in> set (sender_pairs (ch_snd c)))"
proof -
  note inv = wire_reach [OF assms]
  have "length (ch_sent c) = unat (sender_next (ch_snd c))" using inv by (simp add: chan_inv_def)
  then show ?thesis
    using wire_channel.inv_prefix [OF inv] wire_channel.inv_log_holds [OF inv]
    by (auto simp: sent_at_def word_less_nat_alt word_le_nat_alt)
qed

lemma channel_prefix_and_repair_witness:
  "wire_step\<^sup>*\<^sup>* (wire_channel_start 4) wire_sample \<and> ch_delivered wire_sample = [] \<and>
    (1, [7]) \<in> set (sender_pairs (ch_snd wire_sample))"
  using channel_prefix_and_repair [OF wire_sample_reachable, THEN conjunct2, rule_format, of 1]
    wire_sample_reachable
  by (simp add: wire_sample_def recv_acked_def sender_next_def sender_steps_def sender_append_def
      sender_append_entry_def new_sender_def sender_pairs_def sender_entries_def)

text \<open>C23: A reconnect repairs everything. From any state the lossy network can produce, feeding the
  receiver's watermark to \<open>Ack\<close> and replaying the remaining log never errs, overflows or stalls
  and leaves exactly the whole history delivered.\<close>

theorem channel_resume_delivers_all:
  assumes "wire_step\<^sup>*\<^sup>* (wire_channel_start win) c"
  shows "\<exists>r out. replay recv_accept (ch_rcv c)
      (sender_pairs (sender_ack (ch_snd c) (recv_acked (ch_rcv c)))) = (r, out, None) \<and>
    ch_delivered c @ out = ch_sent c"
  by (rule wire_channel.resume_complete [OF wire_reach [OF assms]])

lemma channel_resume_delivers_all_witness:
  "\<exists>r. replay recv_accept (ch_rcv wire_sample)
      (sender_pairs (sender_ack (ch_snd wire_sample) (recv_acked (ch_rcv wire_sample)))) = (r, [[7], [8]], None)"
  using channel_resume_delivers_all [OF wire_sample_reachable] by (simp add: wire_sample_def)

end
