(* ===== verification/CloseReason.thy ===== *)
theory CloseReason
  imports Prelude "HOL-Library.Char_ord" "HOL-Library.List_Lexorder"
begin

text \<open>
  The one close-reason table both transports share (\<open>wire/identity.go\<close>), session epochs, and the
  advertised liveness and limits with their validators (\<open>wire/limits.go\<close>). A close reason is the
  8-bit code the program holds, valid or not; close codes are integers, texts are strings.
\<close>

section \<open>Epochs\<close>

text \<open>
  \<open>NewEpoch\<close> over a source of 8-byte draws: each draw is read as a little-endian number and zero
  is drawn again; the source running dry is the read error. The result also gives the draws
  that were not consumed.
\<close>

fun le_u64 :: "u8 list \<Rightarrow> u64" where
  "le_u64 [] = 0"
| "le_u64 (b # bs) = ucast b OR push_bit 8 (le_u64 bs)"

fun new_epoch :: "bytes list \<Rightarrow> (u64 \<times> bytes list) option" where
  "new_epoch [] = None"
| "new_epoch (b # draws) = (if le_u64 b \<noteq> 0 then Some (le_u64 b, draws) else new_epoch draws)"

section \<open>Close reasons\<close>

type_synonym close_reason = u8

definition close_normal :: close_reason where "close_normal = 1"
definition close_shutdown :: close_reason where "close_shutdown = 2"
definition close_superseded :: close_reason where "close_superseded = 3"
definition close_auth :: close_reason where "close_auth = 4"
definition close_protocol :: close_reason where "close_protocol = 5"
definition close_liveness :: close_reason where "close_liveness = 6"
definition close_overflow :: close_reason where "close_overflow = 7"
definition close_unreadable :: close_reason where "close_unreadable = 8"

lemmas close_codes = close_normal_def close_shutdown_def close_superseded_def close_auth_def
  close_protocol_def close_liveness_def close_overflow_def close_unreadable_def

record close_row =
  cw_name :: string
  cw_ws_code :: int
  cw_ws_reason :: string
  cw_quic :: u64

text \<open>Index 0 is the array's unset element.\<close>

definition close_table :: "close_row list" where
  "close_table =
     [\<lparr>cw_name = '''', cw_ws_code = 0, cw_ws_reason = '''', cw_quic = 0\<rparr>,
      \<lparr>cw_name = ''normal'', cw_ws_code = 1000, cw_ws_reason = ''normal'', cw_quic = 0\<rparr>,
      \<lparr>cw_name = ''shutdown'', cw_ws_code = 1000, cw_ws_reason = ''shutdown'', cw_quic = 8\<rparr>,
      \<lparr>cw_name = ''superseded'', cw_ws_code = 1000, cw_ws_reason = ''superseded'', cw_quic = 2\<rparr>,
      \<lparr>cw_name = ''auth'', cw_ws_code = 1008, cw_ws_reason = ''auth'', cw_quic = 3\<rparr>,
      \<lparr>cw_name = ''protocol'', cw_ws_code = 1002, cw_ws_reason = ''protocol version'', cw_quic = 4\<rparr>,
      \<lparr>cw_name = ''liveness'', cw_ws_code = 1008, cw_ws_reason = ''liveness'', cw_quic = 5\<rparr>,
      \<lparr>cw_name = ''overflow'', cw_ws_code = 1011, cw_ws_reason = ''overflow'', cw_quic = 10\<rparr>,
      \<lparr>cw_name = ''unreadable'', cw_ws_code = 1011, cw_ws_reason = ''unreadable'', cw_quic = 9\<rparr>]"

definition invalid_close :: int where "invalid_close = 1011"

definition close_valid :: "close_reason \<Rightarrow> bool" where
  "close_valid r \<longleftrightarrow> r \<ge> close_normal \<and> r \<le> close_unreadable"

text \<open>\<open>strconv.Itoa\<close> on a small natural number.\<close>

fun itoa_nat :: "nat \<Rightarrow> string" where
  "itoa_nat n = (if n < 10 then [char_of (48 + n)] else itoa_nat (n div 10) @ [char_of (48 + n mod 10)])"

declare itoa_nat.simps [simp del]

definition close_string :: "close_reason \<Rightarrow> string" where
  "close_string r =
     (if \<not> close_valid r then ''closeReason('' @ itoa_nat (unat r) @ '')''
      else cw_name (close_table ! unat r))"

definition close_ws :: "close_reason \<Rightarrow> int \<times> string" where
  "close_ws r =
     (if \<not> close_valid r then (invalid_close, ''invalid reason'')
      else (cw_ws_code (close_table ! unat r), cw_ws_reason (close_table ! unat r)))"

definition close_quic_code :: "close_reason \<Rightarrow> u64" where
  "close_quic_code r = (if \<not> close_valid r then 1 else cw_quic (close_table ! unat r))"

text \<open>The scans from \<open>CloseNormal\<close> to \<open>CloseUnreadable\<close>; the flag is the second result.\<close>

definition close_scan :: "(close_row \<Rightarrow> bool) \<Rightarrow> close_reason \<times> bool" where
  "close_scan P =
     (case List.find (\<lambda>i. P (close_table ! i)) [1..<9] of
        Some i \<Rightarrow> (of_nat i, True) | None \<Rightarrow> (0, False))"

definition close_from_ws :: "int \<Rightarrow> string \<Rightarrow> close_reason \<times> bool" where
  "close_from_ws code reason = close_scan (\<lambda>e. cw_ws_code e = code \<and> cw_ws_reason e = reason)"

definition close_from_quic :: "u64 \<Rightarrow> close_reason \<times> bool" where
  "close_from_quic code = close_scan (\<lambda>e. cw_quic e = code)"

section \<open>Liveness and limits\<close>

record liveness =
  lv_keepalive :: int
  lv_idle :: int

record limits =
  lm_max_frame :: int
  lm_max_relay_body :: int
  lm_resume_window :: int

definition probe_after :: duration where "probe_after = 7 * second"
definition probe_timeout :: duration where "probe_timeout = 3 * second"
definition busy_keepalive :: duration where "busy_keepalive = 1 * second"

definition default_liveness :: liveness where
  "default_liveness = \<lparr>lv_keepalive = 5, lv_idle = 20\<rparr>"

definition default_limits :: limits where
  "default_limits = \<lparr>lm_max_frame = 8 * 2 ^ 20, lm_max_relay_body = 28 * 2 ^ 20, lm_resume_window = 1500\<rparr>"

text \<open>Each validator gives the first reason it refuses for, \<open>None\<close> when it accepts.\<close>

datatype limits_error =
    BadKeepalive | IdleBelowTwice | IdleAbove | BadMaxFrame | BadMaxRelayBody | BadResumeWindow

definition validate_liveness :: "liveness \<Rightarrow> limits_error option" where
  "validate_liveness l =
     (if lv_keepalive l < 1 \<or> lv_keepalive l > 60 then Some BadKeepalive
      else if lv_idle l < 2 * lv_keepalive l then Some IdleBelowTwice
      else if lv_idle l > 300 then Some IdleAbove
      else None)"

definition validate_limits :: "limits \<Rightarrow> limits_error option" where
  "validate_limits l =
     (if lm_max_frame l < 2 ^ 10 \<or> lm_max_frame l > 64 * 2 ^ 20 then Some BadMaxFrame
      else if lm_max_relay_body l < 2 ^ 10 \<or> lm_max_relay_body l > 256 * 2 ^ 20 then Some BadMaxRelayBody
      else if lm_resume_window l < 1 \<or> lm_resume_window l > 2 ^ 20 then Some BadResumeWindow
      else None)"

section \<open>Properties\<close>

lemma close_valid_cases:
  assumes "close_valid r"
  shows "r \<in> {1, 2, 3, 4, 5, 6, 7, 8}"
proof -
  have "1 \<le> unat r" "unat r \<le> 8"
    using assms by (simp_all add: close_valid_def close_codes word_le_nat_alt)
  then have "unat r \<in> {1, 2, 3, 4, 5, 6, 7, 8}" by auto
  then have "r \<in> of_nat ` {1, 2, 3, 4, 5, 6, 7, 8}" by (metis image_eqI of_nat_unat)
  then show ?thesis by simp
qed

lemma close_valid_elim:
  assumes "close_valid r"
    and "\<And>r. r \<in> {1, 2, 3, 4, 5, 6, 7, 8 :: close_reason} \<Longrightarrow> P r"
  shows "P r"
  using close_valid_cases [OF assms(1)] assms(2) by blast

lemma close_from_quic_eq:
  "close_from_quic c =
     (if c = 0 then (1, True) else if c = 8 then (2, True) else if c = 2 then (3, True)
      else if c = 3 then (4, True) else if c = 4 then (5, True) else if c = 5 then (6, True)
      else if c = 10 then (7, True) else if c = 9 then (8, True) else (0, False))"
  by (simp add: close_from_quic_def close_scan_def close_table_def upt_rec)

lemma close_table_inverse:
  "list_all (\<lambda>r. (case close_ws r of (code, reason) \<Rightarrow> close_from_ws code reason) = (r, True) \<and>
      close_from_quic (close_quic_code r) = (r, True)) [1, 2, 3, 4, 5, 6, 7, 8 :: close_reason]"
  by code_simp

lemma close_quic_codes:
  "map close_quic_code [0, 1, 2, 3, 4, 5, 6, 7, 8] = [1, 0, 8, 2, 3, 4, 5, 10, 9]"
  by code_simp

text \<open>The two transports describe the same verdict. For every one of the eight reasons the
  WebSocket pair and the QUIC code both map back to that reason, so no two reasons share a pair
  or a code and a peer reads the same reason whichever transport carried the close.\<close>

theorem close_reason_round_trip:
  assumes "close_valid r"
  shows "(case close_ws r of (code, reason) \<Rightarrow> close_from_ws code reason) = (r, True) \<and>
    close_from_quic (close_quic_code r) = (r, True)"
  by (rule close_valid_elim [OF assms]) (use close_table_inverse in auto)

lemma close_reason_round_trip_witness:
  "close_from_quic (close_quic_code close_superseded) = (close_superseded, True)"
  using close_reason_round_trip [of close_superseded]
  by (simp add: close_valid_def close_codes word_le_nat_alt)

text \<open>A QUIC code that maps to a reason is exactly the code of that reason, and an unknown
  code, in particular the one an invalid reason is closed with, maps to none.\<close>

theorem close_from_quic_exact:
  "(snd (close_from_quic c) \<longrightarrow> close_valid (fst (close_from_quic c)) \<and>
      close_quic_code (fst (close_from_quic c)) = c) \<and>
   (\<not> close_valid r \<longrightarrow> \<not> snd (close_from_quic (close_quic_code r)))"
proof -
  have "close_quic_code r = 1" if "\<not> close_valid r" using that by (simp add: close_quic_code_def)
  moreover have "close_valid 1" "close_valid 2" "close_valid 3" "close_valid 4"
    "close_valid 5" "close_valid 6" "close_valid 7" "close_valid 8"
    by (simp_all add: close_valid_def close_codes word_le_nat_alt)
  ultimately show ?thesis using close_quic_codes by (auto simp: close_from_quic_eq)
qed

lemma close_from_quic_exact_witness:
  "close_from_quic 10 = (close_overflow, True) \<and> \<not> snd (close_from_quic (close_quic_code 0))"
  using close_from_quic_exact [of 10 0]
  by (simp add: close_from_quic_eq close_codes close_valid_def)

text \<open>An advertised time scale that passes the validator never lets one lost heartbeat end a
  session: at least two keepalive periods fit into the idle limit, which is at most five minutes;
  the defaults themselves pass both validators.\<close>

theorem liveness_tolerates_a_lost_heartbeat:
  "(validate_liveness l = None \<longleftrightarrow>
      1 \<le> lv_keepalive l \<and> lv_keepalive l \<le> 60 \<and> 2 * lv_keepalive l \<le> lv_idle l \<and> lv_idle l \<le> 300) \<and>
   validate_liveness default_liveness = None \<and> validate_limits default_limits = None"
  by (auto simp: validate_liveness_def validate_limits_def default_liveness_def default_limits_def
      not_less split: if_splits)

text \<open>A fresh epoch is never zero, and it is the first draw of the source that is not zero.\<close>

theorem new_epoch_nonzero:
  assumes "new_epoch draws = Some (e, rest)"
  shows "e \<noteq> 0 \<and> (\<exists>zeros b. draws = zeros @ b # rest \<and> e = le_u64 b \<and> (\<forall>z \<in> set zeros. le_u64 z = 0))"
  using assms
proof (induction draws)
  case (Cons b draws)
  show ?case
  proof (cases "le_u64 b = 0")
    case True
    then obtain zeros b' where "e \<noteq> 0" "draws = zeros @ b' # rest" "e = le_u64 b'"
      "\<forall>z \<in> set zeros. le_u64 z = 0"
      using Cons by auto
    then have "e \<noteq> 0 \<and> b # draws = (b # zeros) @ b' # rest \<and> e = le_u64 b' \<and>
        (\<forall>z \<in> set (b # zeros). le_u64 z = 0)"
      using True by simp
    then show ?thesis by blast
  next
    case False
    then have "b # draws = [] @ b # rest \<and> e = le_u64 b \<and> e \<noteq> 0" using Cons.prems by auto
    then show ?thesis by (metis empty_iff list.set(1))
  qed
qed simp

lemma new_epoch_nonzero_witness:
  "new_epoch [replicate 8 0, [1, 1, 0, 0, 0, 0, 0, 0], []] = Some (257, [[]]) \<and> (257 :: u64) \<noteq> 0"
proof -
  have "new_epoch [replicate 8 0, [1, 1, 0, 0, 0, 0, 0, 0], []] = Some (257, [[]])"
    by code_simp
  then show ?thesis using new_epoch_nonzero by blast
qed

end
