(* ===== verification/Json.thy ===== *)
theory Json
  imports Prelude "HOL-Library.Char_ord" "HOL-Library.List_Lexorder"
begin

text \<open>
  The part of Go's \<open>encoding/json\<close> the program relies on, on byte strings (\<open>string\<close> is a list of
  8-bit characters): the validity scanner, the raw members and elements that a decode walks over
  (so that \<open>json.RawMessage\<close> is the text of a value), typed decoding of numbers, booleans, strings
  and structs, and the encoder's string and number forms. No code under \<open>src/\<close> is modelled here.
\<close>

section \<open>Scanning\<close>

definition is_ws :: "char \<Rightarrow> bool" where
  "is_ws c \<longleftrightarrow> c = CHR '' '' \<or> c = CHR 0x09 \<or> c = CHR 0x0A \<or> c = CHR 0x0D"

abbreviation skip_ws :: "string \<Rightarrow> string" where "skip_ws \<equiv> dropWhile is_ws"

abbreviation byte_of :: "char \<Rightarrow> int" where "byte_of c \<equiv> of_char c"

definition is_digit :: "char \<Rightarrow> bool" where
  "is_digit c \<longleftrightarrow> 48 \<le> byte_of c \<and> byte_of c \<le> 57"

definition is_hex :: "char \<Rightarrow> bool" where
  "is_hex c \<longleftrightarrow> is_digit c \<or> (65 \<le> byte_of c \<and> byte_of c \<le> 70) \<or> (97 \<le> byte_of c \<and> byte_of c \<le> 102)"

abbreviation quote :: char where "quote \<equiv> CHR 0x22"
abbreviation backslash :: char where "backslash \<equiv> CHR 0x5C"

text \<open>Behind an opening quote: the text behind the closing one.\<close>

fun scan_string :: "string \<Rightarrow> string option" where
  "scan_string [] = None"
| "scan_string (c # r) =
     (if c = quote then Some r
      else if c = backslash then
        (case r of
           [] \<Rightarrow> None
         | e # r1 \<Rightarrow>
             if e \<in> set [quote, backslash, CHR ''/'', CHR ''b'', CHR ''f'', CHR ''n'', CHR ''r'', CHR ''t'']
             then scan_string r1
             else if e = CHR ''u'' then
               (case r1 of
                  h1 # h2 # h3 # h4 # r2 \<Rightarrow>
                    if is_hex h1 \<and> is_hex h2 \<and> is_hex h3 \<and> is_hex h4 then scan_string r2 else None
                | _ \<Rightarrow> None)
             else None)
      else if byte_of c < 32 then None else scan_string r)"

definition scan_digits1 :: "string \<Rightarrow> string option" where
  "scan_digits1 s = (case s of [] \<Rightarrow> None | c # r \<Rightarrow> if is_digit c then Some (dropWhile is_digit r) else None)"

definition scan_frac :: "string \<Rightarrow> string option" where
  "scan_frac s = (case s of c # r \<Rightarrow> if c = CHR ''.'' then scan_digits1 r else Some s | [] \<Rightarrow> Some [])"

definition scan_exp :: "string \<Rightarrow> string option" where
  "scan_exp s =
     (case s of
        c # r \<Rightarrow>
          if c = CHR ''e'' \<or> c = CHR ''E'' then
            (case r of
               d # r1 \<Rightarrow> if d = CHR ''+'' \<or> d = CHR ''-'' then scan_digits1 r1 else scan_digits1 r
             | [] \<Rightarrow> None)
          else Some s
      | [] \<Rightarrow> Some [])"

definition scan_number :: "string \<Rightarrow> string option" where
  "scan_number s =
     (let s = (case s of c # r \<Rightarrow> if c = CHR ''-'' then r else s | [] \<Rightarrow> s)
      in case s of
           [] \<Rightarrow> None
         | c # r \<Rightarrow>
             Option.bind (if c = CHR ''0'' then Some r else if is_digit c then Some (dropWhile is_digit r) else None)
               (\<lambda>r. Option.bind (scan_frac r) scan_exp))"

definition scan_lit :: "string \<Rightarrow> string \<Rightarrow> string option" where
  "scan_lit lit s = (if take (length lit) s = lit then Some (drop (length lit) s) else None)"

text \<open>
  One value without leading white space. The first argument is fuel for the recursion (the length
  of the text is enough, every step consumes a character), the second the nesting still allowed.
\<close>

fun scan_value :: "nat \<Rightarrow> int \<Rightarrow> string \<Rightarrow> string option"
  and scan_members :: "nat \<Rightarrow> int \<Rightarrow> string \<Rightarrow> string option"
  and scan_elems :: "nat \<Rightarrow> int \<Rightarrow> string \<Rightarrow> string option" where
  "scan_value 0 d s = None"
| "scan_value (Suc n) d s =
     (case s of
        [] \<Rightarrow> None
      | c # r \<Rightarrow>
          if c = CHR 0x7B then
            (if d = 0 then None
             else case skip_ws r of
                    [] \<Rightarrow> None
                  | e # r1 \<Rightarrow> if e = CHR 0x7D then Some r1 else scan_members n (d - 1) (e # r1))
          else if c = CHR ''['' then
            (if d = 0 then None
             else case skip_ws r of
                    [] \<Rightarrow> None
                  | e # r1 \<Rightarrow> if e = CHR '']'' then Some r1 else scan_elems n (d - 1) (e # r1))
          else if c = quote then scan_string r
          else if c = CHR ''t'' then scan_lit ''true'' s
          else if c = CHR ''f'' then scan_lit ''false'' s
          else if c = CHR ''n'' then scan_lit ''null'' s
          else scan_number s)"
| "scan_members 0 d s = None"
| "scan_members (Suc n) d s =
     (case s of
        [] \<Rightarrow> None
      | c # r \<Rightarrow>
          if c \<noteq> quote then None
          else case scan_string r of
                 None \<Rightarrow> None
               | Some r1 \<Rightarrow>
                   (case skip_ws r1 of
                      [] \<Rightarrow> None
                    | e # r2 \<Rightarrow>
                        if e \<noteq> CHR '':'' then None
                        else case scan_value n d (skip_ws r2) of
                               None \<Rightarrow> None
                             | Some r3 \<Rightarrow>
                                 (case skip_ws r3 of
                                    [] \<Rightarrow> None
                                  | f # r4 \<Rightarrow>
                                      if f = CHR '','' then scan_members n d (skip_ws r4)
                                      else if f = CHR 0x7D then Some r4 else None)))"
| "scan_elems 0 d s = None"
| "scan_elems (Suc n) d s =
     (case scan_value n d s of
        None \<Rightarrow> None
      | Some r \<Rightarrow>
          (case skip_ws r of
             [] \<Rightarrow> None
           | f # r1 \<Rightarrow>
               if f = CHR '','' then scan_elems n d (skip_ws r1)
               else if f = CHR '']'' then Some r1 else None))"

definition max_nesting :: int where "max_nesting = 10000"

definition scan :: "string \<Rightarrow> string option" where
  "scan s = scan_value (Suc (2 * length s)) max_nesting s"

text \<open>\<open>json.Valid\<close>, and the text of the one value of a valid document.\<close>

definition json_value :: "string \<Rightarrow> string option" where
  "json_value s =
     (let s = skip_ws s
      in case scan s of
           None \<Rightarrow> None
         | Some r \<Rightarrow> if skip_ws r = [] then Some (take (length s - length r) s) else None)"

definition json_valid :: "string \<Rightarrow> bool" where
  "json_valid s \<longleftrightarrow> json_value s \<noteq> None"

section \<open>Strings\<close>

definition hex_val :: "char \<Rightarrow> int" where
  "hex_val c = (if is_digit c then byte_of c - 48 else if byte_of c \<ge> 97 then byte_of c - 87 else byte_of c - 55)"

definition hex_digit :: "int \<Rightarrow> char" where
  "hex_digit n = (if n < 10 then char_of (48 + n) else char_of (87 + n))"

definition utf8_encode :: "int \<Rightarrow> string" where
  "utf8_encode r =
     (if r < 0x80 then [char_of r]
      else if r < 0x800 then [char_of (0xC0 + r div 0x40), char_of (0x80 + r mod 0x40)]
      else if r < 0x10000 then
        [char_of (0xE0 + r div 0x1000), char_of (0x80 + r div 0x40 mod 0x40), char_of (0x80 + r mod 0x40)]
      else
        [char_of (0xF0 + r div 0x40000), char_of (0x80 + r div 0x1000 mod 0x40),
         char_of (0x80 + r div 0x40 mod 0x40), char_of (0x80 + r mod 0x40)])"

definition replacement_rune :: string where
  "replacement_rune = [CHR 0xEF, CHR 0xBF, CHR 0xBD]"

definition in_range :: "int \<Rightarrow> int \<Rightarrow> char \<Rightarrow> bool" where
  "in_range lo hi c \<longleftrightarrow> lo \<le> byte_of c \<and> byte_of c \<le> hi"

text \<open>
  \<open>utf8.DecodeRune\<close>: what the first byte announces (the length of the sequence and the range of
  its second byte), and the length of the well-formed sequence at the head, 0 where there is
  none (the decoder then yields the replacement rune for one byte).
\<close>

definition utf8_first :: "int \<Rightarrow> nat \<times> int \<times> int" where
  "utf8_first b =
     (if b < 0x80 then (1, 0, 0)
      else if 0xC2 \<le> b \<and> b \<le> 0xDF then (2, 0x80, 0xBF)
      else if b = 0xE0 then (3, 0xA0, 0xBF)
      else if b = 0xED then (3, 0x80, 0x9F)
      else if 0xE1 \<le> b \<and> b \<le> 0xEF then (3, 0x80, 0xBF)
      else if b = 0xF0 then (4, 0x90, 0xBF)
      else if 0xF1 \<le> b \<and> b \<le> 0xF3 then (4, 0x80, 0xBF)
      else if b = 0xF4 then (4, 0x80, 0x8F)
      else (0, 0, 0))"

definition utf8_len :: "string \<Rightarrow> nat" where
  "utf8_len s =
     (case s of
        [] \<Rightarrow> 0
      | c # r \<Rightarrow>
          (case utf8_first (byte_of c) of
             (n, lo, hi) \<Rightarrow>
               if n \<le> 1 then n
               else if n \<le> length s \<and> in_range lo hi (s ! 1) \<and>
                       list_all (in_range 0x80 0xBF) (take (n - 2) (drop 2 s)) then n
               else 0))"

definition hex4 :: "char \<Rightarrow> char \<Rightarrow> char \<Rightarrow> char \<Rightarrow> int" where
  "hex4 a b c d = ((hex_val a * 16 + hex_val b) * 16 + hex_val c) * 16 + hex_val d"

definition is_surrogate :: "int \<Rightarrow> bool" where
  "is_surrogate r \<longleftrightarrow> 0xD800 \<le> r \<and> r < 0xE000"

text \<open>\<open>utf16.DecodeRune\<close> of two escapes, \<open>None\<close> where they are no pair.\<close>

definition surrogate_pair :: "int \<Rightarrow> int \<Rightarrow> int option" where
  "surrogate_pair r1 r2 =
     (if 0xD800 \<le> r1 \<and> r1 < 0xDC00 \<and> 0xDC00 \<le> r2 \<and> r2 < 0xE000
      then Some ((r1 - 0xD800) * 0x400 + (r2 - 0xDC00) + 0x10000) else None)"

definition escape_value :: "char \<Rightarrow> char" where
  "escape_value e =
     (if e = CHR ''b'' then CHR 0x08 else if e = CHR ''f'' then CHR 0x0C
      else if e = CHR ''n'' then CHR 0x0A else if e = CHR ''r'' then CHR 0x0D
      else if e = CHR ''t'' then CHR 0x09 else e)"

text \<open>The escape that follows a high surrogate: \<open>getu4\<close> on the rest.\<close>

definition next_u4 :: "string \<Rightarrow> (int \<times> string) option" where
  "next_u4 s =
     (case s of
        b # u # h1 # h2 # h3 # h4 # r \<Rightarrow>
          if b = backslash \<and> u = CHR ''u'' \<and> is_hex h1 \<and> is_hex h2 \<and> is_hex h3 \<and> is_hex h4
          then Some (hex4 h1 h2 h3 h4, r) else None
      | _ \<Rightarrow> None)"

text \<open>Behind an opening quote, up to the closing one; ill-formed UTF-8 becomes the replacement rune.\<close>

function unquote_body :: "string \<Rightarrow> string option" where
  "unquote_body [] = None"
| "unquote_body (c # r) =
     (if c = quote then Some []
      else if c = backslash then
        (case r of
           [] \<Rightarrow> None
         | e # r1 \<Rightarrow>
             if e = CHR ''u'' then
               (case next_u4 (c # r) of
                  None \<Rightarrow> None
                | Some (rune, r2) \<Rightarrow>
                    if is_surrogate rune then
                      (case next_u4 r2 of
                         Some (low, r3) \<Rightarrow>
                           (case surrogate_pair rune low of
                              Some x \<Rightarrow> map_option (\<lambda>t. utf8_encode x @ t) (unquote_body (drop 12 (c # r)))
                            | None \<Rightarrow> map_option (\<lambda>t. replacement_rune @ t) (unquote_body (drop 6 (c # r))))
                       | None \<Rightarrow> map_option (\<lambda>t. replacement_rune @ t) (unquote_body (drop 6 (c # r))))
                    else map_option (\<lambda>t. utf8_encode rune @ t) (unquote_body (drop 6 (c # r))))
             else map_option (\<lambda>t. escape_value e # t) (unquote_body r1))
      else if byte_of c < 32 then None
      else if utf8_len (c # r) = 0 then map_option (\<lambda>t. replacement_rune @ t) (unquote_body r)
      else map_option (\<lambda>t. take (utf8_len (c # r)) (c # r) @ t) (unquote_body (drop (utf8_len (c # r)) (c # r))))"
  by pat_completeness auto
termination by (relation "measure length") auto

text \<open>\<open>appendString\<close> with HTML escaping, without the quotes.\<close>

definition u_escape :: "int \<Rightarrow> string" where
  "u_escape n = [backslash, CHR ''u'', hex_digit (n div 4096 mod 16), hex_digit (n div 256 mod 16),
                 hex_digit (n div 16 mod 16), hex_digit (n mod 16)]"

definition escape_char :: "char \<Rightarrow> string" where
  "escape_char c =
     (if c = quote \<or> c = backslash then [backslash, c]
      else if c = CHR 0x08 then [backslash, CHR ''b'']
      else if c = CHR 0x0C then [backslash, CHR ''f'']
      else if c = CHR 0x0A then [backslash, CHR ''n'']
      else if c = CHR 0x0D then [backslash, CHR ''r'']
      else if c = CHR 0x09 then [backslash, CHR ''t'']
      else if byte_of c < 32 \<or> c = CHR ''<'' \<or> c = CHR ''>'' \<or> c = CHR ''&'' then u_escape (byte_of c)
      else [c])"

definition line_separator :: "string \<Rightarrow> int option" where
  "line_separator s =
     (if take 3 s = [CHR 0xE2, CHR 0x80, CHR 0xA8] then Some 0x2028
      else if take 3 s = [CHR 0xE2, CHR 0x80, CHR 0xA9] then Some 0x2029 else None)"

function escape_body :: "string \<Rightarrow> string" where
  "escape_body [] = []"
| "escape_body (c # r) =
     (if byte_of c < 0x80 then escape_char c @ escape_body r
      else if utf8_len (c # r) = 0 then u_escape 0xFFFD @ escape_body r
      else case line_separator (c # r) of
             Some x \<Rightarrow> u_escape x @ escape_body (drop 3 (c # r))
           | None \<Rightarrow> take (utf8_len (c # r)) (c # r) @ escape_body (drop (utf8_len (c # r)) (c # r)))"
  by pat_completeness auto
termination by (relation "measure length") auto

declare unquote_body.simps(2) [simp del] escape_body.simps(2) [simp del]

definition enc_str :: "string \<Rightarrow> string" where
  "enc_str s = quote # escape_body s @ [quote]"

section \<open>Numbers\<close>

definition digits_val :: "string \<Rightarrow> int" where
  "digits_val s = foldl (\<lambda>n c. n * 10 + (byte_of c - 48)) 0 s"

function enc_dec :: "int \<Rightarrow> string" where
  "enc_dec n = (if n < 10 then [char_of (48 + n)] else enc_dec (n div 10) @ [char_of (48 + n mod 10)])"
  by pat_completeness auto
termination by (relation "measure nat") auto

declare enc_dec.simps [simp del]

definition enc_u64 :: "u64 \<Rightarrow> string" where "enc_u64 w = enc_dec (uint w)"

definition enc_int :: "int \<Rightarrow> string" where
  "enc_int i = (if i < 0 then CHR ''-'' # enc_dec (- i) else enc_dec i)"

definition enc_bool :: "bool \<Rightarrow> string" where "enc_bool b = (if b then ''true'' else ''false'')"

definition parse_uint :: "string \<Rightarrow> u64 option" where
  "parse_uint s = (if s \<noteq> [] \<and> list_all is_digit s \<and> digits_val s < 2 ^ 64 then Some (of_int (digits_val s)) else None)"

definition parse_int :: "string \<Rightarrow> int option" where
  "parse_int s =
     (case s of
        c # r \<Rightarrow>
          if c = CHR ''-'' then
            (if r \<noteq> [] \<and> list_all is_digit r \<and> digits_val r \<le> 2 ^ 63 then Some (- digits_val r) else None)
          else if list_all is_digit s \<and> digits_val s < 2 ^ 63 then Some (digits_val s) else None
      | [] \<Rightarrow> None)"

section \<open>Decoding\<close>

text \<open>
  A field decoder takes the text of a value and the value the field holds. \<open>null\<close> leaves a scalar
  alone; a value of another kind fails the whole decode.
\<close>

definition dec_u64 :: "string \<Rightarrow> u64 \<Rightarrow> u64 option" where
  "dec_u64 raw old = (if raw = ''null'' then Some old else parse_uint raw)"

definition dec_int :: "string \<Rightarrow> int \<Rightarrow> int option" where
  "dec_int raw old = (if raw = ''null'' then Some old else parse_int raw)"

definition dec_bool :: "string \<Rightarrow> bool \<Rightarrow> bool option" where
  "dec_bool raw old =
     (if raw = ''null'' then Some old else if raw = ''true'' then Some True
      else if raw = ''false'' then Some False else None)"

definition dec_str :: "string \<Rightarrow> string \<Rightarrow> string option" where
  "dec_str raw old =
     (if raw = ''null'' then Some old
      else case raw of c # r \<Rightarrow> if c = quote then unquote_body r else None | [] \<Rightarrow> None)"

definition dec_raw :: "string \<Rightarrow> string \<Rightarrow> string option" where
  "dec_raw raw old = Some raw"

definition dec_ptr :: "(string \<Rightarrow> 'a \<Rightarrow> 'a option) \<Rightarrow> 'a \<Rightarrow> string \<Rightarrow> 'a option \<Rightarrow> 'a option option" where
  "dec_ptr dec zero raw old =
     (if raw = ''null'' then Some None
      else map_option Some (dec raw (case old of None \<Rightarrow> zero | Some x \<Rightarrow> x)))"

text \<open>The elements of a valid array and the members of a valid object, as texts.\<close>

fun elems_loop :: "nat \<Rightarrow> string \<Rightarrow> string list option" where
  "elems_loop 0 s = None"
| "elems_loop (Suc n) s =
     (case scan s of
        None \<Rightarrow> None
      | Some r \<Rightarrow>
          (case skip_ws r of
             [] \<Rightarrow> None
           | f # r1 \<Rightarrow>
               let v = take (length s - length r) s
               in if f = CHR '','' then map_option (\<lambda>vs. v # vs) (elems_loop n (skip_ws r1))
                  else if f = CHR '']'' then Some [v] else None))"

definition json_elems :: "string \<Rightarrow> string list option" where
  "json_elems raw =
     (case raw of
        c # r \<Rightarrow>
          if c = CHR ''['' then
            (case skip_ws r of
               [] \<Rightarrow> None
             | e # r1 \<Rightarrow> if e = CHR '']'' then Some [] else elems_loop (length r) (e # r1))
          else None
      | [] \<Rightarrow> None)"

fun members_loop :: "nat \<Rightarrow> string \<Rightarrow> (string \<times> string) list option" where
  "members_loop 0 s = None"
| "members_loop (Suc n) s =
     (case s of
        [] \<Rightarrow> None
      | c # r \<Rightarrow>
          if c \<noteq> quote then None
          else case unquote_body r of
                 None \<Rightarrow> None
               | Some k \<Rightarrow>
                   (case scan_string r of
                      None \<Rightarrow> None
                    | Some r1 \<Rightarrow>
                        (case skip_ws r1 of
                           [] \<Rightarrow> None
                         | e # r2 \<Rightarrow>
                             let s1 = skip_ws r2
                             in if e \<noteq> CHR '':'' then None
                                else case scan s1 of
                                       None \<Rightarrow> None
                                     | Some r3 \<Rightarrow>
                                         (case skip_ws r3 of
                                            [] \<Rightarrow> None
                                          | f # r4 \<Rightarrow>
                                              let v = take (length s1 - length r3) s1
                                              in if f = CHR '','' then
                                                   map_option (\<lambda>ms. (k, v) # ms) (members_loop n (skip_ws r4))
                                                 else if f = CHR 0x7D then Some [(k, v)] else None))))"

definition json_members :: "string \<Rightarrow> (string \<times> string) list option" where
  "json_members raw =
     (case raw of
        c # r \<Rightarrow>
          if c = CHR 0x7B then
            (case skip_ws r of
               [] \<Rightarrow> None
             | e # r1 \<Rightarrow> if e = CHR 0x7D then Some [] else members_loop (length r) (e # r1))
          else None
      | [] \<Rightarrow> None)"

fun dec_all :: "(string \<Rightarrow> 'a option) \<Rightarrow> string list \<Rightarrow> 'a list option" where
  "dec_all dec [] = Some []"
| "dec_all dec (v # vs) = Option.bind (dec v) (\<lambda>x. map_option (\<lambda>xs. x # xs) (dec_all dec vs))"

text \<open>A slice field: \<open>null\<close> is the nil slice, elements start from their zero value.\<close>

definition dec_list :: "(string \<Rightarrow> 'a \<Rightarrow> 'a option) \<Rightarrow> 'a \<Rightarrow> string \<Rightarrow> 'a list \<Rightarrow> 'a list option" where
  "dec_list dec zero raw old =
     (if raw = ''null'' then Some []
      else Option.bind (json_elems raw) (dec_all (\<lambda>v. dec v zero)))"

text \<open>
  \<open>foldName\<close>: ASCII letters in upper case, and the two other runes that fold to an ASCII letter
  (the Kelvin sign and the long s).
\<close>

function fold_name :: "string \<Rightarrow> string" where
  "fold_name [] = []"
| "fold_name (c # r) =
     (if take 3 (c # r) = [CHR 0xE2, CHR 0x84, CHR 0xAA] then CHR ''K'' # fold_name (drop 3 (c # r))
      else if take 2 (c # r) = [CHR 0xC5, CHR 0xBF] then CHR ''S'' # fold_name (drop 2 (c # r))
      else if 97 \<le> byte_of c \<and> byte_of c \<le> 122 then char_of (byte_of c - 32) # fold_name r
      else c # fold_name r)"
  by pat_completeness auto
termination by (relation "measure length") auto

type_synonym 'r field = "string \<times> (string \<Rightarrow> 'r \<Rightarrow> 'r option)"

definition find_field :: "'r field list \<Rightarrow> string \<Rightarrow> (string \<Rightarrow> 'r \<Rightarrow> 'r option) option" where
  "find_field fields k =
     (case List.find (\<lambda>f. fst f = k) fields of
        Some f \<Rightarrow> Some (snd f)
      | None \<Rightarrow> map_option snd (List.find (\<lambda>f. fold_name (fst f) = fold_name k) fields))"

fun dec_members :: "'r field list \<Rightarrow> (string \<times> string) list \<Rightarrow> 'r \<Rightarrow> 'r option" where
  "dec_members fields [] r = Some r"
| "dec_members fields ((k, v) # ms) r =
     (case find_field fields k of
        None \<Rightarrow> dec_members fields ms r
      | Some dec \<Rightarrow> Option.bind (dec v r) (dec_members fields ms))"

definition dec_struct :: "'r field list \<Rightarrow> string \<Rightarrow> 'r \<Rightarrow> 'r option" where
  "dec_struct fields raw r =
     (if raw = ''null'' then Some r else Option.bind (json_members raw) (\<lambda>ms. dec_members fields ms r))"

text \<open>\<open>json.Unmarshal\<close> into a value that holds \<open>zero\<close>.\<close>

definition unmarshal :: "(string \<Rightarrow> 'a \<Rightarrow> 'a option) \<Rightarrow> 'a \<Rightarrow> string \<Rightarrow> 'a option" where
  "unmarshal dec zero s = Option.bind (json_value s) (\<lambda>raw. dec raw zero)"

section \<open>Encoding\<close>

fun enc_members :: "(string \<times> string) list \<Rightarrow> string" where
  "enc_members [] = []"
| "enc_members [(k, v)] = enc_str k @ CHR '':'' # v"
| "enc_members ((k, v) # m # ms) = enc_str k @ CHR '':'' # v @ CHR '','' # enc_members (m # ms)"

definition enc_obj :: "(string \<times> string) list \<Rightarrow> string" where
  "enc_obj ms = CHR 0x7B # enc_members ms @ [CHR 0x7D]"

fun enc_elems :: "string list \<Rightarrow> string" where
  "enc_elems [] = []"
| "enc_elems [v] = v"
| "enc_elems (v # w # vs) = v @ CHR '','' # enc_elems (w # vs)"

definition enc_list :: "string list \<Rightarrow> string" where
  "enc_list vs = CHR ''['' # enc_elems vs @ [CHR '']'']"

text \<open>\<open>omitempty\<close>: a member is written where the value is not the empty one.\<close>

definition omit_if :: "bool \<Rightarrow> string \<Rightarrow> string \<Rightarrow> (string \<times> string) list" where
  "omit_if none k v = (if none then [] else [(k, v)])"

text \<open>
  \<open>compact\<close> of a valid raw value with HTML escaping, as \<open>Marshal\<close> applies it to a
  \<open>json.RawMessage\<close>; the flag says whether the position is inside a string.
\<close>

function compact :: "bool \<Rightarrow> string \<Rightarrow> string" where
  "compact q [] = []"
| "compact q (c # r) =
     (if \<not> q then (if is_ws c then compact False r else c # compact (c = quote) r)
      else if c = backslash then (case r of [] \<Rightarrow> [c] | e # r1 \<Rightarrow> c # e # compact True r1)
      else if c = CHR ''<'' \<or> c = CHR ''>'' \<or> c = CHR ''&'' then u_escape (byte_of c) @ compact True r
      else case line_separator (c # r) of
             Some x \<Rightarrow> u_escape x @ compact True (drop 3 (c # r))
           | None \<Rightarrow> c # compact (c \<noteq> quote) r)"
  by pat_completeness auto
termination by (relation "measure (\<lambda>(q, s). length s)") auto

declare compact.simps(2) [simp del]

definition enc_raw :: "string \<Rightarrow> string" where
  "enc_raw raw = (if raw = [] then ''null'' else compact False raw)"

section \<open>Numbers round trip\<close>

lemma code_digit: "0 \<le> (n :: int) \<Longrightarrow> n < 10 \<Longrightarrow> byte_of (char_of (48 + n)) = 48 + n"
  by simp

lemma is_digit_char: "0 \<le> (n :: int) \<Longrightarrow> n < 10 \<Longrightarrow> is_digit (char_of (48 + n))"
  unfolding is_digit_def by (simp add: code_digit)

lemma digits_val_snoc: "digits_val (s @ [c]) = digits_val s * 10 + (byte_of c - 48)"
  by (simp add: digits_val_def)

lemma enc_dec_digits:
  "0 \<le> n \<Longrightarrow> enc_dec n \<noteq> [] \<and> list_all is_digit (enc_dec n) \<and> digits_val (enc_dec n) = n"
proof (induction n rule: enc_dec.induct)
  case (1 n)
  show ?case
  proof (cases "n < 10")
    case True
    then have "enc_dec n = [char_of (48 + n)]" by (simp add: enc_dec.simps)
    then show ?thesis
      using True "1.prems" code_digit is_digit_char by (simp add: digits_val_def)
  next
    case False
    have IH: "list_all is_digit (enc_dec (n div 10)) \<and> digits_val (enc_dec (n div 10)) = n div 10"
      using "1.IH" [OF False] "1.prems" by simp
    have m: "0 \<le> n mod 10" "n mod 10 < 10" by simp_all
    have "enc_dec n = enc_dec (n div 10) @ [char_of (48 + n mod 10)]"
      using False by (simp add: enc_dec.simps [of n])
    then show ?thesis
      using IH is_digit_char [OF m] code_digit [OF m] by (simp add: digits_val_snoc)
  qed
qed

lemma parse_enc_u64 [simp]: "parse_uint (enc_u64 w) = Some w"
  using enc_dec_digits [of "uint w"] uint_lt2p [of w] by (simp add: parse_uint_def enc_u64_def)

lemma not_digit_minus: "\<not> is_digit (CHR ''-'')"
  by (simp add: is_digit_def)

lemma parse_enc_int: "- (2 ^ 63) \<le> i \<Longrightarrow> i < 2 ^ 63 \<Longrightarrow> parse_int (enc_int i) = Some i"
proof -
  assume i: "- (2 ^ 63) \<le> i" "i < 2 ^ 63"
  show ?thesis
  proof (cases "i < 0")
    case True
    then show ?thesis using enc_dec_digits [of "- i"] i by (simp add: parse_int_def enc_int_def)
  next
    case False
    then have d: "enc_dec i \<noteq> []" "list_all is_digit (enc_dec i)" "digits_val (enc_dec i) = i"
      using enc_dec_digits [of i] by simp_all
    then obtain c r where cr: "enc_dec i = c # r" by (cases "enc_dec i") auto
    then have "c \<noteq> CHR ''-''" using d(2) not_digit_minus by auto
    then show ?thesis using d cr False i by (simp add: parse_int_def enc_int_def)
  qed
qed

lemma enc_dec_val: "0 \<le> n \<Longrightarrow> digits_val (enc_dec n) = n"
  using enc_dec_digits by blast

lemma enc_dec_no_minus: "0 \<le> n \<Longrightarrow> CHR ''-'' \<notin> set (enc_dec n)"
  using enc_dec_digits [of n] not_digit_minus by (auto simp only: list_all_iff)

lemma enc_int_cases:
  obtains (Neg) "i < 0" "enc_int i = CHR ''-'' # enc_dec (- i)" | (Pos) "0 \<le> i" "enc_int i = enc_dec i"
  by (cases "i < 0") (simp_all add: enc_int_def)

lemma enc_int_inj:
  assumes "enc_int i = enc_int j"
  shows "i = j"
proof (cases i rule: enc_int_cases)
  case i: Neg
  show ?thesis
  proof (cases j rule: enc_int_cases)
    case Neg
    then have "enc_dec (- i) = enc_dec (- j)" using assms i(2) by (simp only: list.inject)
    then have "digits_val (enc_dec (- i)) = digits_val (enc_dec (- j))" by (rule arg_cong)
    then show ?thesis using i(1) Neg(1) by (simp only: enc_dec_val neg_0_le_iff_le less_imp_le neg_equal_iff_equal)
  next
    case Pos
    then have "CHR ''-'' \<in> set (enc_dec j)" using assms i(2) by (metis list.set_intros(1))
    then show ?thesis using enc_dec_no_minus Pos(1) by blast
  qed
next
  case i: Pos
  show ?thesis
  proof (cases j rule: enc_int_cases)
    case Neg
    then have "CHR ''-'' \<in> set (enc_dec i)" using assms i(2) by (metis list.set_intros(1))
    then show ?thesis using enc_dec_no_minus i(1) by blast
  next
    case Pos
    then have "digits_val (enc_dec i) = digits_val (enc_dec j)" using assms i(2) by (simp only:)
    then show ?thesis using i(1) Pos(1) by (simp only: enc_dec_val)
  qed
qed

section \<open>Strings round trip\<close>

function utf8_ok :: "string \<Rightarrow> bool" where
  "utf8_ok [] = True"
| "utf8_ok (c # r) = (if utf8_len (c # r) = 0 then False else utf8_ok (drop (utf8_len (c # r)) (c # r)))"
  by pat_completeness auto
termination by (relation "measure length") auto

declare utf8_ok.simps(2) [simp del]

lemma hex_digit_ok:
  assumes "0 \<le> n" and "n < 16"
  shows "is_hex (hex_digit n) \<and> hex_val (hex_digit n) = n"
proof -
  have "n \<in> {0, 1, 2, 3, 4, 5, 6, 7, 8, 9, 10, 11, 12, 13, 14, 15}" using assms by simp presburger
  then show ?thesis by (elim insertE emptyE) (simp_all add: hex_digit_def is_hex_def hex_val_def is_digit_def)
qed

lemma next_u4_escape:
  assumes "0 \<le> n" and "n < 65536"
  shows "next_u4 (u_escape n @ x) = Some (n, x)"
proof -
  have h: "is_hex (hex_digit (m mod 16))" "hex_val (hex_digit (m mod 16)) = m mod 16" for m
    using hex_digit_ok [of "m mod 16"] by simp_all
  define a b c where "a = n div 16" and "b = a div 16" and "c = b div 16"
  have d: "n div 256 = b" "n div 4096 = c"
    unfolding a_def b_def c_def 
    using zdiv_zmult2_eq [of 16 n 16] zdiv_zmult2_eq [of 16 n 256] zdiv_zmult2_eq [of 16 "n div 16" 16] by simp_all
  have "c mod 16 = c" using assms d(2) by auto
  moreover have "n = a * 16 + n mod 16" "a = b * 16 + a mod 16" "b = c * 16 + b mod 16"
    by (simp_all add: a_def b_def c_def)
  ultimately have "((c mod 16 * 16 + b mod 16) * 16 + a mod 16) * 16 + n mod 16 = n"
    by presburger
  then have v: "hex4 (hex_digit (c mod 16)) (hex_digit (b mod 16)) (hex_digit (a mod 16)) (hex_digit (n mod 16)) = n"
    unfolding hex4_def h .
  have u: "u_escape n = [backslash, CHR ''u'', hex_digit (c mod 16), hex_digit (b mod 16),
      hex_digit (a mod 16), hex_digit (n mod 16)]"
    unfolding u_escape_def d a_def [symmetric] ..
  show ?thesis unfolding u next_u4_def append.simps list.case v by (simp add: h(1))
qed

lemma unquote_u_escape:
  assumes "0 \<le> n" and "n < 65536" and "\<not> is_surrogate n"
  shows "unquote_body (u_escape n @ x) = map_option (\<lambda>t. utf8_encode n @ t) (unquote_body x)"
proof -
  obtain h1 h2 h3 h4 where u: "u_escape n = [backslash, CHR ''u'', h1, h2, h3, h4]"
    by (simp add: u_escape_def)
  show ?thesis
    using next_u4_escape [OF assms(1,2), of x] assms(3) unfolding u
    by (simp add: unquote_body.simps(2) [of backslash])
qed

lemma code_inj: "byte_of c = byte_of d \<Longrightarrow> c = d"
  by simp

lemma utf8_first_small: "b < 128 \<Longrightarrow> utf8_first b = (1, 0, 0)"
  by (simp add: utf8_first_def)

lemma unquote_escape_char:
  assumes "byte_of c < 128"
  shows "unquote_body (escape_char c @ x) = map_option (\<lambda>t. c # t) (unquote_body x)"
proof -
  have nn: "0 \<le> byte_of c" by (simp add: of_char_def horner_sum_nonnegative split: char.split)
  consider (two) "c = quote \<or> c = backslash \<or> c = CHR 0x08 \<or> c = CHR 0x0C \<or> c = CHR 0x0A \<or>
      c = CHR 0x0D \<or> c = CHR 0x09"
    | (u) "escape_char c = u_escape (byte_of c)" | (plain) "escape_char c = [c]" "c \<noteq> quote" "c \<noteq> backslash" "32 \<le> byte_of c"
  proof (cases "c = quote \<or> c = backslash \<or> c = CHR 0x08 \<or> c = CHR 0x0C \<or> c = CHR 0x0A \<or>
      c = CHR 0x0D \<or> c = CHR 0x09")
    case True
    then show ?thesis by (rule that(1))
  next
    case False
    then show ?thesis
      using that(2,3) by (cases "byte_of c < 32 \<or> c = CHR ''<'' \<or> c = CHR ''>'' \<or> c = CHR ''&''")
        (auto simp: escape_char_def)
  qed
  then show ?thesis
  proof cases
    case two
    then show ?thesis
      by (elim disjE) (simp_all add: escape_char_def unquote_body.simps(2) [of backslash] escape_value_def)
  next
    case u
    have "utf8_encode (byte_of c) = [c]" using assms by (simp add: utf8_encode_def)
    moreover have "\<not> is_surrogate (byte_of c)" "byte_of c < 65536" using assms by (simp_all add: is_surrogate_def)
    ultimately show ?thesis using u unquote_u_escape [OF nn] by simp
  next
    case plain
    have "utf8_len (c # x) = 1" using assms by (simp add: utf8_len_def utf8_first_small)
    moreover have "(@) [c] = (#) c" by (rule ext) simp
    ultimately show ?thesis using plain by (simp add: unquote_body.simps(2))
  qed
qed

lemma utf8_first_not_one: "128 \<le> b \<Longrightarrow> fst (utf8_first b) \<noteq> 1"
  by (simp add: utf8_first_def)

lemma utf8_len_le: "utf8_len s \<le> length s"
  by (auto simp: utf8_len_def split: list.split prod.split)

lemma utf8_len_local:
  assumes "utf8_len s = n" and "n \<noteq> 0"
  shows "utf8_len (take n s @ x) = n"
proof -
  obtain c r where s: "s = c # r" using assms by (cases s) (auto simp: utf8_len_def)
  obtain m lo hi where m: "utf8_first (byte_of c) = (m, lo, hi)" by (cases "utf8_first (byte_of c)")
  have mn: "m = n" using assms s m by (auto simp: utf8_len_def split: if_splits)
  obtain r' where t: "take n s = c # r'" using assms(2) s by (cases n) auto
  show ?thesis
  proof (cases "n \<le> 1")
    case True
    then show ?thesis using t m mn by (simp add: utf8_len_def)
  next
    case False
    then have ok: "n \<le> length s" "in_range lo hi (s ! 1)" "list_all (in_range 0x80 0xBF) (take (n - 2) (drop 2 s))"
      using assms s m mn by (auto simp: utf8_len_def split: if_splits)
    let ?t = "take n s @ x"
    have "n \<le> length ?t" using ok(1) by simp
    moreover have "?t ! 1 = s ! 1" using False ok(1) by (simp add: nth_append)
    moreover have "take (n - 2) (drop 2 ?t) = take (n - 2) (drop 2 s)"
      using ok(1) by (simp add: drop_take)
    moreover have "?t = c # (r' @ x)" using t by simp
    ultimately show ?thesis using ok m mn False unfolding utf8_len_def by (simp only: list.case) simp
  qed
qed

lemma utf8_len_high: "utf8_len (c # r) = n \<Longrightarrow> n \<noteq> 0 \<Longrightarrow> 128 \<le> byte_of c \<Longrightarrow> 2 \<le> n"
  using utf8_first_not_one [of "byte_of c"] by (auto simp: utf8_len_def split: if_splits prod.splits)

lemma line_separator_len:
  "line_separator s = Some n \<Longrightarrow> utf8_len s = 3 \<and> take 3 s = utf8_encode n \<and> n \<in> {0x2028, 0x2029}"
proof -
  assume n: "line_separator s = Some n"
  then have t: "take 3 s = [CHR 0xE2, CHR 0x80, CHR 0xA8] \<and> n = 0x2028 \<or>
      take 3 s = [CHR 0xE2, CHR 0x80, CHR 0xA9] \<and> n = 0x2029"
    by (auto simp: line_separator_def split: if_splits)
  have enc: "utf8_encode 0x2028 = [CHR 0xE2, CHR 0x80, CHR 0xA8]" "utf8_encode 0x2029 = [CHR 0xE2, CHR 0x80, CHR 0xA9]"
    by code_simp+
  from t have "utf8_len (take 3 s @ drop 3 s) = 3 \<and> take 3 s = utf8_encode n"
    by (elim disjE conjE) (simp_all add: utf8_len_def utf8_first_def enc in_range_def del: append_take_drop_id)
  then show ?thesis using t by auto
qed

text \<open>A well-formed string survives encoding and decoding; what follows the closing quote is the rest.\<close>

lemma unquote_escape_body:
  "utf8_ok s \<Longrightarrow> unquote_body (escape_body s @ quote # t) = Some s"
proof (induction s rule: escape_body.induct)
  case 1
  then show ?case by (simp add: unquote_body.simps(2))
next
  case (2 c r)
  let ?n = "utf8_len (c # r)"
  have ok: "?n \<noteq> 0" "utf8_ok (drop ?n (c # r))"
    using "2.prems" by (simp_all add: utf8_ok.simps(2) split: if_splits)
  show ?case
  proof (cases "byte_of c < 128")
    case True
    then have "?n = 1" by (simp add: utf8_len_def utf8_first_small)
    then have "utf8_ok r" using ok(2) by simp
    then show ?thesis
      using "2.IH"(1) True by (simp add: escape_body.simps(2) unquote_escape_char)
  next
    case False
    note high = False
    have two: "2 \<le> ?n" using utf8_len_high [OF refl ok(1)] high by simp
    show ?thesis
    proof (cases "line_separator (c # r)")
      case (Some m)
      note ls = line_separator_len [OF Some]
      have "utf8_ok (drop 3 (c # r))" using ok(2) ls by simp
      then have IH: "unquote_body (escape_body (drop 3 (c # r)) @ quote # t) = Some (drop 3 (c # r))"
        using "2.IH"(4) [OF high ok(1) Some] by blast
      have "escape_body (c # r) = u_escape m @ escape_body (drop 3 (c # r))"
        using high ok(1) Some by (simp add: escape_body.simps(2))
      moreover have "unquote_body (u_escape m @ x) = map_option (\<lambda>t. utf8_encode m @ t) (unquote_body x)" for x
        by (rule unquote_u_escape) (use ls in \<open>auto simp: is_surrogate_def\<close>)
      moreover have "utf8_encode m @ drop 3 (c # r) = c # r"
        using ls append_take_drop_id [of 3 "c # r"] by simp
      ultimately show ?thesis using IH by simp
    next
      case None
      have "utf8_ok (drop ?n (c # r))" by (rule ok(2))
      then have IH: "unquote_body (escape_body (drop ?n (c # r)) @ quote # t) = Some (drop ?n (c # r))"
        using "2.IH"(3) [OF high ok(1) None] by blast
      let ?x = "escape_body (drop ?n (c # r)) @ quote # t"
      have e: "escape_body (c # r) = take ?n (c # r) @ escape_body (drop ?n (c # r))"
        using high ok(1) None by (simp add: escape_body.simps(2))
      have len: "utf8_len (take ?n (c # r) @ ?x) = ?n" by (rule utf8_len_local [OF refl ok(1)])
      obtain r' where r': "take ?n (c # r) = c # r'" "length (c # r') = ?n"
        using ok(1) utf8_len_le [of "c # r"] by (cases ?n) auto
      have "c \<noteq> quote" "c \<noteq> backslash" "\<not> byte_of c < 32" using high by auto
      then have "unquote_body (c # r' @ ?x) = map_option (\<lambda>t. take ?n (c # r' @ ?x) @ t) (unquote_body (drop ?n (c # r' @ ?x)))"
        using len ok(1) unfolding r'(1) by (subst unquote_body.simps(2)) simp
      moreover have "take ?n (c # r' @ ?x) = c # r'" "drop ?n (c # r' @ ?x) = ?x"
        unfolding r'(2) [symmetric] by simp_all
      ultimately show ?thesis using IH e r'(1) append_take_drop_id [of ?n "c # r"] by simp
    qed
  qed
qed

lemma dec_enc_str: "utf8_ok s \<Longrightarrow> dec_str (enc_str s) old = Some s"
  using unquote_escape_body [of s "[]"] by (simp add: dec_str_def enc_str_def)

end
