(* ===== verification/Json_Print.thy ===== *)
theory Json_Print
  imports Json
begin

text \<open>
  What the encoder writes, the scanner accepts: the token predicate (a value's text that scans to
  exactly its end whatever delimiter follows, within a nesting depth), closed under strings,
  numbers, booleans, arrays and objects, and the members of a printed object.
\<close>

definition delim :: "string \<Rightarrow> bool" where
  "delim r \<longleftrightarrow> r = [] \<or> hd r \<in> {CHR '','', CHR '']'', CHR 0x7D}"

definition tok :: "int \<Rightarrow> string \<Rightarrow> bool" where
  "tok k v \<longleftrightarrow> v \<noteq> [] \<and> \<not> is_ws (hd v) \<and> hd v \<noteq> CHR '']'' \<and>
     (\<forall>n d r. length v < n \<longrightarrow> k \<le> d \<longrightarrow> delim r \<longrightarrow> scan_value n d (v @ r) = Some r)"

lemma delim_skip: "delim r \<Longrightarrow> skip_ws r = r"
  by (cases r) (auto simp: delim_def is_ws_def)

lemma tok_mono: "tok k v \<Longrightarrow> k \<le> k' \<Longrightarrow> tok k' v"
  by (auto simp: tok_def)

lemma tok_scan: "tok k v \<Longrightarrow> length v < n \<Longrightarrow> k \<le> d \<Longrightarrow> delim r \<Longrightarrow> scan_value n d (v @ r) = Some r"
  by (simp add: tok_def)

section \<open>Strings\<close>

lemma scan_u_escape: "scan_string (u_escape n @ x) = scan_string x"
proof -
  have "is_hex (hex_digit (m mod 16))" for m :: int using hex_digit_ok [of "m mod 16"] by simp
  then show ?thesis by (simp add: u_escape_def)
qed

lemma scan_escape_char: "scan_string (escape_char c @ x) = scan_string x"
  by (auto simp: escape_char_def scan_u_escape)

lemma scan_high: "list_all (\<lambda>c. 128 \<le> byte_of c) w \<Longrightarrow> scan_string (w @ x) = scan_string x"
  by (induction w) auto

lemma utf8_first_lo: "utf8_first b = (n, lo, hi) \<Longrightarrow> 1 < n \<Longrightarrow> 128 \<le> lo"
  by (auto simp: utf8_first_def split: if_splits)

lemma utf8_len_second:
  assumes "1 < utf8_len (c # r)"
  shows "\<exists>d r' m. r = d # r' \<and> utf8_len (c # r) = Suc (Suc m) \<and> 128 \<le> byte_of d \<and>
    list_all (in_range 0x80 0xBF) (take m r')"
proof -
  obtain n lo hi where f: "utf8_first (byte_of c) = (n, lo, hi)" by (cases "utf8_first (byte_of c)")
  have len: "utf8_len (c # r) = (if n \<le> 1 then n
      else if n \<le> length (c # r) \<and> in_range lo hi ((c # r) ! 1) \<and>
              list_all (in_range 0x80 0xBF) (take (n - 2) (drop 2 (c # r))) then n
      else 0)"
    by (simp only: utf8_len_def list.case f prod.case)
  have n: "\<not> n \<le> 1" using assms len by (cases "n \<le> 1") simp_all
  have ok: "n \<le> length (c # r) \<and> in_range lo hi ((c # r) ! 1) \<and>
              list_all (in_range 0x80 0xBF) (take (n - 2) (drop 2 (c # r)))"
    using assms len n by presburger
  have ln: "utf8_len (c # r) = n" using len n ok by presburger
  obtain m where m: "n = Suc (Suc m)" using n by (metis One_nat_def Suc_le_mono le0 not0_implies_Suc)
  obtain d r' where r: "r = d # r'" using ok m by (cases r) simp_all
  have "128 \<le> lo" using utf8_first_lo [OF f] n by simp
  then have "128 \<le> byte_of d" using ok r by (simp add: in_range_def)
  moreover have "list_all (in_range 0x80 0xBF) (take m r')" using ok r m by simp
  ultimately show ?thesis using r ln m by blast
qed

lemma utf8_high:
  assumes "128 \<le> byte_of c"
  shows "list_all (\<lambda>c. 128 \<le> byte_of c) (take (utf8_len (c # r)) (c # r))"
proof (cases "utf8_len (c # r) \<le> 1")
  case True
  then consider "utf8_len (c # r) = 0" | "utf8_len (c # r) = 1" by linarith
  then show ?thesis using assms by cases simp_all
next
  case False
  then obtain d r' m where d: "r = d # r'" "utf8_len (c # r) = Suc (Suc m)" "128 \<le> byte_of d"
    "list_all (in_range 0x80 0xBF) (take m r')"
    using utf8_len_second [of c r] by auto
  have "list_all (\<lambda>c. 128 \<le> byte_of c) (take m r')"
    using d(4) by (auto simp: list_all_iff in_range_def)
  then show ?thesis using assms d(1,3) unfolding d(2) by simp
qed

lemma scan_escape_body: "scan_string (escape_body s @ quote # r) = Some r"
proof (induction s rule: escape_body.induct)
  case 1
  then show ?case by simp
next
  case (2 c cs)
  show ?case
  proof (cases "byte_of c < 128")
    case True
    then show ?thesis using "2.IH"(1) by (simp add: escape_body.simps(2) scan_escape_char)
  next
    case False
    note high = False
    show ?thesis
    proof (cases "utf8_len (c # cs) = 0")
      case True
      then show ?thesis using "2.IH"(2) [OF high True] high by (simp add: escape_body.simps(2) scan_u_escape)
    next
      case False
      show ?thesis
      proof (cases "line_separator (c # cs)")
        case (Some m)
        then show ?thesis
          using "2.IH"(4) [OF high False Some] high False by (simp add: escape_body.simps(2) scan_u_escape)
      next
        case None
        have h: "128 \<le> byte_of c" using high by simp
        have "escape_body (c # cs) = take (utf8_len (c # cs)) (c # cs) @ escape_body (drop (utf8_len (c # cs)) (c # cs))"
          using high False None by (simp add: escape_body.simps(2))
        then show ?thesis
          using "2.IH"(3) [OF high False None] scan_high [OF utf8_high [OF h]] by simp
      qed
    qed
  qed
qed

lemma tok_str [simp]: "0 \<le> k \<Longrightarrow> tok k (enc_str s)"
proof -
  assume "0 \<le> k"
  have "scan_value n d (enc_str s @ r) = Some r" if "length (enc_str s) < n" for n d r
    using that scan_escape_body [of s r] by (cases n) (auto simp: enc_str_def)
  then show ?thesis by (simp add: tok_def enc_str_def is_ws_def)
qed

section \<open>Numbers and booleans\<close>

lemma dropWhile_digits:
  "list_all is_digit ds \<Longrightarrow> (r = [] \<or> \<not> is_digit (hd r)) \<Longrightarrow> dropWhile is_digit (ds @ r) = r"
  by (induction ds) (cases r, auto)

lemma delim_not_digit: "delim r \<Longrightarrow> r = [] \<or> \<not> is_digit (hd r)"
  by (auto simp: delim_def is_digit_def)

lemma delim_tail: "delim r \<Longrightarrow> Option.bind (scan_frac r) scan_exp = Some r"
  by (cases r) (auto simp: delim_def scan_frac_def scan_exp_def)

lemma enc_dec_head:
  assumes "0 < n"
  shows "\<exists>c ds. enc_dec n = c # ds \<and> is_digit c \<and> c \<noteq> CHR ''0'' \<and> list_all is_digit ds"
  using assms
proof (induction n rule: enc_dec.induct)
  case (1 n)
  show ?case
  proof (cases "n < 10")
    case True
    have "char_of (48 + n) \<noteq> CHR ''0''"
    proof
      assume "char_of (48 + n) = CHR ''0''"
      then have "byte_of (char_of (48 + n)) = byte_of (CHR ''0'')" by (rule arg_cong)
      then show False using True "1.prems" by (simp only: code_digit) simp
    qed
    then show ?thesis using True "1.prems" is_digit_char [of n] by (simp add: enc_dec.simps)
  next
    case False
    then have "0 < n div 10" by simp
    then obtain c ds where "enc_dec (n div 10) = c # ds" "is_digit c" "c \<noteq> CHR ''0''" "list_all is_digit ds"
      using "1.IH" [OF False] by blast
    then show ?thesis
      using False is_digit_char [of "n mod 10"] by (simp add: enc_dec.simps [of n])
  qed
qed

lemma enc_dec_zero: "enc_dec 0 = ''0''"
  by code_simp

lemma scan_value_number:
  assumes "is_digit e \<or> e = CHR ''-''"
  shows "scan_value (Suc m) d (e # x) = scan_number (e # x) \<and> \<not> is_ws e \<and> e \<noteq> CHR '']''"
proof -
  have "e \<noteq> CHR 0x7B" "e \<noteq> CHR ''[''" "e \<noteq> quote" "e \<noteq> CHR ''t''" "e \<noteq> CHR ''f''" "e \<noteq> CHR ''n''"
    "e \<noteq> CHR '']''" "\<not> is_ws e"
    using assms by (auto simp: is_digit_def is_ws_def)
  then show ?thesis by simp
qed

lemma scan_number_digits:
  assumes "0 \<le> n" and "delim r"
  shows "scan_number (enc_dec n @ r) = Some r \<and> scan_number (CHR ''-'' # enc_dec n @ r) = Some r"
proof (cases "n = 0")
  case True
  then show ?thesis using delim_tail [OF assms(2)] by (simp add: enc_dec_zero scan_number_def)
next
  case False
  then obtain c ds where c: "enc_dec n = c # ds" "is_digit c" "c \<noteq> CHR ''0''" "list_all is_digit ds"
    using enc_dec_head [of n] assms(1) by auto
  have "c \<noteq> CHR ''-''" using c(2) not_digit_minus by auto
  then show ?thesis
    using c dropWhile_digits [OF c(4) delim_not_digit [OF assms(2)]] delim_tail [OF assms(2)]
    by (simp add: scan_number_def)
qed

lemma tok_number:
  assumes "0 \<le> n" and "v = enc_dec n \<or> v = CHR ''-'' # enc_dec n" and "0 \<le> k"
  shows "tok k v"
proof -
  obtain c ds where c: "enc_dec n = c # ds" "is_digit c"
    using enc_dec_digits [OF assms(1)] by (cases "enc_dec n") auto
  obtain e es where e: "v = e # es" "is_digit e \<or> e = CHR ''-''"
    using assms(2) c by auto
  have sv: "scan_value n' d (v @ r) = Some r" if "length v < n'" "delim r" for n' d r
  proof -
    obtain m where m: "n' = Suc m" using \<open>length v < n'\<close> by (cases n') auto
    have "scan_value n' d (v @ r) = scan_number (v @ r)"
      using scan_value_number [OF e(2), of m d "es @ r"] e(1) m by simp
    moreover have "scan_number (v @ r) = Some r"
      using scan_number_digits [OF assms(1) that(2)] assms(2) by (elim disjE) simp_all
    ultimately show ?thesis by simp
  qed
  show ?thesis
    unfolding tok_def using sv scan_value_number [OF e(2), of 0 0 "[]"] e(1) by simp
qed

lemma tok_u64 [simp]: "0 \<le> k \<Longrightarrow> tok k (enc_u64 w)"
  unfolding enc_u64_def by (rule tok_number [of "uint w"]) simp_all

lemma tok_int [simp]: "0 \<le> k \<Longrightarrow> tok k (enc_int i)"
  by (rule tok_number [of "\<bar>i\<bar>"]) (simp_all add: enc_int_def)

lemma tok_bool [simp]: "0 \<le> k \<Longrightarrow> tok k (enc_bool b)"
proof -
  assume "0 \<le> k"
  have "scan_value n d (enc_bool b @ r) = Some r" if "length (enc_bool b) < n" for n d r
    using that by (cases n) (auto simp: enc_bool_def scan_lit_def)
  then show ?thesis by (simp add: tok_def enc_bool_def is_ws_def)
qed

section \<open>Objects and arrays\<close>

lemma enc_members_Cons:
  "enc_members ((k, v) # ms) = enc_str k @ CHR '':'' # v @ (if ms = [] then [] else CHR '','' # enc_members ms)"
  by (cases ms) auto

lemma enc_members_head: "ms \<noteq> [] \<Longrightarrow> \<exists>r. enc_members ms = quote # r"
  by (cases ms) (auto simp: enc_members_Cons enc_str_def)

lemma skip_ws_quote: "ms \<noteq> [] \<Longrightarrow> skip_ws (enc_members ms @ r) = enc_members ms @ r"
  using enc_members_head [of ms] by (auto simp: is_ws_def)

lemma skip_ws_tok: "tok k v \<Longrightarrow> skip_ws (v @ r) = v @ r"
  by (cases v) (auto simp: tok_def)

lemma scan_members_enc:
  assumes "ms \<noteq> []" and "\<forall>m \<in> set ms. tok k (snd m)" and "length (enc_members ms) < n" and "k \<le> d"
  shows "scan_members n d (enc_members ms @ CHR 0x7D # r) = Some r"
  using assms
proof (induction ms arbitrary: n)
  case (Cons m ms)
  obtain key v where m: "m = (key, v)" by (cases m)
  obtain n' where n: "n = Suc n'" using Cons.prems(3) by (cases n) auto
  have v: "tok k v" using Cons.prems(2) m by simp
  let ?rest = "(if ms = [] then [] else CHR '','' # enc_members ms) @ CHR 0x7D # r"
  have shape: "enc_members (m # ms) @ CHR 0x7D # r
      = quote # escape_body key @ quote # CHR '':'' # v @ ?rest"
    by (simp add: m enc_members_Cons enc_str_def)
  have len: "length v < n'" using Cons.prems(3) n by (simp add: m enc_members_Cons enc_str_def)
  have d: "delim ?rest" by (simp add: delim_def)
  have sv: "scan_value n' d (skip_ws (v @ ?rest)) = Some ?rest"
    unfolding skip_ws_tok [OF v] by (rule tok_scan [OF v len Cons.prems(4) d])
  have skip: "skip_ws (CHR '':'' # x) = CHR '':'' # x" for x by (simp add: is_ws_def)
  show ?case
  proof (cases "ms = []")
    case True
    then show ?thesis
      using sv unfolding shape n by (simp add: scan_escape_body skip is_ws_def)
  next
    case False
    have "scan_members n' d (enc_members ms @ CHR 0x7D # r) = Some r"
      by (rule Cons.IH) (use False Cons.prems n m in \<open>simp_all add: enc_members_Cons enc_str_def\<close>)
    then show ?thesis
      using sv False skip_ws_quote [OF False] unfolding shape n
      by (simp add: scan_escape_body skip is_ws_def)
  qed
qed simp

lemma tok_obj:
  assumes "\<forall>m \<in> set ms. tok k (snd m)" and "0 \<le> k"
  shows "tok (k + 1) (enc_obj ms)"
proof -
  have "scan_value n d (enc_obj ms @ r) = Some r" if "length (enc_obj ms) < n" "k + 1 \<le> d" for n d r
  proof -
    obtain n' where n: "n = Suc n'" using \<open>length (enc_obj ms) < n\<close> by (cases n) simp_all
    show ?thesis
    proof (cases "ms = []")
      case True
      then show ?thesis using that assms(2) n by (simp add: enc_obj_def is_ws_def)
    next
      case False
      obtain x where x: "enc_members ms = quote # x" using enc_members_head [OF False] by blast
      have "scan_members n' (d - 1) (enc_members ms @ CHR 0x7D # r) = Some r"
        by (rule scan_members_enc [OF False assms(1)]) (use that n in \<open>simp_all add: enc_obj_def\<close>)
      then show ?thesis using that assms(2) n x by (simp add: enc_obj_def is_ws_def)
    qed
  qed
  then show ?thesis by (simp add: tok_def enc_obj_def is_ws_def)
qed

lemma json_value_tok:
  assumes "tok max_nesting v"
  shows "json_value v = Some v"
proof -
  have "skip_ws v = v" using skip_ws_tok [OF assms, of "[]"] by simp
  moreover have "scan v = Some []"
    unfolding scan_def using tok_scan [OF assms, of "Suc (2 * length v)" max_nesting "[]"]
    by (simp add: delim_def del: scan_value.simps)
  ultimately show ?thesis by (simp add: json_value_def)
qed

lemma members_loop_enc:
  assumes "ms \<noteq> []" and "\<forall>m \<in> set ms. tok max_nesting (snd m) \<and> utf8_ok (fst m)"
    and "length (enc_members ms) < n"
  shows "members_loop n (enc_members ms @ CHR 0x7D # r) = Some ms"
  using assms
proof (induction ms arbitrary: n)
  case (Cons m ms)
  obtain key v where m: "m = (key, v)" by (cases m)
  obtain n' where n: "n = Suc n'" using Cons.prems(3) by (cases n) auto
  have v: "tok max_nesting v" and key: "utf8_ok key" using Cons.prems(2) m by simp_all
  let ?rest = "(if ms = [] then [] else CHR '','' # enc_members ms) @ CHR 0x7D # r"
  have shape: "enc_members (m # ms) @ CHR 0x7D # r
      = quote # escape_body key @ quote # CHR '':'' # v @ ?rest"
    by (simp add: m enc_members_Cons enc_str_def)
  have d: "delim ?rest" by (simp add: delim_def)
  have sv: "scan (v @ ?rest) = Some ?rest"
    unfolding scan_def by (rule tok_scan [OF v _ order_refl d]) simp
  have skip: "skip_ws (CHR '':'' # x) = CHR '':'' # x" for x by (simp add: is_ws_def)
  have uq: "unquote_body (escape_body key @ quote # x) = Some key" for x
    by (rule unquote_escape_body [OF key])
  have tk: "take (length (v @ ?rest) - length ?rest) (v @ ?rest) = v" by simp
  show ?case
  proof (cases "ms = []")
    case True
    have "scan (v @ CHR 0x7D # r) = Some (CHR 0x7D # r)" using sv True by simp
    then show ?thesis
      unfolding shape n using True m uq skip_ws_tok [OF v]
      by (simp add: scan_escape_body skip is_ws_def Let_def)
  next
    case False
    have IH: "members_loop n' (enc_members ms @ CHR 0x7D # r) = Some ms"
      by (rule Cons.IH) (use False Cons.prems n m in \<open>simp_all add: enc_members_Cons enc_str_def\<close>)
    have "scan (v @ CHR '','' # enc_members ms @ CHR 0x7D # r) = Some (CHR '','' # enc_members ms @ CHR 0x7D # r)"
      using sv False by simp
    then show ?thesis
      unfolding shape n using False m IH uq skip_ws_tok [OF v] skip_ws_quote [OF False]
      by (simp add: scan_escape_body skip is_ws_def Let_def)
  qed
qed simp

lemma json_members_enc:
  assumes "\<forall>m \<in> set ms. tok max_nesting (snd m) \<and> utf8_ok (fst m)"
  shows "json_members (enc_obj ms) = Some ms"
proof (cases "ms = []")
  case True
  then show ?thesis by (simp add: json_members_def enc_obj_def is_ws_def)
next
  case False
  obtain x where x: "enc_members ms = quote # x" using enc_members_head [OF False] by blast
  have "members_loop (length (enc_members ms @ [CHR 0x7D])) (enc_members ms @ [CHR 0x7D]) = Some ms"
    by (rule members_loop_enc [OF False assms]) simp
  then show ?thesis using x by (simp add: json_members_def enc_obj_def is_ws_def)
qed

text \<open>Decoding what the encoder printed is a fold over the members.\<close>

lemma unmarshal_obj:
  assumes "\<forall>m \<in> set ms. tok (max_nesting - 1) (snd m) \<and> utf8_ok (fst m)"
  shows "unmarshal (dec_struct fields) zero (enc_obj ms) = dec_members fields ms zero"
proof -
  have "tok (max_nesting - 1 + 1) (enc_obj ms)"
    by (rule tok_obj) (use assms in \<open>simp_all add: max_nesting_def\<close>)
  then have v: "json_value (enc_obj ms) = Some (enc_obj ms)" by (simp add: json_value_tok)
  have m: "json_members (enc_obj ms) = Some ms"
    by (rule json_members_enc) (use assms tok_mono [of "max_nesting - 1" _ max_nesting] in auto)
  have "enc_obj ms \<noteq> ''null''" by (simp add: enc_obj_def)
  then show ?thesis by (simp add: unmarshal_def dec_struct_def v m)
qed

end
