(* ===== verification/Frame.thy ===== *)
theory Frame
  imports Json_Print CloseReason
begin

text \<open>
  The v2 envelope, \<open>wire/frame.go\<close>: one record for every frame type, its JSON form, and the strict
  validation that runs on both encode and decode. A nil pointer field is \<open>None\<close>, an absent raw
  field is the empty text. Error texts are dropped: an error is its class, which is what callers
  test with \<open>errors.Is\<close>.
\<close>

section \<open>Data\<close>

definition protocol_version :: int where "protocol_version = 2"

definition type_hello :: string where "type_hello = ''hello''"
definition type_hello_ack :: string where "type_hello_ack = ''hello_ack''"
definition type_events :: string where "type_events = ''events''"
definition type_audience :: string where "type_audience = ''audience''"
definition type_request :: string where "type_request = ''request''"
definition type_respond :: string where "type_respond = ''respond''"
definition type_heartbeat :: string where "type_heartbeat = ''hb''"

lemmas frame_types = type_hello_def type_hello_ack_def type_events_def type_audience_def
  type_request_def type_respond_def type_heartbeat_def

datatype frame_error = ErrProtocol | ErrUnreadable | ErrEncode | ErrWrongType

definition reliable :: "string \<Rightarrow> bool" where
  "reliable t \<longleftrightarrow> t = type_events \<or> t = type_audience \<or> t = type_request"

definition known_type :: "string \<Rightarrow> bool" where
  "known_type t \<longleftrightarrow> t = type_hello \<or> t = type_hello_ack \<or> t = type_events \<or> t = type_audience \<or>
     t = type_request \<or> t = type_respond \<or> t = type_heartbeat"

record resume =
  rs_up :: u64
  rs_down :: u64

record caps =
  cp_deflate :: bool
  cp_transport_units :: bool
  cp_relay_ack :: bool

record relay_ack =
  rk_req_id :: string
  rk_chunk :: u64
  rk_done :: bool
  rk_abort :: bool

record audience =
  au_gen :: u64
  au_watchers :: int
  au_all :: bool
  au_sessions :: "string list"

record heartbeat_status =
  hb_ready :: bool
  hb_busy :: bool
  hb_booting :: bool
  hb_pending_count :: int
  hb_port :: int

record frame =
  fr_v :: int
  fr_type :: string
  fr_seq :: u64
  fr_ack :: u64
  fr_epoch :: u64
  fr_hub_boot :: u64
  fr_token :: string
  fr_resume :: "resume option"
  fr_caps :: "caps option"
  fr_ack_up :: u64
  fr_ack_down :: u64
  fr_audience :: "audience option"
  fr_liveness :: "liveness option"
  fr_limits :: "limits option"
  fr_events :: "string list"
  fr_gen :: u64
  fr_watchers :: int
  fr_all :: bool
  fr_sessions :: "string list"
  fr_req_id :: string
  fr_method :: string
  fr_path :: string
  fr_body :: string
  fr_chunk :: string
  fr_encoding :: string
  fr_more :: bool
  fr_chunk_seq :: u64
  fr_relay_acks :: "relay_ack list"
  fr_probe :: u64
  fr_probe_ack :: u64
  fr_status :: string

record hello =
  he_epoch :: u64
  he_token :: string
  he_resume :: "resume option"
  he_caps :: "caps option"

record hello_ack =
  ha_epoch :: u64
  ha_hub_boot :: u64
  ha_ack_up :: u64
  ha_ack_down :: u64
  ha_audience :: "audience option"
  ha_liveness :: "liveness option"
  ha_limits :: "limits option"
  ha_caps :: "caps option"
  ha_relay_acks :: "relay_ack list"

text \<open>The zero values Go starts a decode from.\<close>

definition zero_resume :: resume where "zero_resume = \<lparr>rs_up = 0, rs_down = 0\<rparr>"
definition zero_caps :: caps where
  "zero_caps = \<lparr>cp_deflate = False, cp_transport_units = False, cp_relay_ack = False\<rparr>"
definition zero_relay_ack :: relay_ack where
  "zero_relay_ack = \<lparr>rk_req_id = [], rk_chunk = 0, rk_done = False, rk_abort = False\<rparr>"
definition zero_audience :: audience where
  "zero_audience = \<lparr>au_gen = 0, au_watchers = 0, au_all = False, au_sessions = []\<rparr>"
definition zero_liveness :: liveness where "zero_liveness = \<lparr>lv_keepalive = 0, lv_idle = 0\<rparr>"
definition zero_limits :: limits where
  "zero_limits = \<lparr>lm_max_frame = 0, lm_max_relay_body = 0, lm_resume_window = 0\<rparr>"
definition zero_heartbeat :: heartbeat_status where
  "zero_heartbeat = \<lparr>hb_ready = False, hb_busy = False, hb_booting = False, hb_pending_count = 0, hb_port = 0\<rparr>"
definition zero_frame :: frame where
  "zero_frame = \<lparr>fr_v = 0, fr_type = [], fr_seq = 0, fr_ack = 0, fr_epoch = 0, fr_hub_boot = 0,
     fr_token = [], fr_resume = None, fr_caps = None, fr_ack_up = 0, fr_ack_down = 0,
     fr_audience = None, fr_liveness = None, fr_limits = None, fr_events = [], fr_gen = 0,
     fr_watchers = 0, fr_all = False, fr_sessions = [], fr_req_id = [], fr_method = [], fr_path = [],
     fr_body = [], fr_chunk = [], fr_encoding = [], fr_more = False, fr_chunk_seq = 0,
     fr_relay_acks = [], fr_probe = 0, fr_probe_ack = 0, fr_status = []\<rparr>"

section \<open>JSON forms\<close>

definition resume_fields :: "resume field list" where
  "resume_fields =
     [(''up'', \<lambda>raw r. map_option (\<lambda>x. r\<lparr>rs_up := x\<rparr>) (dec_u64 raw (rs_up r))),
      (''down'', \<lambda>raw r. map_option (\<lambda>x. r\<lparr>rs_down := x\<rparr>) (dec_u64 raw (rs_down r)))]"

definition caps_fields :: "caps field list" where
  "caps_fields =
     [(''deflate'', \<lambda>raw r. map_option (\<lambda>x. r\<lparr>cp_deflate := x\<rparr>) (dec_bool raw (cp_deflate r))),
      (''transportUnits'', \<lambda>raw r. map_option (\<lambda>x. r\<lparr>cp_transport_units := x\<rparr>) (dec_bool raw (cp_transport_units r))),
      (''relayAck'', \<lambda>raw r. map_option (\<lambda>x. r\<lparr>cp_relay_ack := x\<rparr>) (dec_bool raw (cp_relay_ack r)))]"

definition relay_ack_fields :: "relay_ack field list" where
  "relay_ack_fields =
     [(''reqId'', \<lambda>raw r. map_option (\<lambda>x. r\<lparr>rk_req_id := x\<rparr>) (dec_str raw (rk_req_id r))),
      (''chunk'', \<lambda>raw r. map_option (\<lambda>x. r\<lparr>rk_chunk := x\<rparr>) (dec_u64 raw (rk_chunk r))),
      (''done'', \<lambda>raw r. map_option (\<lambda>x. r\<lparr>rk_done := x\<rparr>) (dec_bool raw (rk_done r))),
      (''abort'', \<lambda>raw r. map_option (\<lambda>x. r\<lparr>rk_abort := x\<rparr>) (dec_bool raw (rk_abort r)))]"

definition audience_fields :: "audience field list" where
  "audience_fields =
     [(''gen'', \<lambda>raw r. map_option (\<lambda>x. r\<lparr>au_gen := x\<rparr>) (dec_u64 raw (au_gen r))),
      (''watchers'', \<lambda>raw r. map_option (\<lambda>x. r\<lparr>au_watchers := x\<rparr>) (dec_int raw (au_watchers r))),
      (''all'', \<lambda>raw r. map_option (\<lambda>x. r\<lparr>au_all := x\<rparr>) (dec_bool raw (au_all r))),
      (''sessions'', \<lambda>raw r. map_option (\<lambda>x. r\<lparr>au_sessions := x\<rparr>) (dec_list dec_str [] raw (au_sessions r)))]"

definition liveness_fields :: "liveness field list" where
  "liveness_fields =
     [(''keepalive'', \<lambda>raw r. map_option (\<lambda>x. r\<lparr>lv_keepalive := x\<rparr>) (dec_int raw (lv_keepalive r))),
      (''idle'', \<lambda>raw r. map_option (\<lambda>x. r\<lparr>lv_idle := x\<rparr>) (dec_int raw (lv_idle r)))]"

definition limits_fields :: "limits field list" where
  "limits_fields =
     [(''maxFrame'', \<lambda>raw r. map_option (\<lambda>x. r\<lparr>lm_max_frame := x\<rparr>) (dec_int raw (lm_max_frame r))),
      (''maxRelayBody'', \<lambda>raw r. map_option (\<lambda>x. r\<lparr>lm_max_relay_body := x\<rparr>) (dec_int raw (lm_max_relay_body r))),
      (''resumeWindow'', \<lambda>raw r. map_option (\<lambda>x. r\<lparr>lm_resume_window := x\<rparr>) (dec_int raw (lm_resume_window r)))]"

definition heartbeat_fields :: "heartbeat_status field list" where
  "heartbeat_fields =
     [(''ready'', \<lambda>raw r. map_option (\<lambda>x. r\<lparr>hb_ready := x\<rparr>) (dec_bool raw (hb_ready r))),
      (''busy'', \<lambda>raw r. map_option (\<lambda>x. r\<lparr>hb_busy := x\<rparr>) (dec_bool raw (hb_busy r))),
      (''booting'', \<lambda>raw r. map_option (\<lambda>x. r\<lparr>hb_booting := x\<rparr>) (dec_bool raw (hb_booting r))),
      (''pendingCount'', \<lambda>raw r. map_option (\<lambda>x. r\<lparr>hb_pending_count := x\<rparr>) (dec_int raw (hb_pending_count r))),
      (''port'', \<lambda>raw r. map_option (\<lambda>x. r\<lparr>hb_port := x\<rparr>) (dec_int raw (hb_port r)))]"

definition frame_fields :: "frame field list" where
  "frame_fields =
     [(''v'', \<lambda>raw f. map_option (\<lambda>x. f\<lparr>fr_v := x\<rparr>) (dec_int raw (fr_v f))),
      (''type'', \<lambda>raw f. map_option (\<lambda>x. f\<lparr>fr_type := x\<rparr>) (dec_str raw (fr_type f))),
      (''seq'', \<lambda>raw f. map_option (\<lambda>x. f\<lparr>fr_seq := x\<rparr>) (dec_u64 raw (fr_seq f))),
      (''ack'', \<lambda>raw f. map_option (\<lambda>x. f\<lparr>fr_ack := x\<rparr>) (dec_u64 raw (fr_ack f))),
      (''epoch'', \<lambda>raw f. map_option (\<lambda>x. f\<lparr>fr_epoch := x\<rparr>) (dec_u64 raw (fr_epoch f))),
      (''hubBoot'', \<lambda>raw f. map_option (\<lambda>x. f\<lparr>fr_hub_boot := x\<rparr>) (dec_u64 raw (fr_hub_boot f))),
      (''token'', \<lambda>raw f. map_option (\<lambda>x. f\<lparr>fr_token := x\<rparr>) (dec_str raw (fr_token f))),
      (''resume'', \<lambda>raw f. map_option (\<lambda>x. f\<lparr>fr_resume := x\<rparr>)
                      (dec_ptr (dec_struct resume_fields) zero_resume raw (fr_resume f))),
      (''caps'', \<lambda>raw f. map_option (\<lambda>x. f\<lparr>fr_caps := x\<rparr>)
                      (dec_ptr (dec_struct caps_fields) zero_caps raw (fr_caps f))),
      (''ackUp'', \<lambda>raw f. map_option (\<lambda>x. f\<lparr>fr_ack_up := x\<rparr>) (dec_u64 raw (fr_ack_up f))),
      (''ackDown'', \<lambda>raw f. map_option (\<lambda>x. f\<lparr>fr_ack_down := x\<rparr>) (dec_u64 raw (fr_ack_down f))),
      (''audience'', \<lambda>raw f. map_option (\<lambda>x. f\<lparr>fr_audience := x\<rparr>)
                      (dec_ptr (dec_struct audience_fields) zero_audience raw (fr_audience f))),
      (''liveness'', \<lambda>raw f. map_option (\<lambda>x. f\<lparr>fr_liveness := x\<rparr>)
                      (dec_ptr (dec_struct liveness_fields) zero_liveness raw (fr_liveness f))),
      (''limits'', \<lambda>raw f. map_option (\<lambda>x. f\<lparr>fr_limits := x\<rparr>)
                      (dec_ptr (dec_struct limits_fields) zero_limits raw (fr_limits f))),
      (''events'', \<lambda>raw f. map_option (\<lambda>x. f\<lparr>fr_events := x\<rparr>) (dec_list dec_raw [] raw (fr_events f))),
      (''gen'', \<lambda>raw f. map_option (\<lambda>x. f\<lparr>fr_gen := x\<rparr>) (dec_u64 raw (fr_gen f))),
      (''watchers'', \<lambda>raw f. map_option (\<lambda>x. f\<lparr>fr_watchers := x\<rparr>) (dec_int raw (fr_watchers f))),
      (''all'', \<lambda>raw f. map_option (\<lambda>x. f\<lparr>fr_all := x\<rparr>) (dec_bool raw (fr_all f))),
      (''sessions'', \<lambda>raw f. map_option (\<lambda>x. f\<lparr>fr_sessions := x\<rparr>) (dec_list dec_str [] raw (fr_sessions f))),
      (''reqId'', \<lambda>raw f. map_option (\<lambda>x. f\<lparr>fr_req_id := x\<rparr>) (dec_str raw (fr_req_id f))),
      (''method'', \<lambda>raw f. map_option (\<lambda>x. f\<lparr>fr_method := x\<rparr>) (dec_str raw (fr_method f))),
      (''path'', \<lambda>raw f. map_option (\<lambda>x. f\<lparr>fr_path := x\<rparr>) (dec_str raw (fr_path f))),
      (''body'', \<lambda>raw f. map_option (\<lambda>x. f\<lparr>fr_body := x\<rparr>) (dec_raw raw (fr_body f))),
      (''chunk'', \<lambda>raw f. map_option (\<lambda>x. f\<lparr>fr_chunk := x\<rparr>) (dec_str raw (fr_chunk f))),
      (''encoding'', \<lambda>raw f. map_option (\<lambda>x. f\<lparr>fr_encoding := x\<rparr>) (dec_str raw (fr_encoding f))),
      (''more'', \<lambda>raw f. map_option (\<lambda>x. f\<lparr>fr_more := x\<rparr>) (dec_bool raw (fr_more f))),
      (''chunkSeq'', \<lambda>raw f. map_option (\<lambda>x. f\<lparr>fr_chunk_seq := x\<rparr>) (dec_u64 raw (fr_chunk_seq f))),
      (''relayAcks'', \<lambda>raw f. map_option (\<lambda>x. f\<lparr>fr_relay_acks := x\<rparr>)
                      (dec_list (dec_struct relay_ack_fields) zero_relay_ack raw (fr_relay_acks f))),
      (''probe'', \<lambda>raw f. map_option (\<lambda>x. f\<lparr>fr_probe := x\<rparr>) (dec_u64 raw (fr_probe f))),
      (''probeAck'', \<lambda>raw f. map_option (\<lambda>x. f\<lparr>fr_probe_ack := x\<rparr>) (dec_u64 raw (fr_probe_ack f))),
      (''status'', \<lambda>raw f. map_option (\<lambda>x. f\<lparr>fr_status := x\<rparr>) (dec_raw raw (fr_status f)))]"

text \<open>The encoder writes a struct's fields in order, leaving out the empty ones.\<close>

definition enc_resume :: "resume \<Rightarrow> string" where
  "enc_resume r = enc_obj [(''up'', enc_u64 (rs_up r)), (''down'', enc_u64 (rs_down r))]"

definition enc_caps :: "caps \<Rightarrow> string" where
  "enc_caps c = enc_obj (omit_if (\<not> cp_deflate c) ''deflate'' (enc_bool (cp_deflate c)) @
     omit_if (\<not> cp_transport_units c) ''transportUnits'' (enc_bool (cp_transport_units c)) @
     omit_if (\<not> cp_relay_ack c) ''relayAck'' (enc_bool (cp_relay_ack c)))"

definition enc_relay_ack :: "relay_ack \<Rightarrow> string" where
  "enc_relay_ack a = enc_obj ((''reqId'', enc_str (rk_req_id a)) #
     omit_if (rk_chunk a = 0) ''chunk'' (enc_u64 (rk_chunk a)) @
     omit_if (\<not> rk_done a) ''done'' (enc_bool (rk_done a)) @
     omit_if (\<not> rk_abort a) ''abort'' (enc_bool (rk_abort a)))"

definition enc_audience :: "audience \<Rightarrow> string" where
  "enc_audience a = enc_obj (omit_if (au_gen a = 0) ''gen'' (enc_u64 (au_gen a)) @
     omit_if (au_watchers a = 0) ''watchers'' (enc_int (au_watchers a)) @
     omit_if (\<not> au_all a) ''all'' (enc_bool (au_all a)) @
     omit_if (au_sessions a = []) ''sessions'' (enc_list (map enc_str (au_sessions a))))"

definition enc_liveness :: "liveness \<Rightarrow> string" where
  "enc_liveness l = enc_obj (omit_if (lv_keepalive l = 0) ''keepalive'' (enc_int (lv_keepalive l)) @
     omit_if (lv_idle l = 0) ''idle'' (enc_int (lv_idle l)))"

definition enc_limits :: "limits \<Rightarrow> string" where
  "enc_limits l = enc_obj (omit_if (lm_max_frame l = 0) ''maxFrame'' (enc_int (lm_max_frame l)) @
     omit_if (lm_max_relay_body l = 0) ''maxRelayBody'' (enc_int (lm_max_relay_body l)) @
     omit_if (lm_resume_window l = 0) ''resumeWindow'' (enc_int (lm_resume_window l)))"

definition enc_heartbeat :: "heartbeat_status \<Rightarrow> string" where
  "enc_heartbeat h = enc_obj (omit_if (\<not> hb_ready h) ''ready'' (enc_bool (hb_ready h)) @
     omit_if (\<not> hb_busy h) ''busy'' (enc_bool (hb_busy h)) @
     omit_if (\<not> hb_booting h) ''booting'' (enc_bool (hb_booting h)) @
     omit_if (hb_pending_count h = 0) ''pendingCount'' (enc_int (hb_pending_count h)) @
     omit_if (hb_port h = 0) ''port'' (enc_int (hb_port h)))"

definition opt_member :: "string \<Rightarrow> ('a \<Rightarrow> string) \<Rightarrow> 'a option \<Rightarrow> (string \<times> string) list" where
  "opt_member k enc x = (case x of None \<Rightarrow> [] | Some v \<Rightarrow> [(k, enc v)])"

definition frame_members :: "frame \<Rightarrow> (string \<times> string) list" where
  "frame_members f =
     [(''v'', enc_int (fr_v f)), (''type'', enc_str (fr_type f))] @
     omit_if (fr_seq f = 0) ''seq'' (enc_u64 (fr_seq f)) @
     omit_if (fr_ack f = 0) ''ack'' (enc_u64 (fr_ack f)) @
     omit_if (fr_epoch f = 0) ''epoch'' (enc_u64 (fr_epoch f)) @
     omit_if (fr_hub_boot f = 0) ''hubBoot'' (enc_u64 (fr_hub_boot f)) @
     omit_if (fr_token f = []) ''token'' (enc_str (fr_token f)) @
     opt_member ''resume'' enc_resume (fr_resume f) @
     opt_member ''caps'' enc_caps (fr_caps f) @
     omit_if (fr_ack_up f = 0) ''ackUp'' (enc_u64 (fr_ack_up f)) @
     omit_if (fr_ack_down f = 0) ''ackDown'' (enc_u64 (fr_ack_down f)) @
     opt_member ''audience'' enc_audience (fr_audience f) @
     opt_member ''liveness'' enc_liveness (fr_liveness f) @
     opt_member ''limits'' enc_limits (fr_limits f) @
     omit_if (fr_events f = []) ''events'' (enc_list (map enc_raw (fr_events f))) @
     omit_if (fr_gen f = 0) ''gen'' (enc_u64 (fr_gen f)) @
     omit_if (fr_watchers f = 0) ''watchers'' (enc_int (fr_watchers f)) @
     omit_if (\<not> fr_all f) ''all'' (enc_bool (fr_all f)) @
     omit_if (fr_sessions f = []) ''sessions'' (enc_list (map enc_str (fr_sessions f))) @
     omit_if (fr_req_id f = []) ''reqId'' (enc_str (fr_req_id f)) @
     omit_if (fr_method f = []) ''method'' (enc_str (fr_method f)) @
     omit_if (fr_path f = []) ''path'' (enc_str (fr_path f)) @
     omit_if (fr_body f = []) ''body'' (enc_raw (fr_body f)) @
     omit_if (fr_chunk f = []) ''chunk'' (enc_str (fr_chunk f)) @
     omit_if (fr_encoding f = []) ''encoding'' (enc_str (fr_encoding f)) @
     omit_if (\<not> fr_more f) ''more'' (enc_bool (fr_more f)) @
     omit_if (fr_chunk_seq f = 0) ''chunkSeq'' (enc_u64 (fr_chunk_seq f)) @
     omit_if (fr_relay_acks f = []) ''relayAcks'' (enc_list (map enc_relay_ack (fr_relay_acks f))) @
     omit_if (fr_probe f = 0) ''probe'' (enc_u64 (fr_probe f)) @
     omit_if (fr_probe_ack f = 0) ''probeAck'' (enc_u64 (fr_probe_ack f)) @
     omit_if (fr_status f = []) ''status'' (enc_raw (fr_status f))"

section \<open>Validation\<close>

text \<open>The session scan of \<open>Audience.Validate\<close>; \<open>prev\<close> is the element before.\<close>

fun sessions_ok :: "string option \<Rightarrow> string list \<Rightarrow> bool" where
  "sessions_ok prev [] = True"
| "sessions_ok prev (s # ss) =
     (if s = [] then False
      else if (case prev of None \<Rightarrow> False | Some p \<Rightarrow> p \<ge> s) then False
      else sessions_ok (Some s) ss)"

definition audience_validate :: "audience \<Rightarrow> frame_error option" where
  "audience_validate a =
     (if au_gen a = 0 then Some ErrProtocol
      else if au_watchers a < 0 then Some ErrProtocol
      else if au_all a \<and> length (au_sessions a) > 0 then Some ErrProtocol
      else if \<not> sessions_ok None (au_sessions a) then Some ErrProtocol
      else None)"

fun validate_relay_acks :: "relay_ack list \<Rightarrow> frame_error option" where
  "validate_relay_acks [] = None"
| "validate_relay_acks (a # as) =
     (if rk_req_id a = [] then Some ErrProtocol
      else if rk_done a \<and> rk_abort a then Some ErrProtocol
      else validate_relay_acks as)"

definition event_seq_fields :: "u64 field list" where
  "event_seq_fields = [(''seq'', \<lambda>raw r. dec_u64 raw r)]"

definition event_seq :: "string \<Rightarrow> u64 option" where
  "event_seq raw = unmarshal (dec_struct event_seq_fields) 0 raw"

fun events_loop :: "u64 \<Rightarrow> string list \<Rightarrow> frame_error option" where
  "events_loop seq [] = None"
| "events_loop seq (raw # raws) =
     (case event_seq raw of
        None \<Rightarrow> Some ErrUnreadable
      | Some s \<Rightarrow> if s \<noteq> seq then Some ErrUnreadable else events_loop (seq + 1) raws)"

definition validate_events :: "frame \<Rightarrow> frame_error option" where
  "validate_events f =
     (if length (fr_events f) = 0 then Some ErrProtocol else events_loop (fr_seq f) (fr_events f))"

definition heartbeat :: "frame \<Rightarrow> frame_error + heartbeat_status" where
  "heartbeat f =
     (if length (fr_status f) = 0 then Inl ErrProtocol
      else case unmarshal (dec_struct heartbeat_fields) zero_heartbeat (fr_status f) of
             None \<Rightarrow> Inl ErrUnreadable | Some st \<Rightarrow> Inr st)"

definition respond_status :: "frame \<Rightarrow> int" where
  "respond_status f =
     (if length (fr_status f) = 0 then 0
      else case unmarshal dec_int 0 (fr_status f) of None \<Rightarrow> 0 | Some code \<Rightarrow> code)"

definition audience_state :: "frame \<Rightarrow> audience" where
  "audience_state f = \<lparr>au_gen = fr_gen f, au_watchers = fr_watchers f, au_all = fr_all f,
                       au_sessions = fr_sessions f\<rparr>"

definition set_audience_state :: "audience \<Rightarrow> frame \<Rightarrow> frame" where
  "set_audience_state a f = f\<lparr>fr_gen := au_gen a, fr_watchers := au_watchers a, fr_all := au_all a,
                              fr_sessions := au_sessions a\<rparr>"

definition protocol_if :: "bool \<Rightarrow> frame_error option \<Rightarrow> frame_error option" where
  "protocol_if bad rest = (if bad then Some ErrProtocol else rest)"

definition of_limits_error :: "limits_error option \<Rightarrow> frame_error option \<Rightarrow> frame_error option" where
  "of_limits_error e rest = (case e of None \<Rightarrow> rest | Some _ \<Rightarrow> Some ErrProtocol)"

text \<open>The \<open>switch f.Type\<close> at the end of \<open>validate\<close>.\<close>

definition validate_body :: "frame \<Rightarrow> frame_error option" where
  "validate_body f =
     (if fr_type f = type_hello then
        protocol_if (fr_epoch f = 0) (protocol_if (fr_resume f = None) None)
      else if fr_type f = type_hello_ack then
        protocol_if (fr_epoch f = 0)
          (protocol_if (fr_hub_boot f = 0)
            (case (fr_audience f, fr_liveness f, fr_limits f) of
               (Some a, Some l, Some m) \<Rightarrow>
                 (case audience_validate a of
                    Some e \<Rightarrow> Some e
                  | None \<Rightarrow> of_limits_error (validate_liveness l) (of_limits_error (validate_limits m) None))
             | _ \<Rightarrow> Some ErrProtocol))
      else if fr_type f = type_events then validate_events f
      else if fr_type f = type_audience then audience_validate (audience_state f)
      else if fr_type f = type_request then
        protocol_if (fr_req_id f = [] \<or> fr_method f = [] \<or> fr_path f = []) None
      else if fr_type f = type_respond then
        protocol_if (fr_req_id f = []) (protocol_if (fr_chunk_seq f = 0) None)
      else if fr_type f = type_heartbeat then
        protocol_if (length (fr_status f) = 0)
          (case heartbeat f of Inl e \<Rightarrow> Some e | Inr _ \<Rightarrow> None)
      else None)"

definition frame_validate :: "frame \<Rightarrow> frame_error option" where
  "frame_validate f =
     protocol_if (fr_v f \<noteq> protocol_version)
     (protocol_if (\<not> known_type (fr_type f))
     (protocol_if (if reliable (fr_type f) then fr_seq f = 0 else fr_seq f \<noteq> 0)
     (protocol_if (fr_type f \<noteq> type_hello \<and> fr_type f \<noteq> type_hello_ack \<and> fr_epoch f \<noteq> 0)
     (protocol_if (fr_type f \<noteq> type_hello_ack \<and> fr_hub_boot f \<noteq> 0)
     (protocol_if (fr_type f \<noteq> type_heartbeat \<and> (fr_probe f \<noteq> 0 \<or> fr_probe_ack f \<noteq> 0))
     (protocol_if (fr_type f \<noteq> type_respond \<and> fr_chunk_seq f \<noteq> 0)
     (protocol_if (fr_type f \<noteq> type_heartbeat \<and> fr_type f \<noteq> type_hello_ack \<and> length (fr_relay_acks f) > 0)
     (case validate_relay_acks (fr_relay_acks f) of
        Some e \<Rightarrow> Some e
      | None \<Rightarrow> validate_body f))))))))"

section \<open>Encode and decode\<close>

text \<open>\<open>json.Marshal\<close> fails where a raw field is no valid JSON.\<close>

definition raw_ok :: "string \<Rightarrow> bool" where
  "raw_ok raw \<longleftrightarrow> raw = [] \<or> json_valid raw"

definition frame_encode :: "frame \<Rightarrow> frame_error + string" where
  "frame_encode f =
     (case frame_validate f of
        Some e \<Rightarrow> Inl e
      | None \<Rightarrow>
          if raw_ok (fr_body f) \<and> raw_ok (fr_status f) \<and> list_all raw_ok (fr_events f)
          then Inr (enc_obj (frame_members f)) else Inl ErrEncode)"

definition frame_decode :: "string \<Rightarrow> frame_error + frame" where
  "frame_decode b =
     (case unmarshal (dec_struct frame_fields) zero_frame b of
        None \<Rightarrow> Inl ErrUnreadable
      | Some f \<Rightarrow> (case frame_validate f of Some e \<Rightarrow> Inl e | None \<Rightarrow> Inr f))"

definition trimmed_event :: "string \<Rightarrow> u64 \<Rightarrow> string" where
  "trimmed_event session_id seq = enc_obj [(''type'', enc_str ''trimmed''),
     (''sessionId'', enc_str session_id), (''seq'', enc_u64 seq)]"

definition frame_hello :: "frame \<Rightarrow> frame_error + hello" where
  "frame_hello f =
     (if fr_type f \<noteq> type_hello then Inl ErrWrongType
      else Inr \<lparr>he_epoch = fr_epoch f, he_token = fr_token f, he_resume = fr_resume f, he_caps = fr_caps f\<rparr>)"

definition frame_hello_ack :: "frame \<Rightarrow> frame_error + hello_ack" where
  "frame_hello_ack f =
     (if fr_type f \<noteq> type_hello_ack then Inl ErrWrongType
      else Inr \<lparr>ha_epoch = fr_epoch f, ha_hub_boot = fr_hub_boot f, ha_ack_up = fr_ack_up f,
                ha_ack_down = fr_ack_down f, ha_audience = fr_audience f, ha_liveness = fr_liveness f,
                ha_limits = fr_limits f, ha_caps = fr_caps f, ha_relay_acks = fr_relay_acks f\<rparr>)"

definition set_heartbeat :: "heartbeat_status \<Rightarrow> frame \<Rightarrow> frame" where
  "set_heartbeat st f = f\<lparr>fr_status := enc_heartbeat st\<rparr>"

definition set_respond_status :: "int \<Rightarrow> frame \<Rightarrow> frame" where
  "set_respond_status code f = f\<lparr>fr_status := enc_int code\<rparr>"

definition new_hello :: "hello \<Rightarrow> frame" where
  "new_hello h = zero_frame\<lparr>fr_v := protocol_version, fr_type := type_hello, fr_epoch := he_epoch h,
     fr_token := he_token h, fr_resume := he_resume h, fr_caps := he_caps h\<rparr>"

definition new_hello_ack :: "hello_ack \<Rightarrow> frame" where
  "new_hello_ack a = zero_frame\<lparr>fr_v := protocol_version, fr_type := type_hello_ack,
     fr_epoch := ha_epoch a, fr_hub_boot := ha_hub_boot a, fr_ack_up := ha_ack_up a,
     fr_ack_down := ha_ack_down a, fr_audience := ha_audience a, fr_liveness := ha_liveness a,
     fr_limits := ha_limits a, fr_caps := ha_caps a, fr_relay_acks := ha_relay_acks a\<rparr>"

definition new_audience :: "u64 \<Rightarrow> u64 \<Rightarrow> audience \<Rightarrow> frame" where
  "new_audience seq ack a = set_audience_state a
     (zero_frame\<lparr>fr_v := protocol_version, fr_type := type_audience, fr_seq := seq, fr_ack := ack\<rparr>)"

definition new_heartbeat :: "u64 \<Rightarrow> heartbeat_status \<Rightarrow> frame" where
  "new_heartbeat ack st = set_heartbeat st
     (zero_frame\<lparr>fr_v := protocol_version, fr_type := type_heartbeat, fr_ack := ack\<rparr>)"

definition new_heartbeat_probe :: "u64 \<Rightarrow> u64 \<Rightarrow> heartbeat_status \<Rightarrow> bool \<Rightarrow> frame" where
  "new_heartbeat_probe ack nonce st ack_probe =
     (let f = new_heartbeat ack st
      in if nonce \<noteq> 0 then (if ack_probe then f\<lparr>fr_probe_ack := nonce\<rparr> else f\<lparr>fr_probe := nonce\<rparr>) else f)"

section \<open>Validation lemmas\<close>

lemma protocol_if_None [simp]: "protocol_if b rest = None \<longleftrightarrow> \<not> b \<and> rest = None"
  by (simp add: protocol_if_def)

lemma sessions_ok_iff:
  "sessions_ok prev ss \<longleftrightarrow> [] \<notin> set ss \<and> sorted_wrt (<) ((case prev of None \<Rightarrow> [] | Some p \<Rightarrow> [p]) @ ss)"
proof (induction prev ss rule: sessions_ok.induct)
  case (2 prev s ss)
  have tail: "sorted_wrt (<) (p # s # ss) \<longleftrightarrow> p < s \<and> sorted_wrt (<) (s # ss)" for p :: string
    by (auto intro: less_trans)
  show ?case
    using 2 by (cases prev) (auto simp: not_le intro: less_trans)
qed (simp split: option.split)

lemma audience_validate_iff:
  "audience_validate a = None \<longleftrightarrow> au_gen a \<noteq> 0 \<and> 0 \<le> au_watchers a \<and> (au_all a \<longrightarrow> au_sessions a = []) \<and>
     [] \<notin> set (au_sessions a) \<and> sorted_wrt (<) (au_sessions a)"
  by (auto simp: audience_validate_def sessions_ok_iff)

lemma validate_relay_acks_iff:
  "validate_relay_acks as = None \<longleftrightarrow> (\<forall>a \<in> set as. rk_req_id a \<noteq> [] \<and> \<not> (rk_done a \<and> rk_abort a))"
  by (induction as) auto

lemma events_loop_iff:
  "events_loop seq raws = None \<longleftrightarrow> (\<forall>i < length raws. event_seq (raws ! i) = Some (seq + of_nat i))"
proof (induction raws arbitrary: seq)
  case (Cons raw raws)
  have "(\<forall>i < length (raw # raws). event_seq ((raw # raws) ! i) = Some (seq + of_nat i)) \<longleftrightarrow>
      event_seq raw = Some seq \<and> (\<forall>i < length raws. event_seq (raws ! i) = Some (seq + 1 + of_nat i))"
    by (auto simp: less_Suc_eq_0_disj add.assoc)
  then show ?case using Cons.IH [of "seq + 1"] by (auto split: option.splits)
qed simp

lemma events_loop_class: "events_loop seq raws = Some e \<Longrightarrow> e = ErrUnreadable"
  by (induction seq raws rule: events_loop.induct) (auto split: option.splits if_splits)

section \<open>Printed payloads\<close>

lemma max_nesting_pos [simp]: "0 \<le> max_nesting" "0 \<le> max_nesting - 1" "1 \<le> max_nesting"
  by (simp_all add: max_nesting_def)

lemma utf8_ok_ascii: "list_all (\<lambda>c. byte_of c < 128) s \<Longrightarrow> utf8_ok s"
  by (induction s) (simp_all add: utf8_ok.simps(2) utf8_len_def utf8_first_small)

lemma set_omit_if: "m \<in> set (omit_if e k v) \<longleftrightarrow> \<not> e \<and> m = (k, v)"
  by (auto simp: omit_if_def)

lemma dec_members_omit:
  assumes "find_field fds k = Some dec"
  shows "dec_members fds (omit_if e k v @ ms) r
    = (if e then dec_members fds ms r else Option.bind (dec v r) (dec_members fds ms))"
  using assms by (simp add: omit_if_def)

lemma enc_not_null [simp]: "enc_u64 w \<noteq> ''null''" "enc_int i \<noteq> ''null''" "enc_bool b \<noteq> ''null''"
  "enc_str s \<noteq> ''null''"
proof -
  show "enc_u64 w \<noteq> ''null''"
    using enc_dec_digits [of "uint w"] by (auto simp: enc_u64_def is_digit_def)
  show "enc_int i \<noteq> ''null''"
    using enc_dec_digits [of i] by (auto simp: enc_int_def is_digit_def)
qed (simp_all add: enc_bool_def enc_str_def)

lemma dec_enc_scalar [simp]:
  "dec_u64 (enc_u64 w) old = Some w"
  "- (2 ^ 63) \<le> i \<Longrightarrow> i < 2 ^ 63 \<Longrightarrow> dec_int (enc_int i) old' = Some i"
  "dec_bool (enc_bool b) old'' = Some b"
  by (simp_all add: dec_u64_def dec_int_def parse_enc_int dec_bool_def) (simp add: enc_bool_def)

definition int64 :: "int \<Rightarrow> bool" where "int64 i \<longleftrightarrow> - (2 ^ 63) \<le> i \<and> i < 2 ^ 63"

lemma heartbeat_find:
  "find_field heartbeat_fields ''ready'' = Some (\<lambda>raw r. map_option (\<lambda>x. r\<lparr>hb_ready := x\<rparr>) (dec_bool raw (hb_ready r)))"
  "find_field heartbeat_fields ''busy'' = Some (\<lambda>raw r. map_option (\<lambda>x. r\<lparr>hb_busy := x\<rparr>) (dec_bool raw (hb_busy r)))"
  "find_field heartbeat_fields ''booting'' = Some (\<lambda>raw r. map_option (\<lambda>x. r\<lparr>hb_booting := x\<rparr>) (dec_bool raw (hb_booting r)))"
  "find_field heartbeat_fields ''pendingCount'' = Some (\<lambda>raw r. map_option (\<lambda>x. r\<lparr>hb_pending_count := x\<rparr>) (dec_int raw (hb_pending_count r)))"
  "find_field heartbeat_fields ''port'' = Some (\<lambda>raw r. map_option (\<lambda>x. r\<lparr>hb_port := x\<rparr>) (dec_int raw (hb_port r)))"
  by (simp_all add: find_field_def heartbeat_fields_def)

lemma unmarshal_heartbeat:
  assumes "int64 (hb_pending_count st)" and "int64 (hb_port st)"
  shows "unmarshal (dec_struct heartbeat_fields) zero_heartbeat (enc_heartbeat st) = Some st"
proof -
  let ?ms = "omit_if (\<not> hb_ready st) ''ready'' (enc_bool (hb_ready st)) @
     omit_if (\<not> hb_busy st) ''busy'' (enc_bool (hb_busy st)) @
     omit_if (\<not> hb_booting st) ''booting'' (enc_bool (hb_booting st)) @
     omit_if (hb_pending_count st = 0) ''pendingCount'' (enc_int (hb_pending_count st)) @
     omit_if (hb_port st = 0) ''port'' (enc_int (hb_port st)) @ []"
  have "\<forall>m \<in> set ?ms. tok (max_nesting - 1) (snd m) \<and> utf8_ok (fst m)"
    by (auto simp: set_omit_if max_nesting_def intro!: utf8_ok_ascii)
  note u = unmarshal_obj [OF this, of heartbeat_fields zero_heartbeat]
  have "dec_members heartbeat_fields ?ms zero_heartbeat = Some st"
    using assms unfolding int64_def
    by (cases st) (simp add: dec_members_omit [OF heartbeat_find(1)] dec_members_omit [OF heartbeat_find(2)]
        dec_members_omit [OF heartbeat_find(3)] dec_members_omit [OF heartbeat_find(4)]
        dec_members_omit [OF heartbeat_find(5)] zero_heartbeat_def del: append_Nil2)
  then show ?thesis using u by (simp add: enc_heartbeat_def)
qed

lemma event_seq_trimmed: "event_seq (trimmed_event sid seq) = Some seq"
proof -
  let ?ms = "[(''type'', enc_str ''trimmed''), (''sessionId'', enc_str sid), (''seq'', enc_u64 seq)]"
  have "\<forall>m \<in> set ?ms. tok (max_nesting - 1) (snd m) \<and> utf8_ok (fst m)"
    by (auto simp: max_nesting_def intro!: utf8_ok_ascii)
  note u = unmarshal_obj [OF this, of event_seq_fields 0]
  have f: "find_field event_seq_fields ''type'' = None" "find_field event_seq_fields ''sessionId'' = None"
    "find_field event_seq_fields ''seq'' = Some (\<lambda>raw r. dec_u64 raw r)"
    by (simp_all add: find_field_def event_seq_fields_def)
  show ?thesis using u by (simp add: event_seq_def trimmed_event_def f)
qed

section \<open>Properties\<close>

text \<open>C34: What a frame that passes validation may be: version 2 and a known type; a sequence number
  exactly on the reliable types; an epoch only in the handshake and a hub incarnation only in
  \<open>hello_ack\<close>, probes only on a heartbeat, a chunk number exactly on \<open>respond\<close>, and a relay table
  with named requests, none of them both done and aborted. Both \<open>Encode\<close> and \<open>Decode\<close> guarantee it.\<close>

theorem valid_frame_shape:
  assumes "frame_decode b = Inr f \<or> frame_encode f = Inr b"
  shows "fr_v f = 2 \<and> known_type (fr_type f) \<and> (fr_seq f \<noteq> 0 \<longleftrightarrow> reliable (fr_type f)) \<and>
    (fr_epoch f \<noteq> 0 \<longleftrightarrow> fr_type f \<in> {type_hello, type_hello_ack}) \<and>
    (fr_hub_boot f \<noteq> 0 \<longleftrightarrow> fr_type f = type_hello_ack) \<and>
    (fr_probe f \<noteq> 0 \<or> fr_probe_ack f \<noteq> 0 \<longrightarrow> fr_type f = type_heartbeat) \<and>
    (fr_chunk_seq f \<noteq> 0 \<longleftrightarrow> fr_type f = type_respond) \<and>
    (fr_relay_acks f \<noteq> [] \<longrightarrow> fr_type f \<in> {type_heartbeat, type_hello_ack}) \<and>
    (\<forall>a \<in> set (fr_relay_acks f). rk_req_id a \<noteq> [] \<and> \<not> (rk_done a \<and> rk_abort a))"
proof -
  have v: "frame_validate f = None"
    using assms by (auto simp: frame_decode_def frame_encode_def split: option.splits if_splits)
  then have acks: "validate_relay_acks (fr_relay_acks f) = None" and body: "validate_body f = None"
    by (auto simp: frame_validate_def split: option.splits)
  have hs: "fr_type f = type_hello \<or> fr_type f = type_hello_ack \<longrightarrow> fr_epoch f \<noteq> 0"
    "fr_type f = type_hello_ack \<longrightarrow> fr_hub_boot f \<noteq> 0"
    "fr_type f = type_respond \<longrightarrow> fr_chunk_seq f \<noteq> 0"
    using body by (auto simp: validate_body_def frame_types split: if_splits)
  show ?thesis
    using v acks hs unfolding validate_relay_acks_iff
    by (auto simp: frame_validate_def protocol_version_def split: if_splits)
qed

lemma valid_frame_shape_witness:
  "\<exists>b. frame_encode (zero_frame\<lparr>fr_v := 2, fr_type := type_respond, fr_req_id := ''r1'', fr_chunk_seq := 1\<rparr>) = Inr b
     \<and> \<not> reliable type_respond"
proof -
  let ?f = "zero_frame\<lparr>fr_v := 2, fr_type := type_respond, fr_req_id := ''r1'', fr_chunk_seq := 1\<rparr>"
  obtain b where b: "frame_encode ?f = Inr b"
    by (simp add: frame_encode_def frame_validate_def protocol_if_def zero_frame_def frame_types
        known_type_def reliable_def protocol_version_def validate_body_def raw_ok_def)
  have "fr_seq ?f = 0" "fr_type ?f = type_respond" by (simp_all add: zero_frame_def)
  then show ?thesis using valid_frame_shape [of b ?f] b by auto
qed

text \<open>The audience a receiver may apply is absolute and canonical: a nonzero generation, no
  negative count, no session list beside \<open>all\<close>, and the sessions strictly sorted, so each is named
  once and none is empty. Validation accepts exactly those.\<close>

theorem audience_canonical:
  "audience_validate a = None \<longleftrightarrow> au_gen a \<noteq> 0 \<and> 0 \<le> au_watchers a \<and>
     (au_all a \<longrightarrow> au_sessions a = []) \<and> [] \<notin> set (au_sessions a) \<and> sorted_wrt (<) (au_sessions a)"
  by (rule audience_validate_iff)

lemma audience_canonical_witness:
  "audience_validate \<lparr>au_gen = 3, au_watchers = 1, au_all = False, au_sessions = [''a'', ''b'']\<rparr> = None"
  using audience_canonical [of "\<lparr>au_gen = 3, au_watchers = 1, au_all = False, au_sessions = [''a'', ''b'']\<rparr>"]
  by (simp add: list_less_def)

text \<open>A batch of events is accepted exactly when it is one gapless run from the frame's number;
  a hole is an unreadable frame, never a skipped event.\<close>

theorem events_batch_contiguous:
  "(validate_events f = None \<longleftrightarrow> fr_events f \<noteq> [] \<and>
      (\<forall>i < length (fr_events f). event_seq (fr_events f ! i) = Some (fr_seq f + of_nat i))) \<and>
   (validate_events f = Some e \<longrightarrow> fr_events f \<noteq> [] \<longrightarrow> e = ErrUnreadable)"
  using events_loop_class by (auto simp: validate_events_def events_loop_iff)

lemma events_batch_contiguous_witness:
  "validate_events (zero_frame\<lparr>fr_seq := 5, fr_events := [trimmed_event ''s'' 5, trimmed_event ''s'' 6]\<rparr>) = None"
  using events_batch_contiguous [of "zero_frame\<lparr>fr_seq := 5, fr_events := [trimmed_event ''s'' 5, trimmed_event ''s'' 6]\<rparr>" ErrProtocol]
  by (auto simp: event_seq_trimmed less_Suc_eq)

text \<open>Trimming an event keeps the run. Replacing any event of an accepted batch by the
  placeholder for its number leaves a batch that is still accepted, whatever the session id
  contains: the placeholder's JSON text always reads back with the number it was made from.\<close>

theorem trimming_keeps_batch:
  assumes "validate_events f = None" and "i < length (fr_events f)"
  shows "validate_events (f\<lparr>fr_events := (fr_events f)[i := trimmed_event sid (fr_seq f + of_nat i)]\<rparr>) = None"
  using assms by (auto simp: validate_events_def events_loop_iff event_seq_trimmed nth_list_update split: if_splits)

lemma trimming_keeps_batch_witness:
  "validate_events (zero_frame\<lparr>fr_seq := 5, fr_events := [trimmed_event [CHR 0xFF] 5, trimmed_event ''s'' 6]\<rparr>) = None"
  using trimming_keeps_batch [of "zero_frame\<lparr>fr_seq := 5, fr_events := [trimmed_event ''s'' 5, trimmed_event ''s'' 6]\<rparr>" 0 "[CHR 0xFF]"]
  by (simp add: validate_events_def events_loop_iff event_seq_trimmed less_Suc_eq all_conj_distrib nth_Cons')

text \<open>A heartbeat built by either constructor passes validation and the snapshot it carries
  reads back exactly, with the nonce in the one field the caller asked for.\<close>

theorem heartbeat_round_trip:
  assumes "int64 (hb_pending_count st)" and "int64 (hb_port st)"
  shows "heartbeat (new_heartbeat_probe ack nonce st ack_probe) = Inr st \<and>
    frame_validate (new_heartbeat_probe ack nonce st ack_probe) = None \<and>
    fr_probe (new_heartbeat_probe ack nonce st ack_probe) = (if ack_probe then 0 else nonce) \<and>
    fr_probe_ack (new_heartbeat_probe ack nonce st ack_probe) = (if ack_probe then nonce else 0)"
proof -
  let ?f = "new_heartbeat_probe ack nonce st ack_probe"
  have sel: "fr_status ?f = enc_heartbeat st" "fr_v ?f = 2" "fr_type ?f = type_heartbeat" "fr_seq ?f = 0"
    "fr_epoch ?f = 0" "fr_hub_boot ?f = 0" "fr_chunk_seq ?f = 0" "fr_relay_acks ?f = []"
    "fr_probe ?f = (if ack_probe then 0 else nonce)" "fr_probe_ack ?f = (if ack_probe then nonce else 0)"
    by (simp_all add: new_heartbeat_probe_def new_heartbeat_def set_heartbeat_def zero_frame_def
        protocol_version_def Let_def)
  have len: "fr_status ?f \<noteq> []" by (simp add: sel enc_heartbeat_def enc_obj_def)
  then have hb: "heartbeat ?f = Inr st"
    by (simp add: heartbeat_def sel unmarshal_heartbeat [OF assms])
  have "validate_body ?f = None" using hb len by (simp add: validate_body_def sel(3)) (simp add: frame_types)
  then have "frame_validate ?f = None"
    by (simp add: frame_validate_def sel protocol_version_def) (simp add: known_type_def reliable_def frame_types)
  then show ?thesis using hb sel by blast
qed

lemma heartbeat_round_trip_witness:
  "heartbeat (new_heartbeat_probe 7 9 \<lparr>hb_ready = True, hb_busy = False, hb_booting = False,
      hb_pending_count = 3, hb_port = 8080\<rparr> True)
   = Inr \<lparr>hb_ready = True, hb_busy = False, hb_booting = False, hb_pending_count = 3, hb_port = 8080\<rparr>"
  by (rule heartbeat_round_trip [THEN conjunct1]) (simp_all add: int64_def)

end
