(* ===== verification/Relay.thy ===== *)
theory Relay
  imports Frame
begin

text \<open>
  The request relay of \<open>internal/hub/hub.go\<close>: the table of pending requests per host, the ordered
  assembly of a chunked answer, and the tombstones that feed the per-request acknowledgement
  table. A pending request is the value stored under its id (the program holds a pointer to it);
  what reaches the waiting browser request (a send on \<open>resp\<close>, a close of \<open>done\<close>) is appended to
  \<open>rl_out\<close>, oldest first. Wall-clock reads are the argument \<open>now\<close>. The counter of request ids is an
  \<open>atomic.Int64\<close> that starts at zero and is only incremented; it is an integer here, which is the same
  for the first 2^63 - 1 requests of a process.
\<close>

section \<open>Bounds\<close>

definition max_pending_relay_per_host :: nat where "max_pending_relay_per_host = 16"
definition host_relay_chunk_size :: int where "host_relay_chunk_size = 256 * 2 ^ 10"
definition max_chunked_relay_body :: int where "max_chunked_relay_body = 28 * 2 ^ 20"

definition max_parked_relay_chunks_per_host :: int where
  "max_parked_relay_chunks_per_host = max 256 (2 * (max_chunked_relay_body div host_relay_chunk_size + 1))"

definition max_parked_relay_bytes_per_host :: int where
  "max_parked_relay_bytes_per_host = 2 * (max_chunked_relay_body * 4 div 3 + host_relay_chunk_size)"

definition max_relay_tombstones_per_host :: nat where "max_relay_tombstones_per_host = 256"
definition relay_tombstone_ttl :: duration where "relay_tombstone_ttl = 5 * minute"

section \<open>Base64\<close>

text \<open>
  \<open>base64.StdEncoding.DecodeString\<close>: carriage returns and line feeds are skipped, the padding is
  required and nothing may follow it.
\<close>

definition b64_val :: "char \<Rightarrow> int option" where
  "b64_val c =
     (let b = byte_of c
      in if 65 \<le> b \<and> b \<le> 90 then Some (b - 65)
         else if 97 \<le> b \<and> b \<le> 122 then Some (b - 71)
         else if 48 \<le> b \<and> b \<le> 57 then Some (b + 4)
         else if b = 43 then Some 62 else if b = 47 then Some 63 else None)"

fun b64_groups :: "string \<Rightarrow> string option" where
  "b64_groups [] = Some []"
| "b64_groups (a # b # c # d # r) =
     (case (b64_val a, b64_val b) of
        (Some x, Some y) \<Rightarrow>
          if c = CHR ''='' then
            (if d = CHR ''='' \<and> r = [] then Some [char_of (x * 4 + y div 16)] else None)
          else
            (case b64_val c of
               None \<Rightarrow> None
             | Some z \<Rightarrow>
                 if d = CHR ''='' then
                   (if r = [] then Some [char_of (x * 4 + y div 16), char_of (y mod 16 * 16 + z div 4)] else None)
                 else
                   (case b64_val d of
                      None \<Rightarrow> None
                    | Some w \<Rightarrow>
                        map_option (\<lambda>t. char_of (x * 4 + y div 16) # char_of (y mod 16 * 16 + z div 4) #
                                        char_of (z mod 4 * 64 + w) # t) (b64_groups r)))
      | _ \<Rightarrow> None)"
| "b64_groups _ = None"

definition b64_decode :: "string \<Rightarrow> string option" where
  "b64_decode s = b64_groups (filter (\<lambda>c. c \<noteq> CHR 0x0A \<and> c \<noteq> CHR 0x0D) s)"

section \<open>State\<close>

record pending_req =
  pr_next_chunk :: u64
  pr_final_chunk :: u64
  pr_parked :: "(u64, frame) gomap"
  pr_parked_bytes :: int
  pr_chunks :: string
  pr_chunk_status :: int
  pr_chunk_status_set :: bool
  pr_chunked :: bool

definition new_pending :: pending_req where
  "new_pending = \<lparr>pr_next_chunk = 0, pr_final_chunk = 0, pr_parked = [], pr_parked_bytes = 0,
     pr_chunks = [], pr_chunk_status = 0, pr_chunk_status_set = False, pr_chunked = False\<rparr>"

text \<open>
  The error texts the hub writes into a failed answer, as what they say; \<open>ErrorBody\<close> is the JSON
  object with \<open>ok: false\<close> and that text.
\<close>

datatype relay_reason =
    ReasonOutOfOrder | ReasonEncoding string | ReasonBadBase64 | ReasonTooLarge | ReasonNotJson
  | ReasonMessage string

datatype relay_body = RawBody string | ErrorBody relay_reason

record relay_response =
  rr_status :: int
  rr_body :: relay_body

record tombstone =
  ts_ack :: relay_ack
  ts_at :: time

datatype relay_outcome = Answered relay_response | HostGone

record relay =
  rl_pending :: "(string, (string, pending_req) gomap) gomap"
  rl_tombs :: "(string, (string, tombstone) gomap) gomap"
  rl_late :: u64
  rl_next_req :: int
  rl_out :: "(string \<times> string \<times> relay_outcome) list"

text \<open>Reading a nil map gives an empty one.\<close>

definition pend :: "relay \<Rightarrow> string \<Rightarrow> (string, pending_req) gomap" where
  "pend st host = (case gm_get (rl_pending st) host of None \<Rightarrow> [] | Some m \<Rightarrow> m)"

definition tombs :: "relay \<Rightarrow> string \<Rightarrow> (string, tombstone) gomap" where
  "tombs st host = (case gm_get (rl_tombs st) host of None \<Rightarrow> [] | Some m \<Rightarrow> m)"

text \<open>A write through the pointer: the entry is in the table.\<close>

definition put_pending :: "string \<Rightarrow> string \<Rightarrow> pending_req \<Rightarrow> relay \<Rightarrow> relay" where
  "put_pending host req p st = st\<lparr>rl_pending := gm_set host (gm_set req p (pend st host)) (rl_pending st)\<rparr>"

text \<open>\<open>delete(m, reqID)\<close>, and the host's map with it when it is empty.\<close>

definition del_pending :: "string \<Rightarrow> string \<Rightarrow> relay \<Rightarrow> relay" where
  "del_pending host req st =
     (let m = gm_del req (pend st host)
      in st\<lparr>rl_pending := (if m = [] then gm_del host (rl_pending st) else gm_set host m (rl_pending st))\<rparr>)"

definition send_out :: "string \<Rightarrow> string \<Rightarrow> relay_outcome \<Rightarrow> relay \<Rightarrow> relay" where
  "send_out host req o' st = st\<lparr>rl_out := rl_out st @ [(host, req, o')]\<rparr>"

section \<open>Tombstones\<close>

text \<open>The scan for the oldest entry: the first of the least times in iteration order.\<close>

fun oldest_scan :: "(string, tombstone) gomap \<Rightarrow> (string \<times> time) option \<Rightarrow> (string \<times> time) option" where
  "oldest_scan [] best = best"
| "oldest_scan ((i, ts) # m) best =
     oldest_scan m (case best of None \<Rightarrow> Some (i, ts_at ts)
                    | Some (_, at) \<Rightarrow> if ts_at ts < at then Some (i, ts_at ts) else best)"

definition evict_oldest :: "(string, tombstone) gomap \<Rightarrow> (string, tombstone) gomap" where
  "evict_oldest m = (case oldest_scan m None of None \<Rightarrow> m | Some (i, _) \<Rightarrow> gm_del i m)"

definition add_tombstone :: "string \<Rightarrow> relay_ack \<Rightarrow> time \<Rightarrow> relay \<Rightarrow> relay" where
  "add_tombstone host ack now st =
     (if rk_req_id ack = [] then st
      else
        let m = gm_set (rk_req_id ack) \<lparr>ts_ack = ack, ts_at = now\<rparr> (tombs st host);
            m = (if length m \<le> max_relay_tombstones_per_host then m else evict_oldest m)
        in st\<lparr>rl_tombs := gm_set host m (rl_tombs st)\<rparr>)"

definition add_abort_tombstone :: "string \<Rightarrow> string \<Rightarrow> time \<Rightarrow> relay \<Rightarrow> relay" where
  "add_abort_tombstone host req now st =
     (if (case gm_get (tombs st host) req of Some ts \<Rightarrow> rk_done (ts_ack ts) | None \<Rightarrow> False) then st
      else add_tombstone host \<lparr>rk_req_id = req, rk_chunk = 0, rk_done = False, rk_abort = True\<rparr> now st)"

definition add_done_tombstone :: "string \<Rightarrow> string \<Rightarrow> u64 \<Rightarrow> time \<Rightarrow> relay \<Rightarrow> relay" where
  "add_done_tombstone host req chunk now st =
     add_tombstone host \<lparr>rk_req_id = req, rk_chunk = chunk, rk_done = True, rk_abort = False\<rparr> now st"

section \<open>Terminal states\<close>

definition take_pending :: "string \<Rightarrow> string \<Rightarrow> relay \<Rightarrow> relay \<times> pending_req option" where
  "take_pending host req st =
     (case gm_get (pend st host) req of
        None \<Rightarrow> (st, None)
      | Some p \<Rightarrow> (del_pending host req st, Some p))"

definition drop_pending :: "string \<Rightarrow> string \<Rightarrow> time \<Rightarrow> relay \<Rightarrow> relay" where
  "drop_pending host req now st =
     (case gm_get (rl_pending st) host of
        None \<Rightarrow> st
      | Some m \<Rightarrow>
          (case gm_get m req of
             Some p \<Rightarrow> add_abort_tombstone host req now (del_pending host req st)
           | None \<Rightarrow> if m = [] then st\<lparr>rl_pending := gm_del host (rl_pending st)\<rparr> else st))"

definition fail_request :: "string \<Rightarrow> string \<Rightarrow> int \<Rightarrow> string \<Rightarrow> time \<Rightarrow> relay \<Rightarrow> relay" where
  "fail_request host req status message now st =
     (case take_pending host req st of
        (st, None) \<Rightarrow> st
      | (st, Some p) \<Rightarrow>
          send_out host req (Answered \<lparr>rr_status = status, rr_body = ErrorBody (ReasonMessage message)\<rparr>)
            (add_abort_tombstone host req now st))"

definition fail_relay_request :: "string \<Rightarrow> string \<Rightarrow> relay_reason \<Rightarrow> time \<Rightarrow> relay \<Rightarrow> relay" where
  "fail_relay_request host req reason now st =
     (case take_pending host req st of
        (st, None) \<Rightarrow> st
      | (st, Some p) \<Rightarrow>
          send_out host req (Answered \<lparr>rr_status = 502, rr_body = ErrorBody reason\<rparr>)
            (add_abort_tombstone host req now st))"

definition resolve_pending :: "string \<Rightarrow> string \<Rightarrow> relay_response \<Rightarrow> u64 \<Rightarrow> time \<Rightarrow> relay \<Rightarrow> relay" where
  "resolve_pending host req resp final now st =
     (if gm_get (pend st host) req = None then st
      else send_out host req (Answered resp)
             (add_done_tombstone host req final now (fst (take_pending host req st))))"

text \<open>The loop of \<open>failPendingLocked\<close> over the host's requests, in iteration order.\<close>

fun fail_pending_loop :: "string \<Rightarrow> string list \<Rightarrow> time \<Rightarrow> relay \<Rightarrow> relay" where
  "fail_pending_loop host [] now st = st"
| "fail_pending_loop host (req # reqs) now st =
     fail_pending_loop host reqs now
       (send_out host req HostGone (add_abort_tombstone host req now st))"

definition fail_pending :: "string \<Rightarrow> time \<Rightarrow> relay \<Rightarrow> relay" where
  "fail_pending host now st =
     (let st = fail_pending_loop host (map fst (pend st host)) now st
      in st\<lparr>rl_pending := gm_del host (rl_pending st)\<rparr>)"

section \<open>Answers\<close>

definition frame_weight :: "frame \<Rightarrow> int" where
  "frame_weight f = int (length (fr_chunk f)) + int (length (fr_body f))"

definition host_parked :: "relay \<Rightarrow> string \<Rightarrow> int \<times> int" where
  "host_parked st host =
     ((\<Sum>(req, p) \<leftarrow> pend st host. int (length (pr_parked p))), (\<Sum>(req, p) \<leftarrow> pend st host. pr_parked_bytes p))"

text \<open>The tail of \<open>applyRespondLocked\<close>: the chunk's bytes are appended.\<close>

definition apply_finish :: "string \<Rightarrow> string \<Rightarrow> pending_req \<Rightarrow> frame \<Rightarrow> int \<Rightarrow> time \<Rightarrow> relay \<Rightarrow>
    relay \<times> pending_req \<times> bool \<times> bool" where
  "apply_finish host req p f status now st =
     (let p = p\<lparr>pr_next_chunk := fr_chunk_seq f\<rparr>
      in if fr_more f then (put_pending host req p st, p, False, True)
         else
           let p = p\<lparr>pr_final_chunk := fr_chunk_seq f\<rparr>
           in if \<not> pr_chunked p \<and> fr_chunk_seq f = 1 then
                (resolve_pending host req \<lparr>rr_status = status, rr_body = RawBody (fr_body f)\<rparr>
                   (fr_chunk_seq f) now st, p, True, True)
              else if \<not> json_valid (pr_chunks p) then
                (fail_relay_request host req ReasonNotJson now st, p, True, True)
              else
                (resolve_pending host req \<lparr>rr_status = pr_chunk_status p, rr_body = RawBody (pr_chunks p)\<rparr>
                   (fr_chunk_seq f) now st, p, True, True))"

definition apply_respond :: "string \<Rightarrow> string \<Rightarrow> pending_req \<Rightarrow> frame \<Rightarrow> time \<Rightarrow> relay \<Rightarrow>
    relay \<times> pending_req \<times> bool \<times> bool" where
  "apply_respond host req p f now st =
     (let status = respond_status f;
          p = (if pr_chunk_status_set p then p
               else p\<lparr>pr_chunk_status := status, pr_chunk_status_set := True\<rparr>)
      in if fr_chunk f \<noteq> [] \<or> fr_encoding f \<noteq> [] then
           let p = p\<lparr>pr_chunked := True\<rparr>
           in if fr_encoding f \<noteq> ''base64'' then
                (fail_relay_request host req (ReasonEncoding (fr_encoding f)) now st, p, True, True)
              else
                (case b64_decode (fr_chunk f) of
                   None \<Rightarrow> (fail_relay_request host req ReasonBadBase64 now st, p, True, True)
                 | Some d \<Rightarrow>
                     if int (length (pr_chunks p) + length d) > max_chunked_relay_body then
                       (fail_relay_request host req ReasonTooLarge now st, p, True, True)
                     else apply_finish host req (p\<lparr>pr_chunks := pr_chunks p @ d\<rparr>) f status now st)
         else if fr_more f \<or> pr_chunked p \<or> pr_next_chunk p > 0 then
           apply_finish host req (p\<lparr>pr_chunked := True, pr_chunks := pr_chunks p @ fr_body f\<rparr>) f status now st
         else apply_finish host req p f status now st)"

lemma apply_respond_parked:
  "apply_respond host req p f now st = (st', p', False, a) \<Longrightarrow> pr_parked p' = pr_parked p"
  by (auto simp: apply_respond_def apply_finish_def Let_def split: if_splits option.splits)

text \<open>The drain of parked chunks behind a filled gap.\<close>

function respond_drain :: "string \<Rightarrow> string \<Rightarrow> pending_req \<Rightarrow> bool \<Rightarrow> time \<Rightarrow> relay \<Rightarrow> relay \<times> bool" where
  "respond_drain host req p notify now st =
     (case gm_get (pr_parked p) (pr_next_chunk p + 1) of
        None \<Rightarrow> (st, notify)
      | Some f \<Rightarrow>
          (case apply_respond host req
                  (p\<lparr>pr_parked_bytes := pr_parked_bytes p - frame_weight f,
                     pr_parked := gm_del (pr_next_chunk p + 1) (pr_parked p)\<rparr>) f now st of
             (st', p', True, applied) \<Rightarrow> (st', notify \<or> applied)
           | (st', p', False, applied) \<Rightarrow> respond_drain host req p' (notify \<or> applied) now st'))"
  by pat_completeness auto
termination
proof (relation "measure (\<lambda>(host, req, p, notify, now, st). length (pr_parked p))", goal_cases)
  case (2 host req p notify now st f st' rest p' rest2 resolved applied)
  then have "pr_parked p' = gm_del (pr_next_chunk p + 1) (pr_parked p)"
    using apply_respond_parked [of host req "p\<lparr>pr_parked_bytes := pr_parked_bytes p - frame_weight f,
        pr_parked := gm_del (pr_next_chunk p + 1) (pr_parked p)\<rparr>" f now st st' p' applied] by auto
  then show ?case using 2(1) by (simp add: gm_length_del_less)
qed simp

declare respond_drain.simps [simp del]

text \<open>\<open>acceptRespond\<close>: the new state, whether the request was known, whether to push a heartbeat.\<close>

definition accept_respond :: "string \<Rightarrow> frame \<Rightarrow> time \<Rightarrow> relay \<Rightarrow> relay \<times> bool \<times> bool" where
  "accept_respond host f now st =
     (case gm_get (pend st host) (fr_req_id f) of
        None \<Rightarrow> (add_abort_tombstone host (fr_req_id f) now (st\<lparr>rl_late := rl_late st + 1\<rparr>), False, False)
      | Some p \<Rightarrow>
          if fr_chunk_seq f \<le> pr_next_chunk p then (st, True, False)
          else if fr_chunk_seq f > pr_next_chunk p + 1 then
            (let weight = frame_weight f;
                 (chunks, bytes) = host_parked st host
             in if chunks + 1 > max_parked_relay_chunks_per_host \<or>
                   bytes + weight > max_parked_relay_bytes_per_host then
                  (fail_relay_request host (fr_req_id f) ReasonOutOfOrder now st, True, True)
                else if gm_get (pr_parked p) (fr_chunk_seq f) \<noteq> None then (st, True, False)
                else (put_pending host (fr_req_id f)
                        (p\<lparr>pr_parked := gm_set (fr_chunk_seq f) f (pr_parked p),
                           pr_parked_bytes := pr_parked_bytes p + weight\<rparr>) st, True, False))
          else
            (case apply_respond host (fr_req_id f) p f now st of
               (st', p', True, applied) \<Rightarrow> (st', True, applied)
             | (st', p', False, applied) \<Rightarrow>
                 (case respond_drain host (fr_req_id f) p' applied now st' of
                    (st'', notify) \<Rightarrow> (st'', True, notify))))"

section \<open>The acknowledgement table\<close>

definition relay_acks :: "string \<Rightarrow> time \<Rightarrow> relay \<Rightarrow> relay \<times> relay_ack list" where
  "relay_acks host now st =
     (let live = map (\<lambda>(req, p). \<lparr>rk_req_id = req, rk_chunk = pr_next_chunk p, rk_done = False,
                                  rk_abort = False\<rparr>) (pend st host);
          kept = filter (\<lambda>(req, ts). \<not> now - ts_at ts > relay_tombstone_ttl) (tombs st host);
          gone = map (ts_ack \<circ> snd) (filter (\<lambda>(req, ts). gm_get (pend st host) req = None) kept);
          st' = st\<lparr>rl_tombs := (if kept = [] then gm_del host (rl_tombs st)
                                else gm_set host kept (rl_tombs st))\<rparr>
      in (st', sort_key rk_req_id (live @ gone)))"

section \<open>Dispatch\<close>

text \<open>
  \<open>Dispatch\<close> in its locked parts: the admission check (made before and after the liveness probe;
  \<open>attached\<close> says whether the session the request means is the one attached), the registration of
  the pending entry, and what ends the wait. The numbers are HTTP statuses.
\<close>

definition dispatch_check :: "bool \<Rightarrow> bool \<Rightarrow> string \<Rightarrow> relay \<Rightarrow> int option" where
  "dispatch_check known attached host st =
     (if \<not> known then Some 404
      else if \<not> attached then Some 503
      else if length (pend st host) \<ge> max_pending_relay_per_host then Some 429
      else None)"

definition next_request :: "relay \<Rightarrow> relay \<times> string" where
  "next_request st = (st\<lparr>rl_next_req := rl_next_req st + 1\<rparr>, enc_int (rl_next_req st + 1))"

definition dispatch_register :: "bool \<Rightarrow> bool \<Rightarrow> string \<Rightarrow> string \<Rightarrow> relay \<Rightarrow> relay \<times> int option" where
  "dispatch_register known attached host req st =
     (case dispatch_check known attached host st of
        Some e \<Rightarrow> (st, Some e)
      | None \<Rightarrow> (put_pending host req new_pending st, None))"

datatype wait_event = WaitAnswer relay_response | WaitHostGone | WaitCancelled | WaitTimeout | WaitDispatchFailed

definition dispatch_end :: "string \<Rightarrow> string \<Rightarrow> wait_event \<Rightarrow> time \<Rightarrow> relay \<Rightarrow> relay \<times> (int + relay_response)" where
  "dispatch_end host req ev now st =
     (case ev of
        WaitAnswer r \<Rightarrow> (st, Inr r)
      | WaitHostGone \<Rightarrow> (st, Inl 503)
      | WaitCancelled \<Rightarrow> (drop_pending host req now st, Inl 499)
      | WaitTimeout \<Rightarrow> (drop_pending host req now st, Inl 504)
      | WaitDispatchFailed \<Rightarrow> (drop_pending host req now st, Inl 503))"

definition respond_frame :: "string \<Rightarrow> string \<Rightarrow> relay \<Rightarrow> frame" where
  "respond_frame host req st =
     zero_frame\<lparr>fr_v := protocol_version, fr_type := type_respond, fr_req_id := req,
       fr_chunk_seq := (case gm_get (pend st host) req of None \<Rightarrow> 1 | Some p \<Rightarrow> pr_next_chunk p + 1)\<rparr>"

definition respond :: "string \<Rightarrow> string \<Rightarrow> int \<Rightarrow> string \<Rightarrow> time \<Rightarrow> relay \<Rightarrow> relay \<times> bool" where
  "respond host req status body now st =
     (case accept_respond host ((set_respond_status status (respond_frame host req st))\<lparr>fr_body := body\<rparr>) now st of
        (st', known, _) \<Rightarrow> (st', known))"

definition respond_chunk :: "string \<Rightarrow> string \<Rightarrow> int \<Rightarrow> string \<Rightarrow> string \<Rightarrow> bool \<Rightarrow> time \<Rightarrow> relay \<Rightarrow> relay \<times> bool" where
  "respond_chunk host req status encoding chunk more_chunks now st =
     (case accept_respond host ((set_respond_status status (respond_frame host req st))
             \<lparr>fr_encoding := encoding, fr_chunk := chunk, fr_more := more_chunks\<rparr>) now st of
        (st', known, _) \<Rightarrow> (st', known))"

section \<open>What an operation touches\<close>

lemma pend_put: "pend (put_pending host req p st) h = (if h = host then gm_set req p (pend st host) else pend st h)"
  by (simp add: pend_def put_pending_def gm_get_set)

lemma pend_del: "pend (del_pending host req st) h = (if h = host then gm_del req (pend st host) else pend st h)"
  by (auto simp: pend_def del_pending_def gm_get_set gm_get_del Let_def)

lemma pend_send [simp]: "pend (send_out host req o' st) = pend st"
  by (simp add: pend_def send_out_def fun_eq_iff)

lemma pend_tomb [simp]: "pend (add_tombstone host a now st) = pend st"
  by (simp add: pend_def add_tombstone_def fun_eq_iff Let_def)

lemma pend_abort [simp]: "pend (add_abort_tombstone host req now st) = pend st"
  by (simp add: add_abort_tombstone_def)

lemma pend_done [simp]: "pend (add_done_tombstone host req c now st) = pend st"
  by (simp add: add_done_tombstone_def)

lemma out_simps [simp]:
  "rl_out (put_pending host req p st) = rl_out st"
  "rl_out (del_pending host req st) = rl_out st"
  "rl_out (add_tombstone host a now st) = rl_out st"
  "rl_out (add_abort_tombstone host req now st) = rl_out st"
  "rl_out (add_done_tombstone host req c now st) = rl_out st"
  "rl_out (send_out host req o' st) = rl_out st @ [(host, req, o')]"
  by (simp_all add: put_pending_def del_pending_def add_tombstone_def add_abort_tombstone_def
      add_done_tombstone_def send_out_def Let_def)

lemma next_simps [simp]:
  "rl_next_req (put_pending host req p st) = rl_next_req st"
  "rl_next_req (del_pending host req st) = rl_next_req st"
  "rl_next_req (add_tombstone host a now st) = rl_next_req st"
  "rl_next_req (add_abort_tombstone host req now st) = rl_next_req st"
  "rl_next_req (add_done_tombstone host req c now st) = rl_next_req st"
  "rl_next_req (send_out host req o' st) = rl_next_req st"
  by (simp_all add: put_pending_def del_pending_def add_tombstone_def add_abort_tombstone_def
      add_done_tombstone_def send_out_def Let_def)

text \<open>
  An operation on one request: every other request is as before, and this one either stays as it
  is (pending or not) with nothing sent, or ends with at most one outcome.
\<close>

definition live :: "relay \<Rightarrow> string \<Rightarrow> string \<Rightarrow> bool" where
  "live st host req \<longleftrightarrow> gm_get (pend st host) req \<noteq> None"

definition touches :: "string \<Rightarrow> string \<Rightarrow> relay \<Rightarrow> relay \<Rightarrow> bool" where
  "touches host req st st' \<longleftrightarrow>
     rl_next_req st' = rl_next_req st \<and>
     (\<forall>h r. (h, r) \<noteq> (host, req) \<longrightarrow> gm_get (pend st' h) r = gm_get (pend st h) r) \<and>
     (rl_out st' = rl_out st \<and> (live st' host req \<longrightarrow> live st host req) \<or>
      live st host req \<and> \<not> live st' host req \<and> (\<exists>o'. rl_out st' = rl_out st @ [(host, req, o')]))"

lemma touches_refl [simp]: "touches host req st st"
  by (simp add: touches_def)

lemma touches_trans: "touches host req st st' \<Longrightarrow> touches host req st' st'' \<Longrightarrow> touches host req st st''"
  by (auto simp: touches_def)

lemma touches_put: "live st host req \<Longrightarrow> touches host req st (put_pending host req p st)"
  by (auto simp: touches_def live_def pend_put gm_get_set)

lemma touches_abort [simp]: "touches host req st (add_abort_tombstone host r now st)"
  by (simp add: touches_def live_def)

lemma touches_late [simp]: "touches host req st (st\<lparr>rl_late := n\<rparr>)"
  by (simp add: touches_def live_def pend_def)

lemma touches_fail: "touches host req st (fail_relay_request host req reason now st)"
  by (auto simp: fail_relay_request_def take_pending_def touches_def live_def pend_del gm_get_del
      split: option.splits)

lemma touches_fail_request: "touches host req st (fail_request host req status msg now st)"
  by (auto simp: fail_request_def take_pending_def touches_def live_def pend_del gm_get_del
      split: option.splits)

lemma touches_resolve: "touches host req st (resolve_pending host req resp final now st)"
  by (auto simp: resolve_pending_def take_pending_def touches_def live_def pend_del gm_get_del
      split: option.splits)

lemma touches_drop: "touches host req st (drop_pending host req now st)"
proof (cases "gm_get (rl_pending st) host")
  case None
  then show ?thesis by (simp add: drop_pending_def)
next
  case (Some m)
  then have m: "pend st host = m" by (simp add: pend_def)
  show ?thesis
  proof (cases "gm_get m req")
    case None
    have "pend (st\<lparr>rl_pending := gm_del host (rl_pending st)\<rparr>) = pend st" if "m = []"
      using that m by (auto simp: pend_def gm_get_del fun_eq_iff split: option.splits)
    then show ?thesis using Some None by (auto simp: drop_pending_def touches_def live_def)
  next
    case (Some p)
    then show ?thesis
      using \<open>gm_get (rl_pending st) host = Some m\<close>
      by (auto simp: drop_pending_def touches_def live_def pend_del gm_get_del)
  qed
qed

lemma touches_put_live: "live (put_pending host req p st) host req"
  by (simp add: live_def pend_put gm_get_set)

lemma touches_apply_finish:
  assumes "live st host req" and "apply_finish host req p f status now st = (st', p', resolved, applied)"
  shows "touches host req st st' \<and> (\<not> resolved \<longrightarrow> live st' host req \<and> st' = put_pending host req p' st)"
proof (cases "fr_more f")
  case True
  then show ?thesis
    using assms touches_put touches_put_live by (auto simp: apply_finish_def Let_def)
next
  case False
  then have "resolved" "(\<exists>resp. st' = resolve_pending host req resp (fr_chunk_seq f) now st) \<or>
      st' = fail_relay_request host req ReasonNotJson now st"
    using assms(2) unfolding apply_finish_def Let_def
    by (auto simp del: fail_relay_request_def resolve_pending_def split: if_splits)
  then show ?thesis using touches_resolve touches_fail by auto
qed

lemma apply_respond_cases:
  assumes "apply_respond host req p f now st = (st', p', resolved, applied)"
  obtains (fail) reason where "st' = fail_relay_request host req reason now st" "resolved"
  | (finish) q where "apply_finish host req q f (respond_status f) now st = (st', p', resolved, applied)"
proof -
  let ?p = "if pr_chunk_status_set p then p
      else p\<lparr>pr_chunk_status := respond_status f, pr_chunk_status_set := True\<rparr>"
  show ?thesis
  proof (cases "fr_chunk f \<noteq> [] \<or> fr_encoding f \<noteq> []")
    case False
    then show ?thesis
      using assms unfolding apply_respond_def Let_def by (cases "fr_more f \<or> pr_chunked ?p \<or> pr_next_chunk ?p > 0")
        (simp_all add: finish)
  next
    case True
    note chunk = True
    show ?thesis
    proof (cases "fr_encoding f = ''base64''")
      case False
      then show ?thesis
        using assms chunk unfolding apply_respond_def Let_def
        by (intro fail [of "ReasonEncoding (fr_encoding f)"]) auto
    next
      case enc: True
      show ?thesis
      proof (cases "b64_decode (fr_chunk f)")
        case None
        then show ?thesis
          using assms chunk enc unfolding apply_respond_def Let_def by (intro fail [of ReasonBadBase64]) auto
      next
        case (Some d)
        then show ?thesis
          using assms chunk enc fail [of ReasonTooLarge] finish unfolding apply_respond_def Let_def
          by (auto split: if_splits)
      qed
    qed
  qed
qed

lemma touches_apply:
  assumes "live st host req" and "apply_respond host req p f now st = (st', p', resolved, applied)"
  shows "touches host req st st' \<and> (\<not> resolved \<longrightarrow> live st' host req \<and> st' = put_pending host req p' st)"
  using assms(2)
proof (cases rule: apply_respond_cases)
  case (fail reason)
  then show ?thesis using touches_fail by simp
next
  case (finish q)
  then show ?thesis by (rule touches_apply_finish [OF assms(1)])
qed

lemma touches_drain:
  "live st host req \<Longrightarrow> touches host req st (fst (respond_drain host req p notify now st))"
proof (induction host req p notify now st rule: respond_drain.induct)
  case (1 host req p notify now st)
  show ?case
  proof (cases "gm_get (pr_parked p) (pr_next_chunk p + 1)")
    case None
    then show ?thesis by (simp add: respond_drain.simps [of host req p])
  next
    case (Some f)
    obtain st' p' resolved applied where a: "apply_respond host req
        (p\<lparr>pr_parked_bytes := pr_parked_bytes p - frame_weight f,
           pr_parked := gm_del (pr_next_chunk p + 1) (pr_parked p)\<rparr>) f now st = (st', p', resolved, applied)"
      using prod_cases4 by blast
    note t = touches_apply [OF "1.prems" a]
    show ?thesis
    proof (cases resolved)
      case True
      then show ?thesis using t Some a by (simp add: respond_drain.simps [of host req p])
    next
      case False
      have "touches host req st' (fst (respond_drain host req p' (notify \<or> applied) now st'))"
        by (rule "1.IH" [OF Some a [symmetric] refl refl]) (use t False in auto)
      then show ?thesis
        using t touches_trans Some a False by (simp add: respond_drain.simps [of host req p]) blast
    qed
  qed
qed

lemma accept_respond_cases:
  assumes "accept_respond host f now st = (st', known, notify)"
  obtains (unknown) "gm_get (pend st host) (fr_req_id f) = None" "\<not> known" "\<not> notify"
      "st' = add_abort_tombstone host (fr_req_id f) now (st\<lparr>rl_late := rl_late st + 1\<rparr>)"
  | (ignored) p where "gm_get (pend st host) (fr_req_id f) = Some p" "known" "\<not> notify" "st' = st"
      "fr_chunk_seq f \<le> pr_next_chunk p \<or> gm_get (pr_parked p) (fr_chunk_seq f) \<noteq> None"
  | (overflow) p where "gm_get (pend st host) (fr_req_id f) = Some p" "known" "notify"
      "st' = fail_relay_request host (fr_req_id f) ReasonOutOfOrder now st"
      "fst (host_parked st host) + 1 > max_parked_relay_chunks_per_host \<or>
       snd (host_parked st host) + frame_weight f > max_parked_relay_bytes_per_host"
  | (park) p where "gm_get (pend st host) (fr_req_id f) = Some p" "known" "\<not> notify"
      "pr_next_chunk p + 1 < fr_chunk_seq f" "pr_next_chunk p < fr_chunk_seq f"
      "gm_get (pr_parked p) (fr_chunk_seq f) = None"
      "fst (host_parked st host) + 1 \<le> max_parked_relay_chunks_per_host"
      "snd (host_parked st host) + frame_weight f \<le> max_parked_relay_bytes_per_host"
      "st' = put_pending host (fr_req_id f) (p\<lparr>pr_parked := gm_set (fr_chunk_seq f) f (pr_parked p),
           pr_parked_bytes := pr_parked_bytes p + frame_weight f\<rparr>) st"
  | (resolved) p p' where "gm_get (pend st host) (fr_req_id f) = Some p" "known"
      "fr_chunk_seq f = pr_next_chunk p + 1" "pr_next_chunk p < fr_chunk_seq f"
      "apply_respond host (fr_req_id f) p f now st = (st', p', True, notify)"
  | (drained) p p' st1 applied where "gm_get (pend st host) (fr_req_id f) = Some p" "known"
      "fr_chunk_seq f = pr_next_chunk p + 1" "pr_next_chunk p < fr_chunk_seq f"
      "apply_respond host (fr_req_id f) p f now st = (st1, p', False, applied)"
      "respond_drain host (fr_req_id f) p' applied now st1 = (st', notify)"
proof (cases "gm_get (pend st host) (fr_req_id f)")
  case None
  show ?thesis by (rule unknown) (use None assms in \<open>simp_all add: accept_respond_def\<close>)
next
  case (Some p)
  consider "fr_chunk_seq f \<le> pr_next_chunk p"
    | "pr_next_chunk p < fr_chunk_seq f" "pr_next_chunk p + 1 < fr_chunk_seq f"
    | "pr_next_chunk p < fr_chunk_seq f" "fr_chunk_seq f = pr_next_chunk p + 1"
    using word_gt_not_succ [of "pr_next_chunk p" "fr_chunk_seq f"] by (metis not_le)
  then show ?thesis
  proof cases
    case 1
    show ?thesis by (rule ignored [OF Some]) (use 1 assms Some in \<open>simp_all add: accept_respond_def\<close>)
  next
    case 2
    let ?over = "fst (host_parked st host) + 1 > max_parked_relay_chunks_per_host \<or>
       snd (host_parked st host) + frame_weight f > max_parked_relay_bytes_per_host"
    have eq: "accept_respond host f now st =
        (if ?over then (fail_relay_request host (fr_req_id f) ReasonOutOfOrder now st, True, True)
         else if gm_get (pr_parked p) (fr_chunk_seq f) \<noteq> None then (st, True, False)
         else (put_pending host (fr_req_id f)
                 (p\<lparr>pr_parked := gm_set (fr_chunk_seq f) f (pr_parked p),
                    pr_parked_bytes := pr_parked_bytes p + frame_weight f\<rparr>) st, True, False))"
      using 2 Some unfolding accept_respond_def Let_def
      by (cases "host_parked st host") (simp add: not_le [THEN iffD2])
    consider "?over" | "\<not> ?over" "gm_get (pr_parked p) (fr_chunk_seq f) \<noteq> None"
      | "\<not> ?over" "gm_get (pr_parked p) (fr_chunk_seq f) = None" by blast
    then show ?thesis
    proof cases
      case 1
      show ?thesis by (rule overflow [OF Some]) (use assms eq 1 in simp_all)
    next
      case 2
      show ?thesis by (rule ignored [OF Some]) (use assms eq 2 in simp_all)
    next
      case 3
      show ?thesis
        by (rule park [OF Some]) (use assms eq 3 \<open>pr_next_chunk p + 1 < fr_chunk_seq f\<close>
          \<open>pr_next_chunk p < fr_chunk_seq f\<close> in \<open>simp_all add: not_less\<close>)
    qed
  next
    case 3
    obtain st1 p' r applied where a: "apply_respond host (fr_req_id f) p f now st = (st1, p', r, applied)"
      using prod_cases4 by blast
    have eq: "accept_respond host f now st =
        (if r then (st1, True, applied)
         else case respond_drain host (fr_req_id f) p' applied now st1 of (st'', notify) \<Rightarrow> (st'', True, notify))"
      using Some 3 a unfolding accept_respond_def by (auto simp: not_le split: bool.split)
    show ?thesis
    proof (cases r)
      case True
      show ?thesis by (rule resolved [OF Some, of p']) (use True eq assms 3 a in simp_all)
    next
      case False
      show ?thesis
        by (rule drained [OF Some, of st1 p' applied])
          (use False eq assms 3 a in \<open>simp_all split: prod.splits\<close>)
    qed
  qed
qed

lemma touches_accept: "touches host (fr_req_id f) st (fst (accept_respond host f now st))"
proof -
  obtain st' known notify where acc: "accept_respond host f now st = (st', known, notify)"
    using prod_cases3 by blast
  from acc have "touches host (fr_req_id f) st st'"
  proof (cases rule: accept_respond_cases)
    case unknown
    then show ?thesis using touches_trans [OF touches_late touches_abort] by blast
  next
    case overflow
    then show ?thesis using touches_fail by simp
  next
    case park
    then show ?thesis using touches_put by (simp add: live_def)
  next
    case resolved
    then show ?thesis using touches_apply by (simp add: live_def)
  next
    case (drained p p' st1 applied)
    have "live st host (fr_req_id f)" using drained(1) by (simp add: live_def)
    note t = touches_apply [OF this drained(5)]
    have "touches host (fr_req_id f) st st1" "live st1 host (fr_req_id f)" using t by blast+
    then show ?thesis using touches_drain [of st1] touches_trans drained(6) by (metis fst_conv)
  qed simp
  then show ?thesis using acc by simp
qed

section \<open>Histories of the relay\<close>

text \<open>
  Everything the hub does to the relay state, in the order the lock serialises it. A dispatch
  draws its id first; whether the host is known and its session still attached is decided outside.
\<close>

datatype relay_op =
    OpDispatch string bool bool
  | OpRespond string frame
  | OpEnd string string wait_event
  | OpFail string string int string
  | OpHostDown string
  | OpAcks string

definition relay_step :: "relay \<Rightarrow> relay_op \<times> time \<Rightarrow> relay" where
  "relay_step st x =
     (case x of (op, now) \<Rightarrow>
       (case op of
          OpDispatch host known attached \<Rightarrow>
            (case next_request st of (st, req) \<Rightarrow> fst (dispatch_register known attached host req st))
        | OpRespond host f \<Rightarrow> fst (accept_respond host f now st)
        | OpEnd host req ev \<Rightarrow> fst (dispatch_end host req ev now st)
        | OpFail host req status msg \<Rightarrow> fail_request host req status msg now st
        | OpHostDown host \<Rightarrow> fail_pending host now st
        | OpAcks host \<Rightarrow> fst (relay_acks host now st)))"

definition relay_run :: "(relay_op \<times> time) list \<Rightarrow> relay \<Rightarrow> relay" where
  "relay_run ops st = foldl relay_step st ops"

definition new_relay :: relay where
  "new_relay = \<lparr>rl_pending = [], rl_tombs = [], rl_late = 0, rl_next_req = 0, rl_out = []\<rparr>"

text \<open>Ids that were drawn, at most one outcome each, none while the request is pending.\<close>

definition drawn :: "relay \<Rightarrow> string \<Rightarrow> bool" where
  "drawn st r \<longleftrightarrow> (\<exists>n. 1 \<le> n \<and> n \<le> rl_next_req st \<and> r = enc_int n)"

definition relay_inv :: "relay \<Rightarrow> bool" where
  "relay_inv st \<longleftrightarrow> 0 \<le> rl_next_req st \<and>
     (\<forall>h. gm_ok (pend st h)) \<and>
     (\<forall>h r. live st h r \<longrightarrow> drawn st r) \<and>
     (\<forall>x \<in> set (rl_out st). drawn st (fst (snd x)) \<and> (\<forall>h. \<not> live st h (fst (snd x)))) \<and>
     distinct (map (fst \<circ> snd) (rl_out st)) \<and>
     (\<forall>h h' r. live st h r \<longrightarrow> live st h' r \<longrightarrow> h = h')"

definition pend_ok :: "relay \<Rightarrow> bool" where "pend_ok st \<longleftrightarrow> (\<forall>h. gm_ok (pend st h))"

lemma pend_ok_put: "pend_ok st \<Longrightarrow> pend_ok (put_pending host req p st)"
  by (simp add: pend_ok_def pend_put)

lemma pend_ok_del: "pend_ok st \<Longrightarrow> pend_ok (del_pending host req st)"
  by (simp add: pend_ok_def pend_del)

lemma pend_ok_same: "pend st' = pend st \<Longrightarrow> pend_ok st \<Longrightarrow> pend_ok st'"
  by (simp add: pend_ok_def)

lemma pend_ok_fail: "pend_ok st \<Longrightarrow> pend_ok (fail_relay_request host req reason now st)"
  by (auto simp: fail_relay_request_def take_pending_def pend_ok_def pend_del split: option.splits)

lemma pend_ok_fail_request: "pend_ok st \<Longrightarrow> pend_ok (fail_request host req status msg now st)"
  by (auto simp: fail_request_def take_pending_def pend_ok_def pend_del split: option.splits)

lemma pend_ok_resolve: "pend_ok st \<Longrightarrow> pend_ok (resolve_pending host req resp final now st)"
  by (auto simp: resolve_pending_def take_pending_def pend_ok_def pend_del split: option.splits)

lemma pend_ok_drop: "pend_ok st \<Longrightarrow> pend_ok (drop_pending host req now st)"
  by (auto simp: drop_pending_def pend_ok_def pend_del split: option.splits)
    (auto simp: pend_def gm_get_del split: option.splits)

lemma pend_ok_apply:
  assumes "pend_ok st" and "apply_respond host req p f now st = (st', p', resolved, applied)"
  shows "pend_ok st'"
  using assms(2)
proof (cases rule: apply_respond_cases)
  case (finish q)
  then show ?thesis
    using assms(1) pend_ok_put pend_ok_fail pend_ok_resolve
    by (auto simp: apply_finish_def Let_def split: if_splits)
qed (use assms(1) pend_ok_fail in simp)

lemma pend_ok_drain: "pend_ok st \<Longrightarrow> pend_ok (fst (respond_drain host req p notify now st))"
proof (induction host req p notify now st rule: respond_drain.induct)
  case (1 host req p notify now st)
  show ?case
  proof (cases "gm_get (pr_parked p) (pr_next_chunk p + 1)")
    case None
    then show ?thesis using "1.prems" by (simp add: respond_drain.simps [of host req p])
  next
    case (Some f)
    obtain st' p' resolved applied where a: "apply_respond host req
        (p\<lparr>pr_parked_bytes := pr_parked_bytes p - frame_weight f,
           pr_parked := gm_del (pr_next_chunk p + 1) (pr_parked p)\<rparr>) f now st = (st', p', resolved, applied)"
      using prod_cases4 by blast
    note ok = pend_ok_apply [OF "1.prems" a]
    have "pend_ok (fst (respond_drain host req p' (notify \<or> applied) now st'))" if "\<not> resolved"
      by (rule "1.IH" [OF Some a [symmetric] refl refl]) (use ok that in auto)
    then show ?thesis using ok Some a by (cases resolved) (simp_all add: respond_drain.simps [of host req p])
  qed
qed

lemma pend_ok_accept: 
  assumes "pend_ok st"
  shows "pend_ok (fst (accept_respond host f now st))"
proof -
  obtain st' known notify where acc: "accept_respond host f now st = (st', known, notify)"
    using prod_cases3 by blast
  from acc have "pend_ok st'"
  proof (cases rule: accept_respond_cases)
    case unknown
    then show ?thesis using assms by (simp add: pend_ok_def pend_def)
  next
    case (drained p p' st1 applied)
    then show ?thesis
      using pend_ok_drain [OF pend_ok_apply [OF assms drained(5)]] by (metis fst_conv)
  qed (use assms pend_ok_fail pend_ok_put pend_ok_apply in auto)
  then show ?thesis using acc by simp
qed

lemma relay_invI:
  assumes "0 \<le> rl_next_req st" and "pend_ok st" and "\<And>h r. live st h r \<Longrightarrow> drawn st r"
    and "\<And>x. x \<in> set (rl_out st) \<Longrightarrow> drawn st (fst (snd x))"
    and "\<And>x h. x \<in> set (rl_out st) \<Longrightarrow> \<not> live st h (fst (snd x))"
    and "distinct (map (fst \<circ> snd) (rl_out st))"
    and "\<And>h h' r. live st h r \<Longrightarrow> live st h' r \<Longrightarrow> h = h'"
  shows "relay_inv st"
  using assms unfolding relay_inv_def pend_ok_def by blast

lemma relay_invD:
  assumes "relay_inv st"
  shows "0 \<le> rl_next_req st" and "pend_ok st" and "\<And>h r. live st h r \<Longrightarrow> drawn st r"
    and "\<And>x. x \<in> set (rl_out st) \<Longrightarrow> drawn st (fst (snd x))"
    and "\<And>x h. x \<in> set (rl_out st) \<Longrightarrow> \<not> live st h (fst (snd x))"
    and "distinct (map (fst \<circ> snd) (rl_out st))"
    and "\<And>h h' r. live st h r \<Longrightarrow> live st h' r \<Longrightarrow> h = h'"
  using assms unfolding relay_inv_def pend_ok_def by blast+

text \<open>An operation that touches one request keeps the invariant.\<close>

lemma relay_inv_touches:
  assumes "relay_inv st" and "touches host req st st'" and "pend_ok st'"
  shows "relay_inv st'"
proof -
  note inv = relay_invD [OF assms(1)]
  have other: "live st' h r \<longleftrightarrow> live st h r" if "(h, r) \<noteq> (host, req)" for h r
    using assms(2) that by (simp add: touches_def live_def)
  have down: "live st' h r \<Longrightarrow> live st h r" for h r
    using other [of h r] assms(2) by (cases "(h, r) = (host, req)") (auto simp: touches_def)
  have next': "rl_next_req st' = rl_next_req st" using assms(2) by (simp add: touches_def)
  then have dr: "drawn st' = drawn st" by (simp add: drawn_def fun_eq_iff)
  consider (same) "rl_out st' = rl_out st"
    | (ended) o' where "rl_out st' = rl_out st @ [(host, req, o')]" "live st host req" "\<not> live st' host req"
    using assms(2) by (auto simp: touches_def)
  then show ?thesis
  proof cases
    case same
    show ?thesis
      by (rule relay_invI) (use inv assms(3) same next' dr down in \<open>simp_all, blast+\<close>)
  next
    case ended
    have uniq: "\<not> live st' h req" for h
      using inv(7) ended(2,3) down by blast
    have fresh: "fst (snd x) \<noteq> req" if "x \<in> set (rl_out st)" for x
      using inv(5) [OF that] ended(2) by blast
    have mem: "x \<in> set (rl_out st) \<or> fst (snd x) = req" if "x \<in> set (rl_out st')" for x
      using that ended(1) by auto
    show ?thesis
    proof (rule relay_invI)
      show "drawn st' (fst (snd x))" if "x \<in> set (rl_out st')" for x
        using mem [OF that] inv(4) inv(3) [OF ended(2)] dr by metis
      show "\<not> live st' h (fst (snd x))" if "x \<in> set (rl_out st')" for x h
        using mem [OF that] inv(5) uniq down by metis
      show "distinct (map (fst \<circ> snd) (rl_out st'))" using inv(6) fresh ended(1) by auto
    qed (use inv assms(3) next' dr down in \<open>simp_all, blast+\<close>)
  qed
qed

lemma relay_inv_dispatch:
  assumes "relay_inv st" and "next_request st = (st1, req)"
  shows "relay_inv (fst (dispatch_register known attached host req st1))"
proof -
  have st1: "st1 = st\<lparr>rl_next_req := rl_next_req st + 1\<rparr>" "req = enc_int (rl_next_req st + 1)"
    using assms(2) by (auto simp: next_request_def)
  have nn: "0 \<le> rl_next_req st" using assms(1) by (simp add: relay_inv_def)
  have pend1: "pend st1 = pend st" by (simp add: st1 pend_def fun_eq_iff)
  have mono: "drawn st r \<Longrightarrow> drawn st1 r" for r
    unfolding drawn_def st1 by (auto intro: order_trans)
  have dreq: "drawn st1 req"
    unfolding drawn_def st1 by (rule exI [of _ "rl_next_req st + 1"]) (use nn in simp)
  have nreq: "\<not> drawn st req"
  proof
    assume "drawn st req"
    then obtain n where n: "1 \<le> n" "n \<le> rl_next_req st" "enc_int (rl_next_req st + 1) = enc_int n"
      unfolding drawn_def st1 by blast
    then have "rl_next_req st + 1 = n" using nn by (intro enc_int_inj) simp_all
    then show False using n(2) by simp
  qed
  have l1: "live st1 = live st" by (simp add: live_def pend1 fun_eq_iff)
  note inv = relay_invD [OF assms(1)]
  have out1: "rl_out st1 = rl_out st" by (simp add: st1)
  have inv1: "relay_inv st1"
  proof (rule relay_invI)
    show "0 \<le> rl_next_req st1" using nn by (simp add: st1)
    show "pend_ok st1" by (rule pend_ok_same [OF pend1 inv(2)])
    show "drawn st1 r" if "live st1 h r" for h r using that inv(3) mono unfolding l1 by blast
    show "drawn st1 (fst (snd x))" if "x \<in> set (rl_out st1)" for x
      using that inv(4) mono unfolding out1 by blast
    show "\<not> live st1 h (fst (snd x))" if "x \<in> set (rl_out st1)" for x h
      using that inv(5) unfolding l1 out1 by blast
    show "distinct (map (fst \<circ> snd) (rl_out st1))" using inv(6) unfolding out1 .
    show "h = h'" if "live st1 h r" "live st1 h' r" for h h' r using that inv(7) unfolding l1 by blast
  qed
  show ?thesis
  proof (cases "dispatch_check known attached host st1")
    case (Some e)
    then show ?thesis using inv1 by (simp add: dispatch_register_def)
  next
    case None
    let ?st = "put_pending host req new_pending st1"
    have l: "live ?st h r \<longleftrightarrow> (h = host \<and> r = req) \<or> live st h r" for h r
      by (simp add: live_def pend_put gm_get_set pend1)
    have notlive: "\<not> live st h req" for h using inv(3) nreq by blast
    have dst: "drawn ?st = drawn st1" by (simp add: drawn_def fun_eq_iff)
    have out: "rl_out ?st = rl_out st" by (simp add: st1)
    have "relay_inv ?st"
    proof (rule relay_invI)
      show "0 \<le> rl_next_req ?st" using nn by (simp add: st1)
      show "pend_ok ?st" by (rule pend_ok_put [OF relay_invD(2) [OF inv1]])
      show "drawn ?st r" if "live ?st h r" for h r
        using l [of h r] that inv(3) [of h r] mono [of r] dreq unfolding dst by metis
      show "drawn ?st (fst (snd x))" if "x \<in> set (rl_out ?st)" for x
        using that inv(4) mono unfolding dst out by blast
      show "\<not> live ?st h (fst (snd x))" if "x \<in> set (rl_out ?st)" for x h
        using that inv(4,5) nreq l unfolding out by metis
      show "distinct (map (fst \<circ> snd) (rl_out ?st))" using inv(6) unfolding out .
      show "h = h'" if "live ?st h r" "live ?st h' r" for h h' r
        using that l notlive inv(7) by metis
    qed
    then show ?thesis using None by (simp add: dispatch_register_def)
  qed
qed

lemma touches_fail_pending_loop:
  "rl_next_req (fail_pending_loop host reqs now st) = rl_next_req st \<and>
   pend (fail_pending_loop host reqs now st) = pend st \<and>
   rl_out (fail_pending_loop host reqs now st) = rl_out st @ map (\<lambda>r. (host, r, HostGone)) reqs"
  by (induction reqs arbitrary: st) simp_all

lemma relay_inv_fail_pending:
  assumes "relay_inv st"
  shows "relay_inv (fail_pending host now st)"
proof -
  note inv = relay_invD [OF assms]
  let ?reqs = "map fst (pend st host)"
  let ?st = "fail_pending host now st"
  note loop = touches_fail_pending_loop [of host ?reqs now st]
  have p: "pend ?st h = (if h = host then [] else pend st h)" for h
  proof -
    have "pend (x\<lparr>rl_pending := gm_del host (rl_pending x)\<rparr>) h = (if h = host then [] else pend x h)" for x
      by (simp add: pend_def gm_get_del)
    then show ?thesis using loop by (simp add: fail_pending_def Let_def)
  qed
  have out: "rl_out ?st = rl_out st @ map (\<lambda>r. (host, r, HostGone)) ?reqs" "rl_next_req ?st = rl_next_req st"
    using loop by (simp_all add: fail_pending_def Let_def)
  have dr: "drawn ?st = drawn st" using out(2) by (simp add: drawn_def fun_eq_iff)
  have l: "live ?st h r \<longleftrightarrow> h \<noteq> host \<and> live st h r" for h r by (simp add: live_def p)
  have mem: "live st host r" if "r \<in> set ?reqs" for r
    using that by (simp add: live_def) (metis gm_keys_iff image_set not_None_eq)
  have outs: "x \<in> set (rl_out st) \<or> live st host (fst (snd x))" if "x \<in> set (rl_out ?st)" for x
  proof -
    have "x \<in> set (rl_out st) \<or> (\<exists>r \<in> set ?reqs. x = (host, r, HostGone))"
      using that unfolding out(1) by auto
    then show ?thesis using mem by (metis fst_conv snd_conv)
  qed
  show ?thesis
  proof (rule relay_invI)
    show "0 \<le> rl_next_req ?st" using inv(1) out(2) by simp
    show "pend_ok ?st" using inv(2) by (simp add: pend_ok_def p)
    show "drawn ?st r" if "live ?st h r" for h r using that l inv(3) dr by metis
    show "drawn ?st (fst (snd x))" if "x \<in> set (rl_out ?st)" for x
      using outs [OF that] inv(3,4) dr by metis
    show "\<not> live ?st h (fst (snd x))" if "x \<in> set (rl_out ?st)" for x h
      using outs [OF that] inv(5,7) l by metis
    have d: "distinct ?reqs" using inv(2) by (simp add: pend_ok_def gm_ok_def)
    have disj: "fst (snd x) \<notin> set ?reqs" if "x \<in> set (rl_out st)" for x
      using inv(5) [OF that] mem by blast
    have e: "map (fst \<circ> snd) (map (\<lambda>r. (host, r, HostGone)) ?reqs) = ?reqs" by (simp add: comp_def)
    show "distinct (map (fst \<circ> snd) (rl_out ?st))"
      unfolding out(1) map_append e distinct_append using inv(6) d disj by auto
    show "h = h'" if "live ?st h r" "live ?st h' r" for h h' r using that l inv(7) by metis
  qed
qed

lemma relay_inv_acks: "relay_inv st \<Longrightarrow> relay_inv (fst (relay_acks host now st))"
  by (simp add: relay_acks_def Let_def relay_inv_def live_def drawn_def pend_def)

lemma relay_inv_step: "relay_inv st \<Longrightarrow> relay_inv (relay_step st x)"
proof -
  assume inv: "relay_inv st"
  note ok = relay_invD(2) [OF inv]
  obtain op now where x: "x = (op, now)" by (cases x)
  show ?thesis
  proof (cases op)
    case (OpDispatch host known attached)
    obtain st1 req where n: "next_request st = (st1, req)" by (cases "next_request st")
    show ?thesis using relay_inv_dispatch [OF inv n] n x OpDispatch by (simp add: relay_step_def)
  next
    case (OpRespond host f)
    then show ?thesis
      using relay_inv_touches [OF inv touches_accept pend_ok_accept [OF ok]] x by (simp add: relay_step_def)
  next
    case (OpEnd host req ev)
    have "relay_inv (drop_pending host req now st)"
      by (rule relay_inv_touches [OF inv touches_drop pend_ok_drop [OF ok]])
    then show ?thesis using x OpEnd inv by (cases ev) (simp_all add: relay_step_def dispatch_end_def)
  next
    case (OpFail host req status msg)
    then show ?thesis
      using relay_inv_touches [OF inv touches_fail_request pend_ok_fail_request [OF ok]] x
      by (simp add: relay_step_def)
  next
    case (OpHostDown host)
    then show ?thesis using relay_inv_fail_pending [OF inv] x by (simp add: relay_step_def)
  next
    case (OpAcks host)
    then show ?thesis using relay_inv_acks [OF inv] x by (simp add: relay_step_def)
  qed
qed

lemma relay_inv_run: "relay_inv st \<Longrightarrow> relay_inv (relay_run ops st)"
  by (induction ops arbitrary: st) (simp_all add: relay_run_def relay_inv_step)

lemma relay_inv_new: "relay_inv new_relay"
  by (simp add: relay_inv_def new_relay_def live_def pend_def)

section \<open>Properties\<close>

text \<open>C2: Exactly one terminal state per relayed request. Over every history of dispatches, answers,
  chunks, cancellations, timeouts, deadline failures and disconnects, a request id is given at
  most one outcome (an answer, an error, or the host being gone), and a request with an outcome is
  no longer pending for any host, so a late or repeated chunk can never answer it again.\<close>

theorem relay_exactly_one_outcome:
  "distinct (map (fst \<circ> snd) (rl_out (relay_run ops new_relay))) \<and>
   (\<forall>x \<in> set (rl_out (relay_run ops new_relay)).
      \<forall>h. gm_get (pend (relay_run ops new_relay) h) (fst (snd x)) = None)"
  using relay_invD(5,6) [OF relay_inv_run [OF relay_inv_new]] by (fastforce simp: live_def)

lemma relay_exactly_one_outcome_witness:
  "distinct (map (fst \<circ> snd) (rl_out (relay_run
     [(OpDispatch ''h'' True True, 1), (OpHostDown ''h'', 2), (OpHostDown ''h'', 3)] new_relay)))"
  using relay_exactly_one_outcome by blast

text \<open>One answer cannot disturb another. Applying any respond frame of a host, malformed,
  oversized, out of order or for an unknown request, leaves every other pending request of every
  host exactly as it was and delivers nothing to it.\<close>

theorem relay_requests_isolated:
  assumes "accept_respond host f now st = (st', known, notify)" and "(h, r) \<noteq> (host, fr_req_id f)"
  shows "gm_get (pend st' h) r = gm_get (pend st h) r \<and>
    filter (\<lambda>x. (fst x, fst (snd x)) = (h, r)) (rl_out st') = filter (\<lambda>x. (fst x, fst (snd x)) = (h, r)) (rl_out st)"
  using touches_accept [of host f st now] assms by (auto simp: touches_def)

lemma relay_requests_isolated_witness:
  "\<exists>st st' known notify. accept_respond ''h'' (zero_frame\<lparr>fr_req_id := ''2'', fr_chunk_seq := 1\<rparr>) 5 st = (st', known, notify)
     \<and> st = put_pending ''h'' ''1'' new_pending new_relay \<and> gm_get (pend st' ''h'') ''1'' = Some new_pending"
proof -
  let ?st = "put_pending ''h'' ''1'' new_pending new_relay"
  let ?f = "zero_frame\<lparr>fr_req_id := ''2'', fr_chunk_seq := 1\<rparr>"
  obtain st' known notify where a: "accept_respond ''h'' ?f 5 ?st = (st', known, notify)"
    using prod_cases3 by blast
  have "(''h'', ''1'') \<noteq> (''h'', fr_req_id ?f)" by simp
  from relay_requests_isolated [OF a this] show ?thesis
    using a by (auto simp: pend_put gm_get_set)
qed

end
