(* ===== verification/Relay_Answer.thy ===== *)
theory Relay_Answer
  imports Relay Receiver
begin

text \<open>
  Assembly of a chunked answer, whatever order its chunks arrive in, and the acknowledgement table
  the host reads (\<open>acceptRespond\<close>, \<open>applyRespondLocked\<close>, \<open>relayAcksLocked\<close> of
  \<open>internal/hub/hub.go\<close>).
\<close>

section \<open>An honest answer\<close>

text \<open>
  The frames of one answer as a host sends them: chunk \<open>n\<close> of \<open>N\<close> is \<open>F n\<close>, base64 text of \<open>D n\<close>,
  \<open>more\<close> on all but the last, within the cap, and JSON once assembled.
\<close>

definition answer_text :: "(u64 \<Rightarrow> string) \<Rightarrow> nat \<Rightarrow> string" where
  "answer_text D n = concat (map (\<lambda>i. D (of_nat i)) [1..<Suc n])"

definition honest_answer :: "string \<Rightarrow> (u64 \<Rightarrow> frame) \<Rightarrow> (u64 \<Rightarrow> string) \<Rightarrow> u64 \<Rightarrow> bool" where
  "honest_answer req F D N \<longleftrightarrow> 0 < N \<and>
     (\<forall>n. 0 < n \<and> n \<le> N \<longrightarrow> fr_req_id (F n) = req \<and> fr_chunk_seq (F n) = n \<and>
        fr_encoding (F n) = ''base64'' \<and> b64_decode (fr_chunk (F n)) = Some (D n) \<and>
        (fr_more (F n) \<longleftrightarrow> n \<noteq> N)) \<and>
     int (length (answer_text D (unat N))) \<le> max_chunked_relay_body \<and>
     json_valid (answer_text D (unat N))"

text \<open>The pending entry after the first \<open>k\<close> chunks, with later ones parked.\<close>

definition assembled :: "(u64 \<Rightarrow> frame) \<Rightarrow> (u64 \<Rightarrow> string) \<Rightarrow> u64 \<Rightarrow> pending_req \<Rightarrow> bool" where
  "assembled F D N p \<longleftrightarrow> pr_next_chunk p < N \<and>
     pr_chunks p = answer_text D (unat (pr_next_chunk p)) \<and>
     (pr_chunked p \<longleftrightarrow> pr_next_chunk p \<noteq> 0) \<and>
     (pr_chunk_status_set p \<longleftrightarrow> pr_next_chunk p \<noteq> 0) \<and>
     (pr_next_chunk p \<noteq> 0 \<longrightarrow> pr_chunk_status p = respond_status (F 1)) \<and>
     gm_ok (pr_parked p) \<and>
     (\<forall>k f. gm_get (pr_parked p) k = Some f \<longrightarrow> f = F k \<and> pr_next_chunk p < k \<and> k \<le> N)"

lemma answer_text_Suc: "answer_text D (Suc n) = answer_text D n @ D (of_nat (Suc n))"
  by (simp add: answer_text_def)

lemma answer_text_mono: "m \<le> n \<Longrightarrow> length (answer_text D m) \<le> length (answer_text D n)"
proof (induction n)
  case (Suc n)
  then show ?case by (cases "m = Suc n") (auto simp: answer_text_Suc simp del: of_nat_Suc)
qed simp

lemma answer_text_step: "n < N \<Longrightarrow> answer_text D (unat (n + 1)) = answer_text D (unat n) @ D (n + 1)"
proof -
  assume "n < N"
  then have s: "unat (n + 1) = Suc (unat n)" by (rule word_Suc_less)
  have "of_nat (Suc (unat n)) = n + 1" unfolding s [symmetric] by (rule of_nat_unat)
  then show ?thesis unfolding s answer_text_Suc by (simp add: add.commute)
qed

text \<open>Applying the next chunk of an honest answer.\<close>

lemma apply_honest:
  assumes h: "honest_answer req F D N" and p: "assembled F D N p"
    and st: "gm_get (pend st host) req \<noteq> None"
    and parked: "gm_get (pr_parked p) (pr_next_chunk p + 1) = None"
  defines "n \<equiv> pr_next_chunk p + 1"
  shows "if n = N then
      \<exists>st' p'. apply_respond host req p (F n) now st = (st', p', True, True) \<and>
        rl_out st' = rl_out st @ [(host, req, Answered
          \<lparr>rr_status = respond_status (F 1), rr_body = RawBody (answer_text D (unat N))\<rparr>)] \<and>
        gm_get (pend st' host) req = None
    else
      \<exists>p'. apply_respond host req p (F n) now st = (put_pending host req p' st, p', False, True) \<and>
        pr_next_chunk p' = n \<and> pr_parked p' = pr_parked p \<and> assembled F D N p'"
proof -
  have lt: "pr_next_chunk p < N" using p by (simp add: assembled_def)
  have un: "unat n = Suc (unat (pr_next_chunk p))" unfolding n_def by (rule word_Suc_less [OF lt])
  have n: "0 < n" "n \<le> N"
  proof -
    show "0 < n" using un by (metis nat.simps(3) unat_0 word_gt_0)
    show "n \<le> N" unfolding n_def using lt by (rule inc_le)
  qed
  have F: "fr_chunk_seq (F n) = n" "fr_encoding (F n) = ''base64''" "b64_decode (fr_chunk (F n)) = Some (D n)"
    "fr_more (F n) \<longleftrightarrow> n \<noteq> N"
    using h n unfolding honest_answer_def by blast+
  have joined: "pr_chunks p @ D n = answer_text D (unat n)"
    using p answer_text_step [OF lt] by (simp add: assembled_def n_def)
  have "unat n \<le> unat N" using n(2) by (simp add: word_le_nat_alt)
  then have cap: "int (length (pr_chunks p) + length (D n)) \<le> max_chunked_relay_body"
    using h answer_text_mono [of "unat n" "unat N" D] joined [symmetric]
    unfolding honest_answer_def by (metis length_append of_nat_le_iff order_trans)
  define q where "q = (if pr_chunk_status_set p then p
      else p\<lparr>pr_chunk_status := respond_status (F n), pr_chunk_status_set := True\<rparr>)
      \<lparr>pr_chunked := True, pr_chunks := pr_chunks p @ D n\<rparr>"
  have ap: "apply_respond host req p (F n) now st = apply_finish host req q (F n) (respond_status (F n)) now st"
    unfolding apply_respond_def Let_def q_def using F cap by (auto simp: not_less)
  have stat: "pr_chunk_status q = respond_status (F 1)"
  proof (cases "pr_next_chunk p = 0")
    case True
    then have "\<not> pr_chunk_status_set p" "n = 1" using p by (simp_all add: assembled_def n_def)
    then show ?thesis by (simp add: q_def)
  next
    case False
    then have "pr_chunk_status_set p" "pr_chunk_status p = respond_status (F 1)"
      using p by (simp_all add: assembled_def)
    then show ?thesis by (simp add: q_def)
  qed
  have q: "pr_chunked q" "pr_chunks q = answer_text D (unat n)" "pr_parked q = pr_parked p"
    "pr_chunk_status_set q"
    using joined by (auto simp: q_def)
  show ?thesis
  proof (cases "n = N")
    case True
    have "json_valid (answer_text D (unat N))" using h by (simp add: honest_answer_def)
    then show ?thesis
      using True F q stat st unfolding ap apply_finish_def Let_def
      by (simp add: resolve_pending_def take_pending_def pend_del gm_get_del split: option.splits)
  next
    case False
    let ?p = "q\<lparr>pr_next_chunk := n\<rparr>"
    have gt: "n < k" if "pr_next_chunk p < k" "k \<noteq> n" for k
      using that word_gt_not_succ [of "pr_next_chunk p" k] unfolding n_def by blast
    have "assembled F D N ?p"
      using False n q stat p parked gt unfolding assembled_def n_def [symmetric]
      by (auto simp: order_less_le) 
    then show ?thesis
      using False F q unfolding ap apply_finish_def Let_def by simp
  qed
qed

text \<open>The chunk numbers an entry will not need again.\<close>

definition chunks_seen :: "pending_req \<Rightarrow> u64 set" where
  "chunks_seen p = {k. k \<le> pr_next_chunk p} \<union> gm_keys (pr_parked p)"

definition answer_outcome :: "(u64 \<Rightarrow> frame) \<Rightarrow> (u64 \<Rightarrow> string) \<Rightarrow> u64 \<Rightarrow> relay_outcome" where
  "answer_outcome F D N = Answered \<lparr>rr_status = respond_status (F 1), rr_body = RawBody (answer_text D (unat N))\<rparr>"

definition overflow_outcome :: relay_outcome where
  "overflow_outcome = Answered \<lparr>rr_status = 502, rr_body = ErrorBody ReasonOutOfOrder\<rparr>"

text \<open>The entry between two frames: assembled, and the next chunk is not already parked.\<close>

definition waiting :: "(u64 \<Rightarrow> frame) \<Rightarrow> (u64 \<Rightarrow> string) \<Rightarrow> u64 \<Rightarrow> string \<Rightarrow> string \<Rightarrow> relay \<Rightarrow> u64 set \<Rightarrow> bool" where
  "waiting F D N host req st seen \<longleftrightarrow>
     (\<exists>p. gm_get (pend st host) req = Some p \<and> assembled F D N p \<and>
        gm_get (pr_parked p) (pr_next_chunk p + 1) = None \<and> chunks_seen p = seen)"

definition ended :: "string \<Rightarrow> string \<Rightarrow> relay_outcome \<Rightarrow> relay \<Rightarrow> relay \<Rightarrow> bool" where
  "ended host req o' st st' \<longleftrightarrow> rl_out st' = rl_out st @ [(host, req, o')] \<and> gm_get (pend st' host) req = None"

lemma seen_step:
  assumes "pr_next_chunk p < N"
  shows "{k. k \<le> pr_next_chunk p + 1} = insert (pr_next_chunk p + 1) {k. k \<le> pr_next_chunk p}"
proof -
  have "unat (pr_next_chunk p + 1) = Suc (unat (pr_next_chunk p))" by (rule word_Suc_less [OF assms])
  then show ?thesis by (auto simp: word_le_nat_alt le_Suc_eq word_unat_eq_iff)
qed

lemma drain_honest:
  "honest_answer req F D N \<Longrightarrow> assembled F D N p \<Longrightarrow> gm_get (pend st host) req = Some p \<Longrightarrow>
    respond_drain host req p notify now st = (st', nt) \<Longrightarrow>
    ended host req (answer_outcome F D N) st st' \<or>
    (waiting F D N host req st' (chunks_seen p) \<and> rl_out st' = rl_out st)"
proof (induction host req p notify now st rule: respond_drain.induct)
  case (1 host req p notify now st)
  note h = "1.prems"(1) and asm = "1.prems"(2) and pnd = "1.prems"(3) and run = "1.prems"(4)
  let ?n = "pr_next_chunk p + 1"
  let ?d = "p\<lparr>pr_parked_bytes := pr_parked_bytes p - frame_weight (F ?n), pr_parked := gm_del ?n (pr_parked p)\<rparr>"
  show ?case
  proof (cases "gm_get (pr_parked p) ?n")
    case None
    then show ?thesis using asm pnd run by (auto simp: respond_drain.simps [of host req p] waiting_def)
  next
    case (Some f)
    then have f: "f = F ?n" and lt: "pr_next_chunk p < N" using asm by (auto simp: assembled_def)
    have asmd: "assembled F D N ?d" using asm by (auto simp: assembled_def gm_get_del split: if_splits)
    note ap = apply_honest [OF h asmd, of st host now]
    show ?thesis
    proof (cases "?n = N")
      case True
      then obtain st1 p1 where a1: "apply_respond host req ?d f now st = (st1, p1, True, True)"
        and e: "rl_out st1 = rl_out st @ [(host, req, answer_outcome F D N)]" "gm_get (pend st1 host) req = None"
        using ap pnd f by (auto simp: gm_get_del answer_outcome_def)
      have "st' = st1" using run Some a1 f by (simp add: respond_drain.simps [of host req p])
      then show ?thesis using e by (simp add: ended_def)
    next
      case False
      then obtain p1 where a1: "apply_respond host req ?d f now st = (put_pending host req p1 st, p1, False, True)"
        and p1: "pr_next_chunk p1 = ?n" "pr_parked p1 = gm_del ?n (pr_parked p)" "assembled F D N p1"
        using ap pnd f by (auto simp: gm_get_del)
      let ?st1 = "put_pending host req p1 st"
      have run1: "respond_drain host req p1 (notify \<or> True) now ?st1 = (st', nt)"
        using run Some a1 f by (simp add: respond_drain.simps [of host req p])
      have pnd1: "gm_get (pend ?st1 host) req = Some p1" by (simp add: pend_put gm_get_set)
      have "?n \<in> gm_keys (pr_parked p)" using Some by (simp add: gm_keys_iff)
      then have seen: "chunks_seen p1 = chunks_seen p"
        using seen_step [OF lt] by (auto simp: chunks_seen_def p1)
      have a1': "(put_pending host req p1 st, p1, False, True) = apply_respond host req
          (p\<lparr>pr_parked_bytes := pr_parked_bytes p - frame_weight f, pr_parked := gm_del ?n (pr_parked p)\<rparr>) f now st"
        using a1 f by simp
      have "ended host req (answer_outcome F D N) ?st1 st' \<or>
          (waiting F D N host req st' (chunks_seen p1) \<and> rl_out st' = rl_out ?st1)"
        by (rule "1.IH" [OF Some a1' refl refl refl h p1(3) pnd1 run1])
      then show ?thesis unfolding seen by (simp add: ended_def)
    qed
  qed
qed

text \<open>One frame of an honest answer.\<close>

lemma accept_honest:
  assumes h: "honest_answer req F D N" and w: "waiting F D N host req st seen"
    and n: "0 < n" "n \<le> N" and acc: "accept_respond host (F n) now st = (st', known, notify)"
  shows "ended host req (answer_outcome F D N) st st' \<or> ended host req overflow_outcome st st' \<or>
    (waiting F D N host req st' (insert n seen) \<and> rl_out st' = rl_out st)"
proof -
  obtain p where p: "gm_get (pend st host) req = Some p" "assembled F D N p"
    "gm_get (pr_parked p) (pr_next_chunk p + 1) = None" "chunks_seen p = seen"
    using w by (auto simp: waiting_def)
  have F: "fr_req_id (F n) = req" "fr_chunk_seq (F n) = n"
    using h n unfolding honest_answer_def by blast+
  have lt: "pr_next_chunk p < N" using p(2) by (simp add: assembled_def)
  have gone: "gm_get (pend (fail_relay_request host req ReasonOutOfOrder now st) host) req = None"
    "rl_out (fail_relay_request host req ReasonOutOfOrder now st) = rl_out st @ [(host, req, overflow_outcome)]"
    using p(1) by (simp_all add: fail_relay_request_def take_pending_def pend_del gm_get_del overflow_outcome_def)
  from acc show ?thesis
  proof (cases rule: accept_respond_cases)
    case unknown
    then show ?thesis using p(1) F by simp
  next
    case (ignored q)
    then have "n \<in> seen" using p F by (auto simp: chunks_seen_def gm_keys_iff)
    then show ?thesis using ignored w by (simp add: insert_absorb)
  next
    case (overflow q)
    then show ?thesis using gone F by (simp add: ended_def)
  next
    case (park q)
    then have q: "q = p" using p(1) F by simp
    let ?p = "p\<lparr>pr_parked := gm_set n (F n) (pr_parked p), pr_parked_bytes := pr_parked_bytes p + frame_weight (F n)\<rparr>"
    have "assembled F D N ?p"
      using p(2) park(5) n F q by (auto simp: assembled_def gm_get_set)
    moreover have "gm_get (pr_parked ?p) (pr_next_chunk ?p + 1) = None"
      using p(3) park(4) F q by (auto simp: gm_get_set)
    moreover have "chunks_seen ?p = insert n seen" using p(4) by (auto simp: chunks_seen_def)
    ultimately have "waiting F D N host req st' (insert n seen)"
      using park(9) F q by (simp add: waiting_def pend_put gm_get_set)
    then show ?thesis using park(9) by simp
  next
    case (resolved q q')
    then have q: "q = p" "n = pr_next_chunk p + 1" using p(1) F by simp_all
    show ?thesis
      using apply_honest [OF h p(2), of st host now] p(1,3) resolved(5) q F
      by (auto simp: ended_def answer_outcome_def split: if_splits)
  next
    case (drained q p1 st1 applied)
    then have q: "q = p" "n = pr_next_chunk p + 1" using p(1) F by simp_all
    have st1: "st1 = put_pending host req p1 st" and p1: "pr_next_chunk p1 = n" "pr_parked p1 = pr_parked p"
      "assembled F D N p1"
      using apply_honest [OF h p(2), of st host now] p(1,3) drained(5) q F by (auto split: if_splits)
    have pnd1: "gm_get (pend st1 host) req = Some p1" by (simp add: st1 pend_put gm_get_set)
    have "chunks_seen p1 = insert n (chunks_seen p)"
      using seen_step [OF lt] q(2) p1 by (auto simp: chunks_seen_def)
    moreover have "respond_drain host req p1 applied now st1 = (st', notify)" using drained(6) F by simp
    moreover have "rl_out st1 = rl_out st" by (simp add: st1)
    ultimately show ?thesis
      using drain_honest [OF h p1(3) pnd1, of applied now st' notify] p(4) by (simp add: ended_def) blast
  qed
qed

definition accept_all :: "string \<Rightarrow> frame list \<Rightarrow> time \<Rightarrow> relay \<Rightarrow> relay" where
  "accept_all host fs now st = foldl (\<lambda>st f. fst (accept_respond host f now st)) st fs"

lemma accept_gone:
  "gm_get (pend st host) req = None \<Longrightarrow> \<forall>f \<in> set fs. fr_req_id f = req \<Longrightarrow>
   rl_out (accept_all host fs now st) = rl_out st"
proof (induction fs arbitrary: st)
  case (Cons f fs)
  let ?st = "add_abort_tombstone host req now (st\<lparr>rl_late := rl_late st + 1\<rparr>)"
  have a: "fst (accept_respond host f now st) = ?st" using Cons.prems by (simp add: accept_respond_def)
  have "gm_get (pend ?st host) req = None" using Cons.prems(1) by (simp add: pend_def)
  then show ?case using Cons.IH [of ?st] Cons.prems(2) a by (simp add: accept_all_def)
qed (simp add: accept_all_def)

lemma accept_all_honest:
  assumes h: "honest_answer req F D N" and "\<forall>n \<in> set ns. 0 < n \<and> n \<le> N"
    and "waiting F D N host req st seen"
  shows "let st' = accept_all host (map F ns) now st in
    (\<exists>o' \<in> {answer_outcome F D N, overflow_outcome}. rl_out st' = rl_out st @ [(host, req, o')]) \<or>
    (rl_out st' = rl_out st \<and> waiting F D N host req st' (set ns \<union> seen))"
  using assms(2,3)
proof (induction ns arbitrary: st seen)
  case Nil
  then show ?case by (simp add: accept_all_def)
next
  case (Cons n ns)
  obtain st1 known notify where a: "accept_respond host (F n) now st = (st1, known, notify)"
    using prod_cases3 by blast
  have n: "0 < n" "n \<le> N" using Cons.prems(1) by simp_all
  have all: "accept_all host (map F (n # ns)) now st = accept_all host (map F ns) now st1"
    using a by (simp add: accept_all_def)
  have ids: "\<forall>f \<in> set (map F ns). fr_req_id f = req" using Cons.prems(1) h by (auto simp: honest_answer_def)
  from accept_honest [OF h Cons.prems(2) n a]
  consider (e) o' where "o' \<in> {answer_outcome F D N, overflow_outcome}" "ended host req o' st st1"
    | (w) "waiting F D N host req st1 (insert n seen)" "rl_out st1 = rl_out st"
    by blast
  then show ?case
  proof cases
    case e
    then have "rl_out (accept_all host (map F ns) now st1) = rl_out st1"
      using accept_gone [OF _ ids] by (simp add: ended_def)
    then show ?thesis using e unfolding all Let_def by (auto simp: ended_def)
  next
    case w
    then show ?thesis
      using Cons.IH [of st1 "insert n seen"] Cons.prems(1) unfolding all by (simp add: Let_def)
  qed
qed

section \<open>The tombstone table\<close>

definition tmap_ok :: "(string, tombstone) gomap \<Rightarrow> bool" where
  "tmap_ok m \<longleftrightarrow> gm_ok m \<and> length m \<le> max_relay_tombstones_per_host \<and>
     (\<forall>(r, ts) \<in> set m. rk_req_id (ts_ack ts) = r \<and> r \<noteq> [] \<and>
        \<not> (rk_done (ts_ack ts) \<and> rk_abort (ts_ack ts)))"

definition tomb_ok :: "relay \<Rightarrow> bool" where
  "tomb_ok st \<longleftrightarrow> (\<forall>h. tmap_ok (tombs st h))"

lemma tmap_okI:
  assumes "gm_ok m" and "length m \<le> max_relay_tombstones_per_host"
    and "\<And>r ts. (r, ts) \<in> set m \<Longrightarrow>
      rk_req_id (ts_ack ts) = r \<and> r \<noteq> [] \<and> \<not> (rk_done (ts_ack ts) \<and> rk_abort (ts_ack ts))"
  shows "tmap_ok m"
  using assms unfolding tmap_ok_def by blast

lemma tmap_ok_filter: "tmap_ok m \<Longrightarrow> tmap_ok (filter P m)"
  using order_trans [OF length_filter_le [of P m]] unfolding tmap_ok_def by auto

lemma tomb_ok_set:
  "tomb_ok st \<Longrightarrow> tmap_ok m \<Longrightarrow> (\<And>h. tombs st' h = (if h = host then m else tombs st h)) \<Longrightarrow> tomb_ok st'"
  by (simp add: tomb_ok_def)

lemma tombs_same: "rl_tombs st' = rl_tombs st \<Longrightarrow> tombs st' = tombs st"
  by (simp add: tombs_def fun_eq_iff)

lemma tomb_ok_same: "rl_tombs st' = rl_tombs st \<Longrightarrow> tomb_ok st' = tomb_ok st"
  by (drule tombs_same) (simp only: tomb_ok_def)

lemma tomb_okD:
  assumes "tomb_ok st"
  shows "gm_ok (tombs st h)" and "length (tombs st h) \<le> max_relay_tombstones_per_host"
    and "(r, ts) \<in> set (tombs st h) \<Longrightarrow>
      rk_req_id (ts_ack ts) = r \<and> r \<noteq> [] \<and> \<not> (rk_done (ts_ack ts) \<and> rk_abort (ts_ack ts))"
  using assms unfolding tomb_ok_def tmap_ok_def by blast+

lemma tomb_simps [simp]:
  "rl_tombs (put_pending host req p st) = rl_tombs st"
  "rl_tombs (del_pending host req st) = rl_tombs st"
  "rl_tombs (send_out host req o' st) = rl_tombs st"
  by (simp_all add: put_pending_def del_pending_def send_out_def Let_def)

lemma oldest_scan_in:
  "oldest_scan m best = Some (i, t) \<Longrightarrow> best = Some (i, t) \<or> i \<in> gm_keys m"
  by (induction m best rule: oldest_scan.induct) (auto split: option.splits if_splits prod.splits)

lemma oldest_scan_some: "m \<noteq> [] \<or> best \<noteq> None \<Longrightarrow> oldest_scan m best \<noteq> None"
  by (induction m best rule: oldest_scan.induct) (auto split: option.splits)

lemma evict_oldest_length: "m \<noteq> [] \<Longrightarrow> length (evict_oldest m) < length m"
proof -
  assume "m \<noteq> []"
  then obtain i t where i: "oldest_scan m None = Some (i, t)" using oldest_scan_some [of m None] by auto
  then have "i \<in> gm_keys m" using oldest_scan_in by fastforce
  then show ?thesis using i by (simp add: evict_oldest_def gm_keys_iff gm_length_del_less)
qed

lemma gm_del_sub: "set (gm_del k m) \<subseteq> set m"
  by (induction m) auto

lemma evict_oldest_sub: "set (evict_oldest m) \<subseteq> set m \<and> (gm_ok m \<longrightarrow> gm_ok (evict_oldest m))"
proof (cases "oldest_scan m None")
  case (Some x)
  then show ?thesis using gm_del_sub [of "fst x" m] by (cases x) (simp add: evict_oldest_def)
qed (simp add: evict_oldest_def)

lemma gm_set_mem: "(k', v') \<in> set (gm_set k v m) \<Longrightarrow> (k', v') = (k, v) \<or> (k', v') \<in> set m"
  by (induction m) (auto split: if_splits)

lemma tomb_ok_add:
  assumes "tomb_ok st" and "\<not> (rk_done a \<and> rk_abort a)"
  shows "tomb_ok (add_tombstone host a now st)"
proof (cases "rk_req_id a = []")
  case True
  then show ?thesis using assms by (simp add: add_tombstone_def)
next
  case False
  define m where "m = gm_set (rk_req_id a) \<lparr>ts_ack = a, ts_at = now\<rparr> (tombs st host)"
  define m' where "m' = (if length m \<le> max_relay_tombstones_per_host then m else evict_oldest m)"
  note ok = tomb_okD [OF assms(1)]
  have "length m \<le> Suc (length (tombs st host))"
    using gm_length_set_new [of "tombs st host" "rk_req_id a"] gm_length_set_old [of "tombs st host" "rk_req_id a"]
    unfolding m_def by (cases "gm_get (tombs st host) (rk_req_id a) = None") simp_all
  then have len: "length m \<le> Suc max_relay_tombstones_per_host" using ok(2) [of host] by linarith
  have c1: "length m' \<le> max_relay_tombstones_per_host"
    using len evict_oldest_length [of m] by (cases "m = []") (auto simp: m'_def)
  have c2: "gm_ok m'" using ok(1) [of host] evict_oldest_sub [of m] by (simp add: m'_def m_def)
  have sub: "set m' \<subseteq> set m" using evict_oldest_sub [of m] by (auto simp: m'_def)
  have c3: "rk_req_id (ts_ack ts) = r \<and> r \<noteq> [] \<and> \<not> (rk_done (ts_ack ts) \<and> rk_abort (ts_ack ts))"
    if "(r, ts) \<in> set m'" for r ts
    using gm_set_mem [OF subsetD [OF sub that, unfolded m_def]] ok(3) [of r ts host] False assms(2) by auto
  have c4: "add_tombstone host a now st = st\<lparr>rl_tombs := gm_set host m' (rl_tombs st)\<rparr>"
    using False by (simp add: add_tombstone_def m_def m'_def Let_def)
  have c5: "tombs (st\<lparr>rl_tombs := gm_set host m' (rl_tombs st)\<rparr>) h = (if h = host then m' else tombs st h)" for h
    by (simp add: tombs_def gm_get_set)
  show ?thesis unfolding c4 by (rule tomb_ok_set [OF assms(1) tmap_okI [OF c2 c1 c3] c5])
qed

lemma tomb_ok_abort: "tomb_ok st \<Longrightarrow> tomb_ok (add_abort_tombstone host req now st)"
  by (simp add: add_abort_tombstone_def tomb_ok_add)

lemma tomb_ok_done: "tomb_ok st \<Longrightarrow> tomb_ok (add_done_tombstone host req c now st)"
  by (simp add: add_done_tombstone_def tomb_ok_add)

lemma tomb_ok_wrap [simp]:
  "tomb_ok (put_pending host req p st) = tomb_ok st"
  "tomb_ok (del_pending host req st) = tomb_ok st"
  "tomb_ok (send_out host req o' st) = tomb_ok st"
  "tomb_ok (st\<lparr>rl_late := n\<rparr>) = tomb_ok st"
  "tomb_ok (st\<lparr>rl_pending := q\<rparr>) = tomb_ok st"
  "tomb_ok (st\<lparr>rl_next_req := i\<rparr>) = tomb_ok st"
  by (rule tomb_ok_same, simp)+

lemma tomb_ok_terminal:
  assumes "tomb_ok st"
  shows "tomb_ok (fail_relay_request host req reason now st)" "tomb_ok (fail_request host req status msg now st)"
    "tomb_ok (resolve_pending host req resp final now st)" "tomb_ok (drop_pending host req now st)"
  using assms by (auto simp: fail_relay_request_def fail_request_def resolve_pending_def drop_pending_def
      take_pending_def tomb_ok_abort tomb_ok_done split: option.splits)

lemma tomb_ok_apply:
  assumes "tomb_ok st" and "apply_respond host req p f now st = (st', p', resolved, applied)"
  shows "tomb_ok st'"
  using assms(2)
proof (cases rule: apply_respond_cases)
  case (finish q)
  then show ?thesis using assms(1) by (auto simp: apply_finish_def Let_def tomb_ok_terminal split: if_splits)
qed (use assms(1) in \<open>simp add: tomb_ok_terminal\<close>)

lemma tomb_ok_drain: "tomb_ok st \<Longrightarrow> respond_drain host req p notify now st = (st', nt) \<Longrightarrow> tomb_ok st'"
proof (induction host req p notify now st rule: respond_drain.induct)
  case (1 host req p notify now st)
  show ?case
  proof (cases "gm_get (pr_parked p) (pr_next_chunk p + 1)")
    case None
    then show ?thesis using "1.prems" by (simp add: respond_drain.simps [of host req p])
  next
    case (Some f)
    obtain st1 p1 resolved applied where a: "apply_respond host req
        (p\<lparr>pr_parked_bytes := pr_parked_bytes p - frame_weight f,
           pr_parked := gm_del (pr_next_chunk p + 1) (pr_parked p)\<rparr>) f now st = (st1, p1, resolved, applied)"
      using prod_cases4 by blast
    note ok = tomb_ok_apply [OF "1.prems"(1) a]
    show ?thesis
    proof (cases resolved)
      case True
      then show ?thesis using ok "1.prems"(2) Some a by (simp add: respond_drain.simps [of host req p])
    next
      case False
      have "respond_drain host req p1 (notify \<or> applied) now st1 = (st', nt)"
        using "1.prems"(2) Some a False by (simp add: respond_drain.simps [of host req p])
      then show ?thesis by (intro "1.IH" [OF Some a [symmetric] refl refl]) (use False ok in auto)
    qed
  qed
qed

lemma tomb_ok_accept: "tomb_ok st \<Longrightarrow> accept_respond host f now st = (st', known, notify) \<Longrightarrow> tomb_ok st'"
proof -
  assume ok: "tomb_ok st" and acc: "accept_respond host f now st = (st', known, notify)"
  from acc show ?thesis
  proof (cases rule: accept_respond_cases)
    case unknown
    then show ?thesis using ok by (simp add: tomb_ok_abort)
  next
    case (resolved p p')
    then show ?thesis using tomb_ok_apply [OF ok] by blast
  next
    case (drained p p' st1 applied)
    then show ?thesis using tomb_ok_drain [OF tomb_ok_apply [OF ok drained(5)]] by blast
  qed (use ok in \<open>simp_all add: tomb_ok_terminal\<close>)
qed

lemma tomb_ok_acks: "tomb_ok st \<Longrightarrow> tomb_ok (fst (relay_acks host now st))"
proof -
  assume ok: "tomb_ok st"
  let ?kept = "filter (\<lambda>(req, ts). \<not> now - ts_at ts > relay_tombstone_ttl) (tombs st host)"
  have k: "tombs (fst (relay_acks host now st)) h = (if h = host then ?kept else tombs st h)" for h
    by (auto simp: relay_acks_def Let_def tombs_def gm_get_set gm_get_del)
  have "tmap_ok ?kept" using ok unfolding tomb_ok_def by (intro tmap_ok_filter) blast
  then show ?thesis by (rule tomb_ok_set [OF ok _ k])
qed

lemma tomb_ok_loop: "tomb_ok st \<Longrightarrow> tomb_ok (fail_pending_loop host reqs now st)"
  by (induction reqs arbitrary: st) (simp_all add: tomb_ok_abort)

lemma tomb_ok_step: "tomb_ok st \<Longrightarrow> tomb_ok (relay_step st x)"
proof -
  assume ok: "tomb_ok st"
  obtain op now where x: "x = (op, now)" by (cases x)
  show ?thesis
  proof (cases op)
    case (OpDispatch host known attached)
    then show ?thesis
      using ok x by (auto simp: relay_step_def next_request_def dispatch_register_def split: option.splits)
  next
    case (OpRespond host f)
    then show ?thesis
      using tomb_ok_accept [OF ok] x by (cases "accept_respond host f now st") (auto simp: relay_step_def)
  next
    case (OpEnd host req ev)
    then show ?thesis
      using ok x by (cases ev) (simp_all add: relay_step_def dispatch_end_def tomb_ok_terminal)
  next
    case (OpHostDown host)
    then show ?thesis using ok x by (simp add: relay_step_def fail_pending_def Let_def tomb_ok_loop)
  qed (use ok x in \<open>simp_all add: relay_step_def tomb_ok_terminal tomb_ok_acks\<close>)
qed

lemma tomb_ok_run: "tomb_ok st \<Longrightarrow> tomb_ok (relay_run ops st)"
  by (induction ops arbitrary: st) (simp_all add: relay_run_def tomb_ok_step)

lemma tomb_ok_new: "tomb_ok new_relay"
  by (simp add: tomb_ok_def tmap_ok_def new_relay_def tombs_def)

section \<open>Properties\<close>

text \<open>C5: The answer does not depend on the order of its chunks. Feed a fresh request any
  sequence of an honest answer's chunks, in any order and with any repeats: the browser is never
  given anything but that answer, the chunks' bytes in chunk order with the first chunk's status,
  unless the parking bound fails the request; and once every chunk has arrived it has been given
  one of the two. No partial or reordered body is ever delivered.\<close>

theorem chunks_in_any_order:
  assumes "honest_answer req F D N" and "\<forall>n \<in> set ns. 0 < n \<and> n \<le> N"
  shows "let out = rl_out (accept_all host (map F ns) now (put_pending host req new_pending new_relay)) in
    (out = [] \<or> out = [(host, req, Answered \<lparr>rr_status = respond_status (F 1),
                          rr_body = RawBody (concat (map (\<lambda>i. D (of_nat i)) [1..<Suc (unat N)]))\<rparr>)] \<or>
     out = [(host, req, Answered \<lparr>rr_status = 502, rr_body = ErrorBody ReasonOutOfOrder\<rparr>)]) \<and>
    ({n. 0 < n \<and> n \<le> N} \<subseteq> set ns \<longrightarrow> out \<noteq> [])"
proof -
  let ?st = "put_pending host req new_pending new_relay"
  have asm: "assembled F D N new_pending"
    using assms(1) by (simp add: assembled_def new_pending_def honest_answer_def answer_text_def)
  have w: "waiting F D N host req ?st {0}"
    using asm by (auto simp: waiting_def pend_put gm_get_set chunks_seen_def new_pending_def word_le_0_iff)
  have out0: "rl_out ?st = []" by (simp add: new_relay_def)
  let ?st' = "accept_all host (map F ns) now ?st"
  note r = accept_all_honest [OF assms w, of now, unfolded Let_def out0 append_Nil]
  have "rl_out ?st' \<noteq> []" if "{n. 0 < n \<and> n \<le> N} \<subseteq> set ns"
  proof
    assume "rl_out ?st' = []"
    then obtain p where p: "assembled F D N p" "gm_get (pr_parked p) (pr_next_chunk p + 1) = None"
      "chunks_seen p = set ns \<union> {0}"
      using r by (auto simp: waiting_def)
    have lt: "pr_next_chunk p < N" using p(1) by (simp add: assembled_def)
    have un: "unat (pr_next_chunk p + 1) = Suc (unat (pr_next_chunk p))" by (rule word_Suc_less [OF lt])
    then have "0 < pr_next_chunk p + 1" by (simp add: word_less_nat_alt)
    moreover have "pr_next_chunk p + 1 \<le> N" using lt by (rule inc_le)
    ultimately have "pr_next_chunk p + 1 \<in> chunks_seen p" using that p(3) by auto
    then have "pr_next_chunk p + 1 \<le> pr_next_chunk p"
      using p(2) by (auto simp: chunks_seen_def gm_keys_iff)
    then show False using un by (simp add: word_le_nat_alt)
  qed
  then show ?thesis
    using r unfolding Let_def answer_outcome_def overflow_outcome_def answer_text_def by blast
qed

lemma honest_sample:
  "honest_answer ''7'' (\<lambda>n. zero_frame\<lparr>fr_req_id := ''7'', fr_chunk_seq := n, fr_encoding := ''base64'',
      fr_more := n \<noteq> 2, fr_chunk := (if n = 1 then ''WzEs'' else ''Ml0='')\<rparr>)
    (\<lambda>n. if n = 1 then ''[1,'' else ''2]'') 2"
proof -
  have t: "answer_text (\<lambda>n. if n = 1 then ''[1,'' else ''2]'') (unat (2 :: u64)) = ''[1,2]''"
    by (simp add: answer_text_def upt_rec)
  have "b64_decode ''WzEs'' = Some ''[1,''" "b64_decode ''Ml0='' = Some ''2]''" "json_valid ''[1,2]''"
    by code_simp+
  then show ?thesis
    unfolding honest_answer_def t by (simp add: max_chunked_relay_body_def zero_frame_def)
qed

lemma chunks_in_any_order_witness:
  "\<exists>F. rl_out (accept_all ''h'' (map F [2, 1, 2 :: u64]) 0 (put_pending ''h'' ''7'' new_pending new_relay)) \<noteq> []"
proof -
  let ?F = "\<lambda>n. zero_frame\<lparr>fr_req_id := ''7'', fr_chunk_seq := n, fr_encoding := ''base64'',
      fr_more := n \<noteq> 2, fr_chunk := (if n = 1 then ''WzEs'' else ''Ml0='')\<rparr>"
  have two: "n = 1 \<or> n = 2" if "0 < n" "n \<le> (2 :: u64)" for n
  proof -
    have "unat n = 1 \<or> unat n = 2" using that by (auto simp: word_le_nat_alt word_less_nat_alt)
    then show ?thesis by (auto simp: word_unat_eq_iff)
  qed
  have "\<forall>n \<in> set [2, 1, 2 :: u64]. 0 < n \<and> n \<le> 2" by (simp add: word_le_nat_alt)
  from chunks_in_any_order [OF honest_sample this, of "''h''" 0]
  have "{n. 0 < n \<and> n \<le> (2 :: u64)} \<subseteq> set [2, 1, 2] \<longrightarrow>
      rl_out (accept_all ''h'' (map ?F [2, 1, 2 :: u64]) 0 (put_pending ''h'' ''7'' new_pending new_relay)) \<noteq> []"
    unfolding Let_def by (rule conjunct2)
  moreover have "{n. 0 < n \<and> n \<le> (2 :: u64)} \<subseteq> set [2, 1, 2]" using two by auto
  ultimately show ?thesis by blast
qed

text \<open>C35: The cap on an assembled answer holds only for base64 chunks. A \<open>respond\<close> frame that carries
  a raw \<open>body\<close> instead of a chunk is appended without any check, so frames the hub accepts can grow
  the buffered answer past \<open>maxChunkedRelayBody\<close>, with the request neither failed nor answered.\<close>

theorem raw_fragments_escape_cap:
  assumes "gm_get (pend st host) req = Some p" and "fr_req_id f = req"
    and "fr_chunk_seq f = pr_next_chunk p + 1" and "pr_next_chunk p < pr_next_chunk p + 1"
    and "fr_chunk f = []" and "fr_encoding f = []" and "fr_more f"
    and "gm_get (pr_parked p) (pr_next_chunk p + 1 + 1) = None"
    and "accept_respond host f now st = (st', known, notify)"
  shows "known \<and> rl_out st' = rl_out st \<and> (\<exists>p'. gm_get (pend st' host) req = Some p' \<and>
    length (pr_chunks p') = length (pr_chunks p) + length (fr_body f))"
proof -
  let ?p = "(if pr_chunk_status_set p then p
      else p\<lparr>pr_chunk_status := respond_status f, pr_chunk_status_set := True\<rparr>)
      \<lparr>pr_chunked := True, pr_chunks := pr_chunks p @ fr_body f, pr_next_chunk := pr_next_chunk p + 1\<rparr>"
  have ap: "apply_respond host req p f now st = (put_pending host req ?p st, ?p, False, True)"
    unfolding apply_respond_def apply_finish_def Let_def using assms(3,5,6,7) by auto
  have "respond_drain host req ?p True now (put_pending host req ?p st) = (put_pending host req ?p st, True)"
    using assms(8) by (simp add: respond_drain.simps [of host req ?p])
  then have "accept_respond host f now st = (put_pending host req ?p st, True, True)"
    using assms(1-4) ap by (simp add: accept_respond_def not_le)
  then show ?thesis using assms(9) by (auto simp: pend_put gm_get_set)
qed

lemma raw_fragments_escape_cap_witness:
  "\<exists>f st' known notify p'. accept_respond ''h'' f 0 (put_pending ''h'' ''7'' new_pending new_relay) = (st', known, notify)
     \<and> rl_out st' = [] \<and> gm_get (pend st' ''h'') ''7'' = Some p' \<and> int (length (pr_chunks p')) > max_chunked_relay_body"
proof -
  let ?f = "zero_frame\<lparr>fr_req_id := ''7'', fr_chunk_seq := 1, fr_more := True,
      fr_body := replicate (nat (max_chunked_relay_body + 1)) CHR ''1''\<rparr>"
  let ?st = "put_pending ''h'' ''7'' new_pending new_relay"
  obtain st' known notify where a: "accept_respond ''h'' ?f 0 ?st = (st', known, notify)"
    using prod_cases3 by blast
  have "known \<and> rl_out st' = rl_out ?st \<and> (\<exists>p'. gm_get (pend st' ''h'') ''7'' = Some p' \<and>
    length (pr_chunks p') = length (pr_chunks new_pending) + length (fr_body ?f))"
    by (rule raw_fragments_escape_cap [OF _ _ _ _ _ _ _ _ a])
      (simp_all add: pend_put gm_get_set new_pending_def zero_frame_def word_less_nat_alt)
  moreover have "rl_out ?st = []" by (simp add: new_relay_def)
  moreover have "int (length (pr_chunks new_pending) + length (fr_body ?f)) > max_chunked_relay_body"
    by (simp add: new_pending_def max_chunked_relay_body_def)
  ultimately show ?thesis using a by metis
qed

text \<open>The acknowledgement table the hub puts into \<open>hello_ack\<close> and every heartbeat is well formed
  after any history: every entry names a request, none is both done and aborted, so the frame
  passes the peer's own validation; no request is listed twice, the order is by id, and a host
  never keeps more than \<open>maxRelayTombstonesPerHost\<close> tombstones.\<close>

theorem relay_ack_table_valid:
  "let st = relay_run ops new_relay; acks = snd (relay_acks host now st) in
     validate_relay_acks acks = None \<and> distinct (map rk_req_id acks) \<and> sorted (map rk_req_id acks) \<and>
     length (tombs st host) \<le> max_relay_tombstones_per_host"
proof -
  define st where "st = relay_run ops new_relay"
  have ok: "tomb_ok st" unfolding st_def by (rule tomb_ok_run [OF tomb_ok_new])
  have inv: "relay_inv st" unfolding st_def by (rule relay_inv_run [OF relay_inv_new])
  define lv where "lv = map (\<lambda>(req, p). \<lparr>rk_req_id = req, rk_chunk = pr_next_chunk p, rk_done = False,
    rk_abort = False\<rparr>) (pend st host)"
  define kept where "kept = filter (\<lambda>(req, ts). \<not> now - ts_at ts > relay_tombstone_ttl) (tombs st host)"
  define sel where "sel = filter (\<lambda>(req, ts). gm_get (pend st host) req = None) kept"
  have acks: "snd (relay_acks host now st) = sort_key rk_req_id (lv @ map (ts_ack \<circ> snd) sel)"
    by (simp add: relay_acks_def Let_def lv_def kept_def sel_def comp_def)
  have sub: "set sel \<subseteq> set (tombs st host)" by (auto simp: sel_def kept_def)
  have named: "rk_req_id (ts_ack ts) = r" "r \<noteq> []" "\<not> (rk_done (ts_ack ts) \<and> rk_abort (ts_ack ts))"
    if "(r, ts) \<in> set sel" for r ts
    using tomb_okD(3) [OF ok subsetD [OF sub that]] by blast+
  have ids: "map rk_req_id (map (ts_ack \<circ> snd) sel) = map fst sel" using named(1) by auto
  have idl: "map rk_req_id lv = map fst (pend st host)" by (auto simp: lv_def)
  have nonempty: "r \<noteq> []" if "r \<in> gm_keys (pend st host)" for r
  proof -
    have "live st host r" using that by (simp add: live_def gm_keys_iff)
    then have "drawn st r" by (rule relay_invD(3) [OF inv])
    then show ?thesis using enc_dec_digits by (auto simp: drawn_def enc_int_def)
  qed
  have d1: "distinct (map fst (pend st host))" using relay_invD(2) [OF inv] by (simp add: pend_ok_def gm_ok_def)
  have "gm_ok sel" unfolding sel_def kept_def using tomb_okD(1) [OF ok] by simp
  then have d2: "distinct (map fst sel)" by (simp add: gm_ok_def)
  have disj: "gm_keys (pend st host) \<inter> gm_keys sel = {}"
  proof -
    have "gm_get (pend st host) r = None" if "r \<in> gm_keys sel" for r using that by (auto simp: sel_def)
    then show ?thesis by (metis disjoint_iff gm_keys_iff)
  qed
  have d: "distinct (map rk_req_id (lv @ map (ts_ack \<circ> snd) sel))"
    unfolding map_append ids idl using d1 d2 disj by simp
  have "\<forall>a \<in> set lv. rk_req_id a \<noteq> [] \<and> \<not> (rk_done a \<and> rk_abort a)"
    using nonempty by (force simp: lv_def)
  moreover have "\<forall>a \<in> set (map (ts_ack \<circ> snd) sel). rk_req_id a \<noteq> [] \<and> \<not> (rk_done a \<and> rk_abort a)"
    using named by force
  ultimately have v: "validate_relay_acks (snd (relay_acks host now st)) = None"
    unfolding acks validate_relay_acks_iff by auto
  have "distinct (map rk_req_id (snd (relay_acks host now st)))"
  proof -
    have "mset (map rk_req_id (snd (relay_acks host now st))) = mset (map rk_req_id (lv @ map (ts_ack \<circ> snd) sel))"
      unfolding acks mset_map mset_sort ..
    then show ?thesis using d mset_eq_imp_distinct_iff by blast
  qed
  then show ?thesis
    using v tomb_okD(2) [OF ok] unfolding st_def [symmetric] Let_def acks by simp
qed

text \<open>A delivered answer stays delivered. Once a request has a done tombstone, an abort for the
  same id (a late duplicate chunk, a cancelled wait) never replaces it.\<close>

theorem done_tombstone_wins:
  assumes "gm_get (tombs st host) req = Some ts" and "rk_done (ts_ack ts)"
  shows "gm_get (tombs (add_abort_tombstone host req now st) host) req = Some ts \<and>
    gm_get (tombs (drop_pending host req now (st\<lparr>rl_pending := []\<rparr>)) host) req = Some ts"
  using assms by (simp add: add_abort_tombstone_def drop_pending_def tombs_def)

lemma done_tombstone_wins_witness:
  "\<exists>st ts. gm_get (tombs (add_abort_tombstone ''h'' ''1'' 9 st) ''h'') ''1'' = Some ts \<and> rk_done (ts_ack ts)"
proof -
  let ?st = "add_done_tombstone ''h'' ''1'' 3 5 new_relay"
  have t: "gm_get (tombs ?st ''h'') ''1'' = Some \<lparr>ts_ack = \<lparr>rk_req_id = ''1'', rk_chunk = 3, rk_done = True,
      rk_abort = False\<rparr>, ts_at = 5\<rparr>"
    by (simp add: add_done_tombstone_def add_tombstone_def tombs_def new_relay_def
        max_relay_tombstones_per_host_def)
  from done_tombstone_wins [OF t, of 9] show ?thesis by (intro exI [of _ ?st]) auto
qed

end
