(* ===== verification/Events.thy ===== *)
theory Events
  imports Json_Print
begin

text \<open>
  Hub events (\<open>internal/hub/hub.go\<close>, the \<open>Event\<close> map): the keys the hub reads, the shallow
  header of a raw host event, the splice that tags its bytes, and the drop-tier policy. An event
  is a Go map from names to values; a value keeps its dynamic type, because the code reads it
  through type assertions. A float is given by its integral part (towards zero), all that
  \<open>evSeq\<close> uses; any other value is given by its JSON text.
\<close>

datatype any_val =
    VStr string
  | VRaw string
  | VBool bool
  | VInt int
  | VU64 u64
  | VFloat int
  | VJson string

type_synonym event = "(string, any_val) gomap"

abbreviation nul :: char where "nul \<equiv> CHR 0x00"

definition raw_wire_key :: string where "raw_wire_key = nul # ''wire''"
definition raw_session_key :: string where "raw_session_key = nul # ''sessionId''"
definition terminal_tool_update_key :: string where
  "terminal_tool_update_key = nul # ''terminalToolUpdate''"

text \<open>A type assertion to string with the comma-ok form: the zero value on any other type.\<close>

definition str_of :: "any_val option \<Rightarrow> string" where
  "str_of v = (case v of Some (VStr s) \<Rightarrow> s | _ \<Rightarrow> [])"

definition ev_seq :: "event \<Rightarrow> u64" where
  "ev_seq ev =
     (case gm_get ev ''seq'' of
        Some (VFloat t) \<Rightarrow> if t > 0 then of_int t else 0
      | Some (VU64 w) \<Rightarrow> w
      | Some (VInt i) \<Rightarrow> if i > 0 then of_int i else 0
      | _ \<Rightarrow> 0)"

definition event_session_id :: "event \<Rightarrow> string" where
  "event_session_id ev =
     (if str_of (gm_get ev ''sessionId'') \<noteq> [] then str_of (gm_get ev ''sessionId'')
      else str_of (gm_get ev raw_session_key))"

definition critical_event_types :: "string list" where
  "critical_event_types =
     [''done'', ''turn_completed'', ''cancelled'', ''prompt_complete'', ''error'',
      ''client_request'', ''client_request_resolved'']"

definition critical_event :: "event \<Rightarrow> bool" where
  "critical_event ev \<longleftrightarrow>
     gm_get ev terminal_tool_update_key = Some (VBool True) \<or>
     str_of (gm_get ev ''type'') \<in> set critical_event_types"

definition resync_frame :: "event \<Rightarrow> event" where
  "resync_frame ev =
     (let out = [(''type'', VStr ''resync''), (''fromSeq'', VU64 (ev_seq ev))];
          host = str_of (gm_get ev ''hostId'')
      in if host \<noteq> [] then gm_set ''hostId'' (VStr host) out else out)"

definition hosts_changed :: event where
  "hosts_changed = [(''type'', VStr ''hosts_changed''), (''params'', VJson [CHR 0x7B, CHR 0x7D])]"

section \<open>Wire bytes\<close>

definition enc_any :: "any_val \<Rightarrow> string" where
  "enc_any v =
     (case v of
        VStr s \<Rightarrow> enc_str s
      | VRaw r \<Rightarrow> enc_raw r
      | VBool b \<Rightarrow> enc_bool b
      | VInt i \<Rightarrow> enc_int i
      | VU64 w \<Rightarrow> enc_u64 w
      | VFloat t \<Rightarrow> enc_int t
      | VJson t \<Rightarrow> t)"

definition any_ok :: "any_val \<Rightarrow> bool" where
  "any_ok v = (case v of VRaw r \<Rightarrow> r = [] \<or> json_valid r | _ \<Rightarrow> True)"

text \<open>\<open>json.Marshal\<close> of a map writes the members by ascending key; an invalid raw value fails.\<close>

definition json_marshal_event :: "event \<Rightarrow> string option" where
  "json_marshal_event ev =
     (if list_all (any_ok \<circ> snd) ev
      then Some (enc_obj (map (\<lambda>(k, v). (k, enc_any v)) (sort_key fst ev)))
      else None)"

definition marshal_event :: "event \<Rightarrow> string option" where
  "marshal_event ev =
     (case gm_get ev raw_wire_key of Some (VRaw raw) \<Rightarrow> Some raw | _ \<Rightarrow> json_marshal_event ev)"

definition event_bytes :: "event \<Rightarrow> int" where
  "event_bytes ev =
     (case gm_get ev raw_wire_key of
        Some (VRaw raw) \<Rightarrow> int (length raw)
      | _ \<Rightarrow> (case json_marshal_event ev of Some b \<Rightarrow> int (length b) | None \<Rightarrow> 0))"

definition events_bytes :: "event list \<Rightarrow> int" where
  "events_bytes evs = foldl (\<lambda>n ev. n + event_bytes ev) 0 evs"

section \<open>Raw host events\<close>

record raw_event_meta =
  rm_seq :: u64
  rm_type :: string
  rm_session_id :: string
  rm_status :: string

definition tool_call_update_fields :: "raw_event_meta field list" where
  "tool_call_update_fields =
     [(''status'', \<lambda>raw m. map_option (\<lambda>v. m\<lparr>rm_status := v\<rparr>) (dec_str raw (rm_status m)))]"

definition raw_event_meta_fields :: "raw_event_meta field list" where
  "raw_event_meta_fields =
     [(''seq'', \<lambda>raw m. map_option (\<lambda>v. m\<lparr>rm_seq := v\<rparr>) (dec_u64 raw (rm_seq m))),
      (''type'', \<lambda>raw m. map_option (\<lambda>v. m\<lparr>rm_type := v\<rparr>) (dec_str raw (rm_type m))),
      (''sessionId'', \<lambda>raw m. map_option (\<lambda>v. m\<lparr>rm_session_id := v\<rparr>) (dec_str raw (rm_session_id m))),
      (''toolCallUpdate'', dec_struct tool_call_update_fields)]"

definition zero_meta :: raw_event_meta where
  "zero_meta = \<lparr>rm_seq = 0, rm_type = [], rm_session_id = [], rm_status = []\<rparr>"

definition unmarshal_meta :: "string \<Rightarrow> raw_event_meta option" where
  "unmarshal_meta raw = unmarshal (dec_struct raw_event_meta_fields) zero_meta raw"

text \<open>\<open>bytes.TrimRight(raw, " \t\r\n")\<close> and the object test both call sites repeat.\<close>

definition trim_right_ws :: "string \<Rightarrow> string" where
  "trim_right_ws s = rev (dropWhile is_ws (rev s))"

definition not_object :: "string \<Rightarrow> bool" where
  "not_object r \<longleftrightarrow> length r < 2 \<or> hd r \<noteq> CHR 0x7B \<or> last r \<noteq> CHR 0x7D"

definition splice_raw_event :: "string \<Rightarrow> string \<Rightarrow> string \<Rightarrow> string option" where
  "splice_raw_event raw id_json name_json =
     (let r = trim_right_ws raw
      in if not_object r then None
         else let out = butlast r;
                  out = (if length out > 1 then out @ '','' else out)
              in Some (out @ [quote] @ ''hostId'' @ [quote, CHR '':''] @ id_json @
                       [CHR '','', quote] @ ''hostName'' @ [quote, CHR '':''] @ name_json @ [CHR 0x7D]))"

text \<open>The event the hub keeps for one raw body, \<open>None\<close> when the loop skips it.\<close>

definition raw_to_event :: "string \<Rightarrow> string \<Rightarrow> string \<Rightarrow> (event \<times> raw_event_meta) option" where
  "raw_to_event host_id host_name raw =
     (let r = trim_right_ws raw
      in if not_object r then None
         else case unmarshal_meta r of
                None \<Rightarrow> None
              | Some m \<Rightarrow>
                  (case splice_raw_event r (enc_str host_id) (enc_str host_name) of
                     None \<Rightarrow> None
                   | Some wire_bytes \<Rightarrow>
                       let ev = [(raw_wire_key, VRaw wire_bytes), (''type'', VStr (rm_type m)),
                                 (''seq'', VU64 (rm_seq m)), (''hostId'', VStr host_id),
                                 (''hostName'', VStr host_name)];
                           ev = (if rm_session_id m \<noteq> []
                                 then gm_set raw_session_key (VStr (rm_session_id m)) ev else ev);
                           ev = (if rm_status m \<in> {''completed'', ''failed''}
                                 then gm_set terminal_tool_update_key (VBool True) ev else ev)
                       in Some (ev, m)))"

section \<open>Lemmas\<close>

lemmas event_keys = raw_wire_key_def raw_session_key_def terminal_tool_update_key_def

lemma str_of_simps [simp]: "str_of None = []" "str_of (Some (VStr s)) = s"
  by (simp_all add: str_of_def)

lemma events_bytes_foldl: "foldl (\<lambda>n ev. n + event_bytes ev) a evs = a + sum_list (map event_bytes evs)"
  by (induction evs arbitrary: a) auto

lemma events_bytes_sum: "events_bytes evs = sum_list (map event_bytes evs)"
  by (simp add: events_bytes_def events_bytes_foldl)

lemma event_bytes_nonneg: "0 \<le> event_bytes ev"
  by (auto simp: event_bytes_def split: option.splits any_val.splits)

lemma resync_not_critical: "\<not> critical_event (resync_frame ev)"
  by (auto simp: critical_event_def resync_frame_def Let_def event_keys gm_get_set
      critical_event_types_def)

lemma resync_host: "str_of (gm_get (resync_frame ev) ''hostId'') = str_of (gm_get ev ''hostId'')"
  by (auto simp: resync_frame_def Let_def gm_get_set)

text \<open>What the hub knows of a raw event it keeps: its tags and the header fields it lifted.\<close>

lemma raw_to_event_fields:
  assumes "raw_to_event host_id host_name raw = Some (ev, m)"
  shows "gm_get ev ''hostId'' = Some (VStr host_id)" and "ev_seq ev = rm_seq m"
    and "str_of (gm_get ev ''type'') = rm_type m" and "event_session_id ev = rm_session_id m"
    and "unmarshal_meta (trim_right_ws raw) = Some m"
    and "critical_event ev \<longleftrightarrow> rm_type m \<in> set critical_event_types \<or> rm_status m \<in> {''completed'', ''failed''}"
  using assms
  by (auto simp: raw_to_event_def Let_def event_keys gm_get_set ev_seq_def event_session_id_def
      critical_event_def split: option.splits if_splits)

end
