(* ===== verification/FeQueue.thy ===== *)
theory FeQueue
  imports Events "HOL-Library.Sublist"
begin

text \<open>
  One browser subscriber's delivery queue (\<open>feSubscriber\<close> in \<open>internal/hub/hub.go\<close>): the ring in
  front of its channel, the drop accounting, and the pump goroutine that owns every write to the
  channel. The pump and every call of \<open>noteDrop\<close> have a program counter with one step per critical
  section or atomic operation, so that deliveries from several goroutines, reads by the consumer and
  the stop of the subscriber interleave with them at every lock boundary. \<open>sub_deliver\<close> is a delivery
  that runs to its end undisturbed, which is what the fan-out of the other theories composes.
\<close>

section \<open>The ring buffer\<close>

record ring =
  rg_buf :: "event list"
  rg_head :: nat
  rg_n :: nat

definition ring_new :: "nat \<Rightarrow> ring" where
  "ring_new slots = \<lparr>rg_buf = replicate slots [], rg_head = 0, rg_n = 0\<rparr>"

definition ring_push :: "event \<Rightarrow> ring \<Rightarrow> ring" where
  "ring_push ev r = r\<lparr>rg_buf := (rg_buf r)[(rg_head r + rg_n r) mod length (rg_buf r) := ev],
                      rg_n := rg_n r + 1\<rparr>"

definition ring_peek :: "ring \<Rightarrow> event" where
  "ring_peek r = rg_buf r ! rg_head r"

definition ring_pop :: "ring \<Rightarrow> ring" where
  "ring_pop r = r\<lparr>rg_buf := (rg_buf r)[rg_head r := []],
                  rg_head := (rg_head r + 1) mod length (rg_buf r), rg_n := rg_n r - 1\<rparr>"

definition ring_contents :: "ring \<Rightarrow> event list" where
  "ring_contents r = map (\<lambda>i. rg_buf r ! ((rg_head r + i) mod length (rg_buf r))) [0..<rg_n r]"

definition ring_ok :: "nat \<Rightarrow> ring \<Rightarrow> bool" where
  "ring_ok slots r \<longleftrightarrow> length (rg_buf r) = slots \<and> 0 < slots \<and> rg_head r < slots \<and> rg_n r \<le> slots"

text \<open>What the pump relies on: a bounded first-in first-out queue.\<close>

locale bounded_fifo =
  fixes push :: "'a \<Rightarrow> 'q \<Rightarrow> 'q" and peek :: "'q \<Rightarrow> 'a" and pop :: "'q \<Rightarrow> 'q"
    and contents :: "'q \<Rightarrow> 'a list" and ok :: "'q \<Rightarrow> bool" and capacity :: nat
  assumes push_contents: "ok q \<Longrightarrow> length (contents q) < capacity \<Longrightarrow> contents (push x q) = contents q @ [x]"
    and push_ok: "ok q \<Longrightarrow> length (contents q) < capacity \<Longrightarrow> ok (push x q)"
    and peek_contents: "ok q \<Longrightarrow> contents q \<noteq> [] \<Longrightarrow> peek q = hd (contents q)"
    and pop_contents: "ok q \<Longrightarrow> contents q \<noteq> [] \<Longrightarrow> contents (pop q) = tl (contents q)"
    and pop_ok: "ok q \<Longrightarrow> contents q \<noteq> [] \<Longrightarrow> ok (pop q)"
    and ok_bound: "ok q \<Longrightarrow> length (contents q) \<le> capacity"
begin

lemma peek_pop: "ok q \<Longrightarrow> contents q \<noteq> [] \<Longrightarrow> contents q = peek q # contents (pop q)"
  by (simp add: peek_contents pop_contents)

fun drain :: "nat \<Rightarrow> 'q \<Rightarrow> 'a list" where
  "drain 0 q = []"
| "drain (Suc n) q = (if contents q = [] then [] else peek q # drain n (pop q))"

lemma drain_contents: "ok q \<Longrightarrow> drain n q = take n (contents q)"
proof (induction n arbitrary: q)
  case (Suc n)
  then show ?case
  proof (cases "contents q = []")
    case False
    then have "drain n (pop q) = take n (contents (pop q))" using Suc pop_ok by blast
    then show ?thesis using False peek_pop [OF Suc.prems False]
      by (metis drain.simps(2) take_Suc_Cons)
  qed simp
qed simp

end

lemma ring_slot_inj:
  assumes "i \<noteq> j" and "i < n" and "j < n" and "n \<le> (slots::nat)"
  shows "(h + i) mod slots \<noteq> (h + j) mod slots"
proof
  assume "(h + i) mod slots = (h + j) mod slots"
  then have "int ((h + i) mod slots) = int ((h + j) mod slots)" by (rule arg_cong)
  then have "int (h + i) mod int slots = int (h + j) mod int slots" by (simp only: zmod_int)
  then have "int slots dvd (int (h + i) - int (h + j))" by (simp only: mod_eq_dvd_iff)
  moreover have "int (h + i) - int (h + j) = int i - int j" by simp
  ultimately have d: "int slots dvd (int i - int j)" by (simp only:)
  have "int i - int j \<noteq> 0" using assms(1) by simp
  from dvd_imp_le_int [OF this d] show False using assms(2-4) by linarith
qed

lemma ring_push_contents:
  assumes "ring_ok slots r" and "rg_n r < slots"
  shows "ring_contents (ring_push ev r) = ring_contents r @ [ev]"
proof -
  have len: "length (rg_buf r) = slots" using assms by (simp add: ring_ok_def)
  have old: "(rg_buf r)[(rg_head r + rg_n r) mod slots := ev] ! ((rg_head r + i) mod slots) =
      rg_buf r ! ((rg_head r + i) mod slots)" if "i < rg_n r" for i
    using ring_slot_inj [of i "rg_n r" "Suc (rg_n r)" slots "rg_head r"] that assms by simp
  have new: "(rg_buf r)[(rg_head r + rg_n r) mod slots := ev] ! ((rg_head r + rg_n r) mod slots) = ev"
    using assms by (simp add: ring_ok_def)
  show ?thesis using old new by (simp add: ring_contents_def ring_push_def len)
qed

lemma ring_pop_contents:
  assumes "ring_ok slots r" and "0 < rg_n r"
  shows "ring_contents (ring_pop r) = tl (ring_contents r)" and "ring_peek r = hd (ring_contents r)"
proof -
  have len: "length (rg_buf r) = slots" "rg_head r < slots" "rg_n r \<le> slots" using assms by (simp_all add: ring_ok_def)
  have slot: "(Suc (rg_head r) mod slots + i) mod slots = (rg_head r + Suc i) mod slots" for i
    by (simp add: mod_simps)
  have keep: "(rg_buf r)[rg_head r := []] ! ((rg_head r + Suc i) mod slots) = rg_buf r ! ((rg_head r + Suc i) mod slots)"
    if "Suc i < rg_n r" for i
    using ring_slot_inj [of 0 "Suc i" "rg_n r" slots "rg_head r"] that len by simp
  have "ring_contents r = rg_buf r ! rg_head r # map (\<lambda>i. rg_buf r ! ((rg_head r + Suc i) mod slots)) [0..<rg_n r - 1]"
    using assms len
    by (cases "rg_n r") (simp_all add: ring_contents_def upt_conv_Cons map_Suc_upt [symmetric] comp_def del: upt_Suc)
  then show "ring_contents (ring_pop r) = tl (ring_contents r)" and "ring_peek r = hd (ring_contents r)"
    using keep by (simp_all add: ring_contents_def ring_pop_def ring_peek_def len slot)
qed

lemma ring_ok_push: "ring_ok slots r \<Longrightarrow> rg_n r < slots \<Longrightarrow> ring_ok slots (ring_push ev r)"
  by (simp add: ring_ok_def ring_push_def)

lemma ring_ok_pop: "ring_ok slots r \<Longrightarrow> ring_ok slots (ring_pop r)"
  by (auto simp: ring_ok_def ring_pop_def)

lemma ring_contents_length [simp]: "length (ring_contents r) = rg_n r"
  by (simp add: ring_contents_def)

lemma ring_contents_Nil [simp]: "ring_contents r = [] \<longleftrightarrow> rg_n r = 0"
  by (simp add: ring_contents_def)

section \<open>The subscriber queue\<close>

definition sub_ring_cap :: nat where "sub_ring_cap = 2048"
definition sub_ring_critical_slack :: nat where "sub_ring_critical_slack = 512"
definition resync_drop_threshold :: int where "resync_drop_threshold = 32"

definition sub_ring_size :: nat where "sub_ring_size = sub_ring_cap + sub_ring_critical_slack"

text \<open>
  Where a call of \<open>noteDrop\<close> is: about to count, to clear the counter, or to queue its frame. Where
  the pump is: at the loop head, holding a resync frame it must hand over, holding the ring's head
  (still counted in the ring), in \<open>noteDrop\<close> for it, about to remove it, or gone.
\<close>

datatype drop_pc = DropCount | DropReset | DropQueue

datatype pump_pc = PumpTop | PumpPending event | PumpHead event | PumpDrop event drop_pc | PumpPop | PumpExit

record fe_queue =
  fq_chan :: "event list"
  fq_cap :: nat
  fq_ring :: ring
  fq_pending :: "event option"
  fq_wake :: bool
  fq_done :: bool
  fq_dropped :: int
  fq_stat_dropped :: u64
  fq_stat_resyncs :: u64
  fq_pc :: pump_pc
  fq_drops :: "(event \<times> bool \<times> drop_pc) list"

definition new_fe_subscriber :: "nat \<Rightarrow> fe_queue" where
  "new_fe_subscriber ch_cap =
     \<lparr>fq_chan = [], fq_cap = ch_cap, fq_ring = ring_new sub_ring_size, fq_pending = None, fq_wake = False,
      fq_done = False, fq_dropped = 0, fq_stat_dropped = 0, fq_stat_resyncs = 0, fq_pc = PumpTop, fq_drops = []\<rparr>"

definition sub_stop :: "fe_queue \<Rightarrow> fe_queue" where
  "sub_stop s = s\<lparr>fq_done := True\<rparr>"

definition queue_resync :: "event \<Rightarrow> fe_queue \<Rightarrow> fe_queue" where
  "queue_resync ev s = s\<lparr>fq_pending := Some ev, fq_wake := True\<rparr>"

text \<open>One step of \<open>noteDrop(ev, critical)\<close>, and where the call is then; \<open>None\<close> is its return.\<close>

definition drop_step :: "event \<Rightarrow> bool \<Rightarrow> drop_pc \<Rightarrow> fe_queue \<Rightarrow> fe_queue \<times> drop_pc option" where
  "drop_step ev critical pc s =
     (case pc of
        DropCount \<Rightarrow>
          let s = s\<lparr>fq_stat_dropped := fq_stat_dropped s + 1, fq_dropped := fq_dropped s + 1\<rparr>
          in (s, if \<not> critical \<and> fq_dropped s < resync_drop_threshold then None else Some DropReset)
      | DropReset \<Rightarrow> (s\<lparr>fq_dropped := 0\<rparr>, Some DropQueue)
      | DropQueue \<Rightarrow> (queue_resync (resync_frame ev) s, None))"

definition note_drop :: "event \<Rightarrow> bool \<Rightarrow> fe_queue \<Rightarrow> fe_queue" where
  "note_drop ev critical s =
     (case drop_step ev critical DropCount s of
        (s, None) \<Rightarrow> s
      | (s, Some pc) \<Rightarrow> fst (drop_step ev critical DropQueue (fst (drop_step ev critical pc s))))"

definition enqueue_limit :: "bool \<Rightarrow> fe_queue \<Rightarrow> nat" where
  "enqueue_limit critical s = (if critical then length (rg_buf (fq_ring s)) else sub_ring_cap)"

text \<open>The critical section of \<open>enqueue\<close>: whether the event was taken in.\<close>

definition try_enqueue :: "event \<Rightarrow> bool \<Rightarrow> fe_queue \<Rightarrow> fe_queue \<times> bool" where
  "try_enqueue ev critical s =
     (if enqueue_limit critical s \<le> rg_n (fq_ring s) then (s, False)
      else (s\<lparr>fq_ring := ring_push ev (fq_ring s), fq_wake := True\<rparr>, True))"

definition sub_enqueue :: "event \<Rightarrow> bool \<Rightarrow> fe_queue \<Rightarrow> fe_queue" where
  "sub_enqueue ev critical s =
     (case try_enqueue ev critical s of (s, True) \<Rightarrow> s | (s, False) \<Rightarrow> note_drop ev critical s)"

definition sub_deliver :: "event \<Rightarrow> fe_queue \<Rightarrow> fe_queue" where
  "sub_deliver ev s = sub_enqueue ev (critical_event ev) s"

definition chan_room :: "fe_queue \<Rightarrow> bool" where
  "chan_room s \<longleftrightarrow> length (fq_chan s) < fq_cap s"

definition chan_push :: "event \<Rightarrow> fe_queue \<Rightarrow> fe_queue" where
  "chan_push ev s = s\<lparr>fq_chan := fq_chan s @ [ev]\<rparr>"

text \<open>
  \<open>send\<close>: a select between the channel and \<open>done\<close>; when both are ready Go picks either, which is
  the argument \<open>pick_done\<close>. \<open>None\<close> is a goroutine that waits.
\<close>

definition sub_send :: "bool \<Rightarrow> event \<Rightarrow> fe_queue \<Rightarrow> (fe_queue \<times> bool) option" where
  "sub_send pick_done ev s =
     (if chan_room s \<and> \<not> (fq_done s \<and> pick_done) then Some (chan_push ev s, True)
      else if fq_done s then Some (s, False) else None)"

definition sub_try_send :: "event \<Rightarrow> fe_queue \<Rightarrow> fe_queue \<times> bool" where
  "sub_try_send ev s = (if chan_room s then (chan_push ev s, True) else (s, False))"

text \<open>
  What an observer of the queue sees: an event taken into the ring or refused, an event or a resync
  frame handed to the consumer's channel, an event the pump dropped, a resync frame queued.
\<close>

datatype sub_obs =
    Accepted event
  | Refused event
  | Sent event
  | SentResync event
  | Dropped event
  | QueuedResync event

definition drop_obs :: "event \<Rightarrow> drop_pc \<Rightarrow> sub_obs list" where
  "drop_obs ev pc = (if pc = DropQueue then [QueuedResync (resync_frame ev)] else [])"

definition pump_top :: "bool \<Rightarrow> fe_queue \<Rightarrow> (fe_queue \<times> sub_obs list) option" where
  "pump_top pick_done s =
     (case fq_pending s of
        Some ev \<Rightarrow> Some (s\<lparr>fq_pending := None, fq_pc := PumpPending ev\<rparr>, [])
      | None \<Rightarrow>
          if rg_n (fq_ring s) = 0 then
            if fq_wake s \<and> \<not> (fq_done s \<and> pick_done) then Some (s\<lparr>fq_wake := False\<rparr>, [])
            else if fq_done s then Some (s\<lparr>fq_pc := PumpExit\<rparr>, [])
            else None
          else Some (s\<lparr>fq_pc := PumpHead (ring_peek (fq_ring s))\<rparr>, []))"

definition pump_pending :: "bool \<Rightarrow> event \<Rightarrow> fe_queue \<Rightarrow> (fe_queue \<times> sub_obs list) option" where
  "pump_pending pick_done ev s =
     (case sub_send pick_done ev s of
        None \<Rightarrow> None
      | Some (s1, ok) \<Rightarrow>
          if \<not> ok then Some (s1\<lparr>fq_pc := PumpExit\<rparr>, [])
          else Some ((if str_of (gm_get ev ''type'') = ''resync''
                      then s1\<lparr>fq_stat_resyncs := fq_stat_resyncs s1 + 1\<rparr> else s1)\<lparr>fq_pc := PumpTop\<rparr>,
                     [SentResync ev]))"

definition pump_head :: "bool \<Rightarrow> event \<Rightarrow> fe_queue \<Rightarrow> (fe_queue \<times> sub_obs list) option" where
  "pump_head pick_done ev s =
     (if critical_event ev then
        case sub_send pick_done ev s of
          None \<Rightarrow> None
        | Some (s1, ok) \<Rightarrow>
            if \<not> ok then Some (s1\<lparr>fq_pc := PumpExit\<rparr>, []) else Some (s1\<lparr>fq_pc := PumpPop\<rparr>, [Sent ev])
      else
        case sub_try_send ev s of
          (s1, True) \<Rightarrow> Some (s1\<lparr>fq_pc := PumpPop\<rparr>, [Sent ev])
        | (s1, False) \<Rightarrow>
            if fq_done s1 then Some (s1\<lparr>fq_pc := PumpExit\<rparr>, [])
            else Some (s1\<lparr>fq_pc := PumpDrop ev DropCount\<rparr>, [Dropped ev]))"

definition pump_drop :: "event \<Rightarrow> drop_pc \<Rightarrow> fe_queue \<Rightarrow> (fe_queue \<times> sub_obs list) option" where
  "pump_drop ev pc s =
     (case drop_step ev False pc s of
        (s, next) \<Rightarrow> Some (s\<lparr>fq_pc := (case next of None \<Rightarrow> PumpPop | Some pc \<Rightarrow> PumpDrop ev pc)\<rparr>, drop_obs ev pc))"

definition pump_step :: "bool \<Rightarrow> fe_queue \<Rightarrow> (fe_queue \<times> sub_obs list) option" where
  "pump_step pick_done s =
     (case fq_pc s of
        PumpTop \<Rightarrow> pump_top pick_done s
      | PumpPending ev \<Rightarrow> pump_pending pick_done ev s
      | PumpHead ev \<Rightarrow> pump_head pick_done ev s
      | PumpDrop ev pc \<Rightarrow> pump_drop ev pc s
      | PumpPop \<Rightarrow> Some (s\<lparr>fq_ring := ring_pop (fq_ring s), fq_pc := PumpTop\<rparr>, [])
      | PumpExit \<Rightarrow> None)"

text \<open>
  All interleavings of the fan-out path, the pump, the consumer and the unsubscribe path. A refused
  delivery leaves its call of \<open>noteDrop\<close> behind, and any of the calls in progress may go on.
\<close>

definition deliver_step :: "event \<Rightarrow> fe_queue \<Rightarrow> fe_queue \<times> sub_obs list" where
  "deliver_step ev s =
     (case try_enqueue ev (critical_event ev) s of
        (s, True) \<Rightarrow> (s, [Accepted ev])
      | (s, False) \<Rightarrow> (s\<lparr>fq_drops := fq_drops s @ [(ev, critical_event ev, DropCount)]\<rparr>, [Refused ev]))"

definition note_step :: "nat \<Rightarrow> fe_queue \<Rightarrow> fe_queue \<times> sub_obs list" where
  "note_step i s =
     (case fq_drops s ! i of (ev, critical, pc) \<Rightarrow>
        (case drop_step ev critical pc s of
           (s, None) \<Rightarrow> (s\<lparr>fq_drops := take i (fq_drops s) @ drop (Suc i) (fq_drops s)\<rparr>, drop_obs ev pc)
         | (s, Some pc') \<Rightarrow> (s\<lparr>fq_drops := (fq_drops s)[i := (ev, critical, pc')]\<rparr>, drop_obs ev pc)))"

inductive sub_step :: "fe_queue \<times> sub_obs list \<Rightarrow> fe_queue \<times> sub_obs list \<Rightarrow> bool" where
  Deliver: "deliver_step ev s = (s', obs) \<Longrightarrow> sub_step (s, t) (s', t @ obs)"
| Note: "i < length (fq_drops s) \<Longrightarrow> note_step i s = (s', obs) \<Longrightarrow> sub_step (s, t) (s', t @ obs)"
| Pump: "pump_step pick_done s = Some (s', obs) \<Longrightarrow> sub_step (s, t) (s', t @ obs)"
| Consume: "fq_chan s = ev # rest \<Longrightarrow> sub_step (s, t) (s\<lparr>fq_chan := rest\<rparr>, t)"
| Stop: "sub_step (s, t) (sub_stop s, t)"

inductive_cases sub_step_cases: "sub_step (s, t) st'"

section \<open>The ring implements the queue\<close>

interpretation sub_ring: bounded_fifo ring_push ring_peek ring_pop ring_contents "ring_ok slots" slots
  for slots
  by unfold_locales
    (auto simp: ring_push_contents ring_pop_contents ring_ok_push ring_ok_pop, simp add: ring_ok_def)

lemma ring_new_ok: "0 < slots \<Longrightarrow> ring_ok slots (ring_new slots)" "ring_contents (ring_new slots) = []"
  by (simp_all add: ring_ok_def ring_new_def)

section \<open>Reading a trace\<close>

fun accepted :: "sub_obs list \<Rightarrow> event list" where
  "accepted [] = []"
| "accepted (Accepted ev # t) = ev # accepted t"
| "accepted (_ # t) = accepted t"

fun sent :: "sub_obs list \<Rightarrow> event list" where
  "sent [] = []"
| "sent (Sent ev # t) = ev # sent t"
| "sent (_ # t) = sent t"

fun owed_step :: "event option \<Rightarrow> sub_obs \<Rightarrow> event option" where
  "owed_step d (QueuedResync r) = Some r"
| "owed_step d (SentResync r) = (if d = Some r then None else d)"
| "owed_step d _ = d"

definition owed :: "sub_obs list \<Rightarrow> event option" where
  "owed t = foldl owed_step None t"

lemma accepted_append [simp]: "accepted (t @ u) = accepted t @ accepted u"
  by (induction t rule: accepted.induct) auto

lemma sent_append [simp]: "sent (t @ u) = sent t @ sent u"
  by (induction t rule: sent.induct) auto

lemma owed_append: "owed (t @ u) = foldl owed_step (owed t) u"
  by (simp add: owed_def)

text \<open>With nothing owed, the newest frame queued after any point has been handed over since.\<close>

definition settled_since :: "sub_obs list \<Rightarrow> bool" where
  "settled_since t \<longleftrightarrow> (\<exists>a r b. t = a @ QueuedResync r # b \<and> SentResync r \<in> set b)"

lemma settled_since_Cons: "settled_since t \<Longrightarrow> settled_since (x # t)"
  unfolding settled_since_def by (metis append_Cons)

lemma settled_since_now: "SentResync r \<in> set t \<Longrightarrow> settled_since (QueuedResync r # t)"
  unfolding settled_since_def by (metis append_Nil)

lemma owed_settled:
  "foldl owed_step d t = None \<Longrightarrow> d = None \<or> (\<exists>r. SentResync r \<in> set t \<and> d = Some r) \<or> settled_since t"
proof (induction t arbitrary: d)
  case (Cons x t)
  have IH: "owed_step d x = None \<or> (\<exists>r. SentResync r \<in> set t \<and> owed_step d x = Some r) \<or> settled_since t"
    using Cons.IH [of "owed_step d x"] Cons.prems by simp
  show ?case
  proof (cases x)
    case (QueuedResync r)
    then show ?thesis using IH settled_since_Cons settled_since_now by auto
  next
    case (SentResync r)
    then show ?thesis using IH settled_since_Cons by (cases "d = Some r") auto
  qed (use IH settled_since_Cons in auto)
qed simp

section \<open>The invariant of every interleaving\<close>

definition head_lost :: "pump_pc \<Rightarrow> bool" where
  "head_lost pc \<longleftrightarrow> (case pc of PumpPop \<Rightarrow> True | PumpDrop ev d \<Rightarrow> True | _ \<Rightarrow> False)"

lemma head_lost_simps [simp]:
  "\<not> head_lost PumpTop" "\<not> head_lost (PumpPending r)" "\<not> head_lost (PumpHead ev)" "head_lost (PumpDrop ev d)" "head_lost PumpPop"
  "\<not> head_lost PumpExit"
  by (simp_all add: head_lost_def)

definition remaining :: "fe_queue \<Rightarrow> event list" where
  "remaining s = (if head_lost (fq_pc s) then tl (ring_contents (fq_ring s)) else ring_contents (fq_ring s))"

definition owed_ok :: "fe_queue \<Rightarrow> sub_obs list \<Rightarrow> bool" where
  "owed_ok s t \<longleftrightarrow> (\<forall>r. owed t = Some r \<longrightarrow> fq_pending s = Some r \<or>
     (fq_pending s = None \<and> fq_pc s = PumpPending r) \<or> (fq_done s \<and> fq_pc s = PumpExit))"

definition shape_ok :: "fe_queue \<Rightarrow> bool" where
  "shape_ok s \<longleftrightarrow> ring_ok sub_ring_size (fq_ring s) \<and> length (fq_chan s) \<le> fq_cap s \<and>
     (head_lost (fq_pc s) \<longrightarrow> 0 < rg_n (fq_ring s)) \<and>
     (\<forall>ev. fq_pc s = PumpHead ev \<longrightarrow> 0 < rg_n (fq_ring s) \<and> ev = hd (ring_contents (fq_ring s)))"

definition order_ok :: "fe_queue \<Rightarrow> sub_obs list \<Rightarrow> bool" where
  "order_ok s t \<longleftrightarrow> subseq (sent t @ remaining s) (accepted t) \<and>
     filter critical_event (accepted t) = filter critical_event (sent t @ remaining s)"

definition lost :: "sub_obs list \<Rightarrow> event \<Rightarrow> bool" where
  "lost t ev \<longleftrightarrow> Refused ev \<in> set t \<or> Dropped ev \<in> set t"

text \<open>Every frame queued or about to be queued is that of a lost event.\<close>

definition source_ok :: "fe_queue \<Rightarrow> sub_obs list \<Rightarrow> bool" where
  "source_ok s t \<longleftrightarrow> (\<forall>r. QueuedResync r \<in> set t \<longrightarrow> (\<exists>ev. r = resync_frame ev \<and> lost t ev)) \<and>
     (\<forall>(ev, c, pc) \<in> set (fq_drops s). lost t ev) \<and> (\<forall>ev pc. fq_pc s = PumpDrop ev pc \<longrightarrow> lost t ev)"

text \<open>A refused critical event has its frame queued after it, or its call of \<open>noteDrop\<close> is in progress.\<close>

definition escalated :: "fe_queue \<Rightarrow> sub_obs list \<Rightarrow> bool" where
  "escalated s t \<longleftrightarrow> (\<forall>pre ev post. t = pre @ Refused ev # post \<and> critical_event ev \<longrightarrow>
     (\<exists>pc. (ev, True, pc) \<in> set (fq_drops s)) \<or> QueuedResync (resync_frame ev) \<in> set post)"

definition queue_inv :: "fe_queue \<Rightarrow> sub_obs list \<Rightarrow> bool" where
  "queue_inv s t \<longleftrightarrow> shape_ok s \<and> order_ok s t \<and> escalated s t \<and> owed_ok s t \<and> source_ok s t"

lemma drop_step_frame:
  assumes "drop_step ev c pc s = (s', next)"
  shows "fq_ring s' = fq_ring s" "fq_pc s' = fq_pc s" "fq_chan s' = fq_chan s" "fq_cap s' = fq_cap s" "fq_done s' = fq_done s"
    "fq_drops s' = fq_drops s" "fq_pending s' = (if pc = DropQueue then Some (resync_frame ev) else fq_pending s)"
    "next = None \<Longrightarrow> c \<Longrightarrow> pc = DropQueue"
  using assms by (auto simp: drop_step_def queue_resync_def Let_def split: drop_pc.splits)

lemma quiet_owed: "\<forall>r. QueuedResync r \<notin> set u \<and> SentResync r \<notin> set u \<Longrightarrow> foldl owed_step d u = d"
  by (induction u arbitrary: d) (auto, metis (full_types) owed_step.simps(3-6) sub_obs.exhaust)

lemma taken_drop_obs [simp]: "accepted (drop_obs ev pc) = []" "sent (drop_obs ev pc) = []"
  by (simp_all add: drop_obs_def)

lemma in_drop_obs [simp]: "x \<in> set (drop_obs ev pc) \<longleftrightarrow> pc = DropQueue \<and> x = QueuedResync (resync_frame ev)"
  by (auto simp: drop_obs_def)

lemma lost_append: "lost t ev \<Longrightarrow> lost (t @ u) ev"
  by (auto simp: lost_def)

lemma source_ok_mono:
  assumes "source_ok s t" and "\<forall>r. QueuedResync r \<in> set u \<longrightarrow> (\<exists>ev. r = resync_frame ev \<and> lost (t @ u) ev)"
    and "\<And>ev c pc. (ev, c, pc) \<in> set (fq_drops s') \<Longrightarrow> (\<exists>c pc. (ev, c, pc) \<in> set (fq_drops s)) \<or> lost (t @ u) ev"
    and "\<And>ev pc. fq_pc s' = PumpDrop ev pc \<Longrightarrow> (\<exists>pc. fq_pc s = PumpDrop ev pc) \<or> lost (t @ u) ev"
  shows "source_ok s' (t @ u)"
proof -
  have q: "\<exists>ev. r = resync_frame ev \<and> lost (t @ u) ev" if "QueuedResync r \<in> set (t @ u)" for r
  proof (cases "QueuedResync r \<in> set t")
    case True
    then show ?thesis using assms(1) lost_append unfolding source_ok_def by blast
  next
    case False
    then show ?thesis using that assms(2) by simp
  qed
  have d: "lost (t @ u) ev" if "(ev, c, pc) \<in> set (fq_drops s')" for ev c pc
    using assms(3) [OF that] assms(1) lost_append unfolding source_ok_def by blast
  have p: "lost (t @ u) ev" if "fq_pc s' = PumpDrop ev pc" for ev pc
    using assms(4) [OF that] assms(1) lost_append unfolding source_ok_def by blast
  show ?thesis unfolding source_ok_def using q d p by blast
qed

lemma escalated_mono:
  assumes "escalated s t" and "\<forall>ev. Refused ev \<notin> set u"
    and "\<And>ev pc. (ev, True, pc) \<in> set (fq_drops s) \<Longrightarrow> (\<exists>pc. (ev, True, pc) \<in> set (fq_drops s')) \<or> QueuedResync (resync_frame ev) \<in> set u"
  shows "escalated s' (t @ u)"
  unfolding escalated_def
proof (intro allI impI)
  fix pre ev post
  assume t: "t @ u = pre @ Refused ev # post \<and> critical_event ev"
  have "Refused ev \<notin> set u" using assms(2) by blast
  with t obtain post' where p: "t = pre @ Refused ev # post'" "post = post' @ u"
    by (auto simp: append_eq_append_conv2 append_eq_Cons_conv)
  then have "(\<exists>pc. (ev, True, pc) \<in> set (fq_drops s)) \<or> QueuedResync (resync_frame ev) \<in> set post'"
    using assms(1) t unfolding escalated_def by blast
  then show "(\<exists>pc. (ev, True, pc) \<in> set (fq_drops s')) \<or> QueuedResync (resync_frame ev) \<in> set post"
    using assms(3) p(2) by auto
qed

lemma shape_ok_frame:
  assumes "shape_ok s" and "fq_ring s' = fq_ring s" "fq_chan s' = fq_chan s" "fq_cap s' = fq_cap s"
    and "fq_pc s' = fq_pc s"
  shows "shape_ok s'"
  using assms by (simp add: shape_ok_def)

lemma order_ok_frame:
  assumes "order_ok s t" and "fq_ring s' = fq_ring s" and "head_lost (fq_pc s') = head_lost (fq_pc s)"
    and "accepted u = []" and "sent u = []"
  shows "order_ok s' (t @ u)"
  using assms by (simp only: order_ok_def remaining_def accepted_append sent_append append_Nil2)

lemma deliver_cases:
  assumes "deliver_step ev s = (s', obs)"
  obtains (Taken) "s' = s\<lparr>fq_ring := ring_push ev (fq_ring s), fq_wake := True\<rparr>" "obs = [Accepted ev]"
      "rg_n (fq_ring s) < enqueue_limit (critical_event ev) s"
  | (Turned_away) "s' = s\<lparr>fq_drops := fq_drops s @ [(ev, critical_event ev, DropCount)]\<rparr>" "obs = [Refused ev]"
  using assms by (auto simp: deliver_step_def try_enqueue_def not_le split: if_splits)

lemma queue_inv_deliver:
  assumes inv: "queue_inv s t" and st: "deliver_step ev s = (s', obs)"
  shows "queue_inv s' (t @ obs)"
  using st
proof (cases rule: deliver_cases)
  case Turned_away
  have "escalated s' (t @ [Refused ev])"
    unfolding escalated_def
  proof (intro allI impI)
    fix pre e post
    assume t: "t @ [Refused ev] = pre @ Refused e # post \<and> critical_event e"
    show "(\<exists>pc. (e, True, pc) \<in> set (fq_drops s')) \<or> QueuedResync (resync_frame e) \<in> set post"
    proof (cases post rule: rev_cases)
      case Nil
      then show ?thesis using t Turned_away(1) by auto
    next
      case (snoc post' x)
      then have "t = pre @ Refused e # post'" using t by simp
      then have "(\<exists>pc. (e, True, pc) \<in> set (fq_drops s)) \<or> QueuedResync (resync_frame e) \<in> set post'"
        using inv t unfolding queue_inv_def escalated_def by blast
      then show ?thesis using snoc Turned_away(1) by auto
    qed
  qed
  moreover have "source_ok s' (t @ [Refused ev])"
    by (rule source_ok_mono [of s]) (use inv Turned_away(1) in \<open>auto simp: queue_inv_def lost_def\<close>)
  moreover have "order_ok s' (t @ [Refused ev])"
    by (rule order_ok_frame [of s]) (use inv Turned_away(1) in \<open>simp_all add: queue_inv_def\<close>)
  moreover have "shape_ok s'"
    by (rule shape_ok_frame [of s]) (use inv Turned_away(1) in \<open>simp_all add: queue_inv_def\<close>)
  ultimately show ?thesis using inv Turned_away
    by (simp add: queue_inv_def owed_ok_def owed_append)
next
  case Taken
  have shape: "ring_ok sub_ring_size (fq_ring s)" using inv by (simp add: queue_inv_def shape_ok_def)
  then have room: "rg_n (fq_ring s) < sub_ring_size"
    using Taken(3) by (auto simp: enqueue_limit_def ring_ok_def sub_ring_size_def split: if_splits)
  have cont: "ring_contents (ring_push ev (fq_ring s)) = ring_contents (fq_ring s) @ [ev]"
    using sub_ring.push_contents [OF shape] room by simp
  have "shape_ok s'"
    using inv ring_ok_push [OF shape room, of ev] cont
    by (auto simp: queue_inv_def shape_ok_def Taken(1) hd_append ring_push_def)
  moreover have "remaining s' = remaining s @ [ev]"
    using inv cont by (auto simp: remaining_def Taken(1) queue_inv_def shape_ok_def)
  then have "order_ok s' (t @ [Accepted ev])"
    using inv list_emb_append_mono [of "(=)" "sent t @ remaining s" "accepted t" "[ev]" "[ev]"]
    by (auto simp: queue_inv_def order_ok_def)
  moreover have "escalated s' (t @ [Accepted ev])"
    by (rule escalated_mono [of s]) (use inv Taken(1) in \<open>auto simp: queue_inv_def\<close>)
  moreover have "source_ok s' (t @ [Accepted ev])"
    by (rule source_ok_mono [of s]) (use inv Taken(1) in \<open>auto simp: queue_inv_def\<close>)
  ultimately show ?thesis using inv Taken(1,2) by (simp add: queue_inv_def owed_ok_def owed_append)
qed

lemma owed_ok_drop:
  assumes "owed_ok s t" and "drop_step ev c pc s = (s1, nx)" and "fq_pending s' = fq_pending s1"
    and "\<And>r. fq_pc s = PumpPending r \<Longrightarrow> fq_pc s' = PumpPending r" and "fq_pc s = PumpExit \<Longrightarrow> fq_pc s' = PumpExit"
    and "fq_done s' = fq_done s"
  shows "owed_ok s' (t @ drop_obs ev pc)"
proof -
  have "fq_pending s' = (if pc = DropQueue then Some (resync_frame ev) else fq_pending s)"
    using drop_step_frame(7) [OF assms(2)] assms(3) by simp
  then show ?thesis using assms(1,4-6) by (auto simp: owed_ok_def owed_append drop_obs_def)
qed

lemma note_cases:
  assumes "note_step i s = (s', obs)" and "i < length (fq_drops s)"
  obtains ev c pc s1 nx where "fq_drops s ! i = (ev, c, pc)" "drop_step ev c pc s = (s1, nx)" "obs = drop_obs ev pc"
    "s' = s1\<lparr>fq_drops := (case nx of None \<Rightarrow> take i (fq_drops s) @ drop (Suc i) (fq_drops s)
                         | Some pc' \<Rightarrow> (fq_drops s)[i := (ev, c, pc')])\<rparr>"
proof -
  obtain ev c pc where d: "fq_drops s ! i = (ev, c, pc)" by (cases "fq_drops s ! i")
  obtain s1 nx where st: "drop_step ev c pc s = (s1, nx)" by (cases "drop_step ev c pc s")
  have "fq_drops s1 = fq_drops s" by (rule drop_step_frame [OF st])
  then show thesis using assms(1) d st by (intro that [OF d st]) (auto simp: note_step_def split: option.splits)
qed

lemma drops_without:
  assumes "i < length xs" and "x \<in> set xs" and "x \<noteq> xs ! i"
  shows "x \<in> set (take i xs @ drop (Suc i) xs)" and "x \<in> set (xs[i := y])"
proof -
  obtain j where j: "j < length xs" "xs ! j = x" using assms(2) by (auto simp: in_set_conv_nth)
  then have ne: "j \<noteq> i" using assms(3) by blast
  have "xs = take i xs @ xs ! i # drop (Suc i) xs" using assms(1) by (rule id_take_nth_drop)
  then show "x \<in> set (take i xs @ drop (Suc i) xs)" using assms(2,3) by (metis Un_iff set_append set_ConsD)
  have "xs[i := y] ! j = x" using j ne by simp
  then show "x \<in> set (xs[i := y])" using j(1) by (metis length_list_update nth_mem)
qed

lemma queue_inv_note:
  assumes inv: "queue_inv s t" and i: "i < length (fq_drops s)" and st: "note_step i s = (s', obs)"
  shows "queue_inv s' (t @ obs)"
  using st i
proof (cases rule: note_cases)
  case (1 ev c pc s1 nx)
  note fr = drop_step_frame [OF 1(2)]
  let ?ds = "fq_drops s'"
  have ds: "?ds = (case nx of None \<Rightarrow> take i (fq_drops s) @ drop (Suc i) (fq_drops s) | Some pc' \<Rightarrow> (fq_drops s)[i := (ev, c, pc')])"
    by (simp add: 1(4))
  have mem: "(ev, c, pc) \<in> set (fq_drops s)" using i 1(1) by (metis nth_mem)
  have same: "fq_ring s' = fq_ring s" "fq_pc s' = fq_pc s" "fq_chan s' = fq_chan s" "fq_cap s' = fq_cap s" "fq_done s' = fq_done s"
    "fq_pending s' = fq_pending s1" using fr by (simp_all add: 1(4))
  have "escalated s' (t @ drop_obs ev pc)"
  proof (rule escalated_mono [of s])
    fix e d
    assume e: "(e, True, d) \<in> set (fq_drops s)"
    show "(\<exists>pc. (e, True, pc) \<in> set ?ds) \<or> QueuedResync (resync_frame e) \<in> set (drop_obs ev pc)"
    proof (cases "(e, True, d) = fq_drops s ! i")
      case False
      then show ?thesis using drops_without [OF i e] by (cases nx) (auto simp: ds)
    next
      case True
      then have eq: "e = ev" "c" "d = pc" using 1(1) by simp_all
      show ?thesis
      proof (cases nx)
        case None
        then show ?thesis using fr(8) eq by simp
      next
        case (Some pc')
        have "(ev, c, pc') \<in> set ((fq_drops s)[i := (ev, c, pc')])" using i by (simp add: set_update_memI)
        then show ?thesis using Some eq by (auto simp: ds)
      qed
    qed
  qed (use inv in \<open>simp_all add: queue_inv_def\<close>)
  moreover have "source_ok s' (t @ drop_obs ev pc)"
  proof (rule source_ok_mono [of s])
    have "lost t ev" using inv mem unfolding queue_inv_def source_ok_def by blast
    then show "\<forall>r. QueuedResync r \<in> set (drop_obs ev pc) \<longrightarrow> (\<exists>e. r = resync_frame e \<and> lost (t @ drop_obs ev pc) e)"
      using lost_append by auto
    fix e d q
    assume "(e, d, q) \<in> set ?ds"
    then have "(e, d, q) \<in> set (fq_drops s) \<or> e = ev"
      by (auto simp: ds dest: in_set_takeD in_set_dropD set_update_subset_insert [THEN subsetD] split: option.splits)
    then show "(\<exists>c pc. (e, c, pc) \<in> set (fq_drops s)) \<or> lost (t @ drop_obs ev pc) e" using mem by blast
  qed (use inv same in \<open>simp_all add: queue_inv_def\<close>)
  moreover have "owed_ok s' (t @ drop_obs ev pc)"
    by (rule owed_ok_drop [OF _ 1(2)]) (use inv same in \<open>simp_all add: queue_inv_def\<close>)
  moreover have "order_ok s' (t @ drop_obs ev pc)"
    by (rule order_ok_frame [of s]) (use inv same in \<open>simp_all add: queue_inv_def\<close>)
  moreover have "shape_ok s'"
    by (rule shape_ok_frame [of s]) (use inv same in \<open>simp_all add: queue_inv_def\<close>)
  ultimately show ?thesis by (simp add: queue_inv_def 1(3))
qed

text \<open>A pump step that neither refuses an event nor queues a frame.\<close>

lemma trace_ok_mono:
  assumes "escalated s t" and "source_ok s t" and "fq_drops s' = fq_drops s"
    and "\<forall>ev. Refused ev \<notin> set u \<and> QueuedResync ev \<notin> set u"
    and "\<And>ev pc. fq_pc s' = PumpDrop ev pc \<Longrightarrow> Dropped ev \<in> set u"
  shows "escalated s' (t @ u)" and "source_ok s' (t @ u)"
proof -
  show "escalated s' (t @ u)" by (rule escalated_mono [OF assms(1)]) (use assms(3,4) in auto)
  show "source_ok s' (t @ u)"
    by (rule source_ok_mono [OF assms(2)]) (use assms(3-5) in \<open>auto simp: lost_def\<close>)
qed

lemma sub_send_cases:
  assumes "sub_send b ev s = Some (s1, ok)"
  obtains (Ok) "ok" "s1 = chan_push ev s" "length (fq_chan s) < fq_cap s"
  | (Stopped) "\<not> ok" "s1 = s" "fq_done s"
  using assms by (auto simp: sub_send_def chan_room_def split: if_splits)

lemma ring_head:
  assumes "shape_ok s" and "fq_pc s = PumpHead ev"
  shows "ring_contents (fq_ring s) = ev # tl (ring_contents (fq_ring s))"
  using assms by (metis hd_Cons_tl less_numeral_extra(3) ring_contents_Nil shape_ok_def)

lemma order_ok_sent:
  assumes "order_ok s t" and "shape_ok s" and "fq_pc s = PumpHead ev"
    and "fq_ring s' = fq_ring s" and "fq_pc s' = PumpPop"
  shows "order_ok s' (t @ [Sent ev])"
  using assms ring_head [OF assms(2,3)] by (simp add: order_ok_def remaining_def)

lemma order_ok_dropped:
  assumes "order_ok s t" and "shape_ok s" and "fq_pc s = PumpHead ev" and "\<not> critical_event ev"
    and "fq_ring s' = fq_ring s" and "head_lost (fq_pc s')" and "accepted u = []" and "sent u = []"
  shows "order_ok s' (t @ u)"
proof -
  note c = ring_head [OF assms(2,3)]
  have "subseq (sent t @ tl (ring_contents (fq_ring s))) (sent t @ ev # tl (ring_contents (fq_ring s)))"
    by (rule list_emb_append_mono) (auto intro: list_emb_Cons)
  then have "subseq (sent t @ tl (ring_contents (fq_ring s))) (accepted t)"
    using assms(1,3) c by (auto simp: order_ok_def remaining_def intro: subseq_order.trans)
  moreover have "filter critical_event (accepted t) = filter critical_event (sent t @ tl (ring_contents (fq_ring s)))"
    using assms(1,3,4) c by (simp add: order_ok_def remaining_def) (metis filter.simps(2))
  ultimately show ?thesis using assms by (simp add: order_ok_def remaining_def)
qed

lemma pump_top_cases:
  assumes "pump_top b s = Some (s', obs)"
  obtains (Flush) r where "fq_pending s = Some r" "s' = s\<lparr>fq_pending := None, fq_pc := PumpPending r\<rparr>" "obs = []"
  | (Woken) "s' = s\<lparr>fq_wake := False\<rparr>" "obs = []"
  | (Gone) "fq_done s" "fq_pending s = None" "s' = s\<lparr>fq_pc := PumpExit\<rparr>" "obs = []"
  | (Head) "fq_pending s = None" "0 < rg_n (fq_ring s)" "s' = s\<lparr>fq_pc := PumpHead (ring_peek (fq_ring s))\<rparr>" "obs = []"
  using assms by (auto simp: pump_top_def split: option.splits if_splits)

lemma queue_inv_pump_top:
  assumes inv: "queue_inv s t" and pc: "fq_pc s = PumpTop" and st: "pump_top b s = Some (s', obs)"
  shows "queue_inv s' (t @ obs)"
proof -
  have ok: "ring_ok sub_ring_size (fq_ring s)" using inv by (simp add: queue_inv_def shape_ok_def)
  have peek: "0 < rg_n (fq_ring s) \<Longrightarrow> ring_peek (fq_ring s) = hd (ring_contents (fq_ring s))"
    using sub_ring.peek_contents [OF ok] by simp
  have obs: "obs = []" and keeps: "fq_drops s' = fq_drops s" "fq_ring s' = fq_ring s" "\<not> head_lost (fq_pc s')"
    using st pc by (cases rule: pump_top_cases; simp)+
  have "\<And>ev d. fq_pc s' = PumpDrop ev d \<Longrightarrow> Dropped ev \<in> set []" using keeps(3) by fastforce
  note tr = trace_ok_mono [of s t s' "[]", OF _ _ keeps(1) _ this]
  have "order_ok s' (t @ [])" by (rule order_ok_frame [of s]) (use inv pc keeps in \<open>simp_all add: queue_inv_def\<close>)
  moreover have "shape_ok s'"
    using st inv pc peek by (cases rule: pump_top_cases) (auto simp: queue_inv_def shape_ok_def)
  moreover have "owed_ok s' t"
    using st inv pc by (cases rule: pump_top_cases) (auto simp: queue_inv_def owed_ok_def)
  ultimately show ?thesis using tr inv obs by (simp add: queue_inv_def)
qed

lemma pump_pending_cases:
  assumes "pump_pending b r s = Some (s', obs)"
  obtains (Handed) "fq_ring s' = fq_ring s" "fq_pc s' = PumpTop" "fq_chan s' = fq_chan s @ [r]" "fq_cap s' = fq_cap s"
      "fq_pending s' = fq_pending s" "fq_done s' = fq_done s" "fq_drops s' = fq_drops s" "obs = [SentResync r]"
      "length (fq_chan s) < fq_cap s"
  | (Gone) "fq_done s" "s' = s\<lparr>fq_pc := PumpExit\<rparr>" "obs = []"
  using assms
  by (auto simp: pump_pending_def chan_push_def elim!: sub_send_cases split: option.splits if_splits)

lemma queue_inv_pump_pending:
  assumes inv: "queue_inv s t" and pc: "fq_pc s = PumpPending r" and st: "pump_pending b r s = Some (s', obs)"
  shows "queue_inv s' (t @ obs)"
proof -
  have quiet: "\<forall>ev. Refused ev \<notin> set obs \<and> QueuedResync ev \<notin> set obs"
    and taken: "accepted obs = []" "sent obs = []"
    and keeps: "fq_drops s' = fq_drops s" "fq_ring s' = fq_ring s" "\<not> head_lost (fq_pc s')"
    using st by (cases rule: pump_pending_cases; simp)+
  have "\<And>ev d. fq_pc s' = PumpDrop ev d \<Longrightarrow> Dropped ev \<in> set obs" using keeps(3) by fastforce
  note tr = trace_ok_mono [of s t s' obs, OF _ _ keeps(1) quiet this]
  have "order_ok s' (t @ obs)"
    by (rule order_ok_frame [of s]) (use inv pc keeps taken in \<open>simp_all add: queue_inv_def\<close>)
  moreover have "shape_ok s'"
    using st inv pc by (cases rule: pump_pending_cases) (auto simp: queue_inv_def shape_ok_def)
  moreover have "owed_ok s' (t @ obs)"
    using st inv pc by (cases rule: pump_pending_cases) (auto simp: queue_inv_def owed_ok_def owed_append split: if_splits)
  ultimately show ?thesis using tr inv by (simp add: queue_inv_def)
qed

lemma pump_head_cases:
  assumes "pump_head b ev s = Some (s', obs)"
  obtains (Handed) "s' = (chan_push ev s)\<lparr>fq_pc := PumpPop\<rparr>" "obs = [Sent ev]" "length (fq_chan s) < fq_cap s"
  | (Gone) "s' = s\<lparr>fq_pc := PumpExit\<rparr>" "obs = []" "fq_done s"
  | (Lost) "s' = s\<lparr>fq_pc := PumpDrop ev DropCount\<rparr>" "obs = [Dropped ev]" "\<not> critical_event ev"
  using assms
  by (auto simp: pump_head_def sub_try_send_def chan_room_def elim!: sub_send_cases
      split: option.splits if_splits bool.splits)

lemma queue_inv_pump_head:
  assumes inv: "queue_inv s t" and pc: "fq_pc s = PumpHead ev" and st: "pump_head b ev s = Some (s', obs)"
  shows "queue_inv s' (t @ obs)"
proof -
  have quiet: "\<forall>ev. Refused ev \<notin> set obs \<and> QueuedResync ev \<notin> set obs"
    and keeps: "fq_drops s' = fq_drops s" "fq_pending s' = fq_pending s" "fq_done s' = fq_done s"
    and drp: "\<And>e d. fq_pc s' = PumpDrop e d \<Longrightarrow> Dropped e \<in> set obs"
    using st by (cases rule: pump_head_cases; simp add: chan_push_def)+
  note tr = trace_ok_mono [of s t s' obs, OF _ _ keeps(1) quiet drp]
  have "order_ok s' (t @ obs)"
    using st
  proof (cases rule: pump_head_cases)
    case Handed
    then show ?thesis using order_ok_sent [of s t ev s'] inv pc by (simp add: queue_inv_def chan_push_def)
  next
    case Gone
    then show ?thesis using order_ok_frame [of s t s' "[]"] inv pc by (simp add: queue_inv_def)
  next
    case Lost
    then show ?thesis by (intro order_ok_dropped [of s t ev]) (use inv pc in \<open>auto simp: queue_inv_def\<close>)
  qed
  moreover have "shape_ok s'"
    using st inv pc by (cases rule: pump_head_cases) (auto simp: queue_inv_def shape_ok_def chan_push_def)
  moreover have "owed_ok s' (t @ obs)"
    using st inv pc by (cases rule: pump_head_cases) (auto simp: queue_inv_def owed_ok_def owed_append chan_push_def)
  ultimately show ?thesis using tr inv by (simp add: queue_inv_def)
qed

lemma queue_inv_pump_drop:
  assumes inv: "queue_inv s t" and pc: "fq_pc s = PumpDrop ev d" and st: "pump_drop ev d s = Some (s', obs)"
  shows "queue_inv s' (t @ obs)"
proof -
  obtain s1 nx where d: "drop_step ev False d s = (s1, nx)" by (cases "drop_step ev False d s")
  have s': "s' = s1\<lparr>fq_pc := (case nx of None \<Rightarrow> PumpPop | Some d \<Rightarrow> PumpDrop ev d)\<rparr>" "obs = drop_obs ev d"
    using st d by (simp_all add: pump_drop_def)
  note fr = drop_step_frame [OF d]
  have same: "fq_ring s' = fq_ring s" "fq_chan s' = fq_chan s" "fq_cap s' = fq_cap s" "fq_done s' = fq_done s"
    "fq_drops s' = fq_drops s" "fq_pending s' = fq_pending s1" and hl: "head_lost (fq_pc s')"
    using fr by (simp_all add: s' split: option.splits)
  have src: "lost t ev" using inv pc unfolding queue_inv_def source_ok_def by blast
  have "escalated s' (t @ obs)"
    by (rule escalated_mono [of s]) (use inv same s'(2) in \<open>auto simp: queue_inv_def\<close>)
  moreover have "source_ok s' (t @ obs)"
    by (rule source_ok_mono [of s])
      (use inv same s' src lost_append in \<open>auto simp: queue_inv_def pc split: option.splits\<close>)
  moreover have "owed_ok s' (t @ obs)"
    unfolding s'(2) by (rule owed_ok_drop [OF _ d]) (use inv pc same in \<open>simp_all add: queue_inv_def\<close>)
  moreover have "order_ok s' (t @ obs)"
    by (rule order_ok_frame [of s]) (use inv pc same hl s'(2) in \<open>simp_all add: queue_inv_def\<close>)
  moreover have "shape_ok s'"
    using inv pc same hl by (auto simp: queue_inv_def shape_ok_def s'(1) split: option.splits)
  ultimately show ?thesis by (simp add: queue_inv_def)
qed

lemma queue_inv_pump:
  assumes inv: "queue_inv s t" and st: "pump_step b s = Some (s', obs)"
  shows "queue_inv s' (t @ obs)"
proof (cases "fq_pc s")
  case PumpPop
  have ok: "ring_ok sub_ring_size (fq_ring s)" "0 < rg_n (fq_ring s)"
    using inv PumpPop by (simp_all add: queue_inv_def shape_ok_def)
  have s': "s' = s\<lparr>fq_ring := ring_pop (fq_ring s), fq_pc := PumpTop\<rparr>" "obs = []"
    using st PumpPop by (simp_all add: pump_step_def)
  have "remaining s' = remaining s" using sub_ring.pop_contents [OF ok(1)] ok(2) PumpPop
    by (simp add: remaining_def s')
  then show ?thesis using inv PumpPop ring_ok_pop [OF ok(1)]
    by (auto simp: s' queue_inv_def shape_ok_def order_ok_def owed_ok_def escalated_def source_ok_def)
qed (use st inv queue_inv_pump_top queue_inv_pump_pending queue_inv_pump_head queue_inv_pump_drop
    in \<open>auto simp: pump_step_def\<close>)

lemma queue_inv_frame:
  assumes "queue_inv s t" and "fq_ring s' = fq_ring s" "length (fq_chan s') \<le> length (fq_chan s)" "fq_cap s' = fq_cap s"
    "fq_pc s' = fq_pc s" "fq_pending s' = fq_pending s" "fq_drops s' = fq_drops s" "fq_done s \<longrightarrow> fq_done s'"
  shows "queue_inv s' t"
  using assms by (auto simp: queue_inv_def shape_ok_def order_ok_def remaining_def owed_ok_def escalated_def source_ok_def)

lemma queue_inv_step:
  assumes "sub_step (s, t) (s', t')" and "queue_inv s t"
  shows "queue_inv s' t'"
  using assms(1)
proof (cases rule: sub_step_cases)
  fix ev s'' obs
  assume "(s', t') = (s'', t @ obs)" "deliver_step ev s = (s'', obs)"
  then show ?thesis using queue_inv_deliver [OF assms(2)] by simp
next
  fix i s'' obs
  assume "(s', t') = (s'', t @ obs)" "i < length (fq_drops s)" "note_step i s = (s'', obs)"
  then show ?thesis using queue_inv_note [OF assms(2)] by simp
next
  fix b s'' obs
  assume "(s', t') = (s'', t @ obs)" "pump_step b s = Some (s'', obs)"
  then show ?thesis using queue_inv_pump [OF assms(2)] by simp
next
  fix ev rest
  assume "(s', t') = (s\<lparr>fq_chan := rest\<rparr>, t)" "fq_chan s = ev # rest"
  then show ?thesis using queue_inv_frame [OF assms(2)] by simp
next
  assume "(s', t') = (sub_stop s, t)"
  then show ?thesis using queue_inv_frame [OF assms(2)] by (simp add: sub_stop_def)
qed

lemma queue_inv_new: "queue_inv (new_fe_subscriber ch_cap) []"
proof -
  have "ring_ok sub_ring_size (ring_new sub_ring_size)"
    by (simp add: sub_ring_size_def sub_ring_cap_def ring_ok_def ring_new_def)
  then show ?thesis
    by (simp add: queue_inv_def shape_ok_def order_ok_def owed_ok_def remaining_def new_fe_subscriber_def
        ring_new_ok owed_def escalated_def source_ok_def)
qed

lemma queue_inv_reach:
  assumes "sub_step\<^sup>*\<^sup>* (new_fe_subscriber ch_cap, []) (s, t)"
  shows "queue_inv s t"
  using assms
proof (induction "(s, t)" arbitrary: s t rule: rtranclp_induct)
  case base
  show ?case by (rule queue_inv_new)
next
  case (step st)
  obtain u v where "st = (u, v)" by (cases st)
  then show ?case using step queue_inv_step by blast
qed

text \<open>A delivery that runs undisturbed is a run of the steps, whose calls of \<open>noteDrop\<close> are over.\<close>

lemma sub_deliver_run:
  assumes "fq_drops s = []"
  shows "\<exists>u. sub_step\<^sup>*\<^sup>* (s, t) (sub_deliver ev s, t @ u) \<and>
    (critical_event ev \<and> rg_n (fq_ring s) = length (rg_buf (fq_ring s)) \<longrightarrow>
       u = [Refused ev, QueuedResync (resync_frame ev)])"
proof (cases "enqueue_limit (critical_event ev) s \<le> rg_n (fq_ring s)")
  case False
  then have "deliver_step ev s = (sub_deliver ev s, [Accepted ev])"
    by (simp add: deliver_step_def sub_deliver_def sub_enqueue_def try_enqueue_def)
  then have "sub_step\<^sup>*\<^sup>* (s, t) (sub_deliver ev s, t @ [Accepted ev])" using Deliver by blast
  then show ?thesis using False by (intro exI conjI) (assumption, auto simp: enqueue_limit_def)
next
  case True
  let ?c = "critical_event ev"
  have del: "deliver_step ev s = (s\<lparr>fq_drops := [(ev, ?c, DropCount)]\<rparr>, [Refused ev])"
    and run: "sub_deliver ev s = note_drop ev ?c s"
    using True assms by (simp_all add: deliver_step_def sub_deliver_def sub_enqueue_def try_enqueue_def)
  obtain s1 nx where st: "drop_step ev ?c DropCount s = (s1, nx)" by (cases "drop_step ev ?c DropCount s")
  have upd: "drop_step ev ?c d (s\<lparr>fq_drops := ds\<rparr>) = (fst (drop_step ev ?c d s)\<lparr>fq_drops := ds\<rparr>, snd (drop_step ev ?c d s))"
    for d ds s by (cases d) (simp_all add: drop_step_def Let_def queue_resync_def)
  have go: "sub_step (s'\<lparr>fq_drops := [(ev, ?c, d)]\<rparr>, t')
      (fst (drop_step ev ?c d s')\<lparr>fq_drops := (case snd (drop_step ev ?c d s') of None \<Rightarrow> [] | Some d' \<Rightarrow> [(ev, ?c, d')])\<rparr>,
       t' @ drop_obs ev d)" for s' d t'
    by (rule Note [of 0]) (simp_all add: note_step_def upd split: prod.splits option.splits)
  have same: "s'\<lparr>fq_drops := []\<rparr> = s'" if "fq_drops s' = []" for s' :: fe_queue using that by (cases s') simp
  have drops: "fq_drops (fst (drop_step ev ?c d s')) = fq_drops s'" for d s'
    by (cases d) (simp_all add: drop_step_def Let_def queue_resync_def)
  let ?s1 = "s\<lparr>fq_drops := [(ev, ?c, DropCount)]\<rparr>"
  from Deliver [OF del] have "sub_step\<^sup>*\<^sup>* (s, t) (?s1, t @ [Refused ev])" by blast
  also note r1 = calculation
  show ?thesis
  proof (cases nx)
    case None
    have "fq_drops s1 = []" using drops [of DropCount s] st assms by simp
    then have e1: "s1\<lparr>fq_drops := []\<rparr> = s1" by (rule same)
    have "sub_step (?s1, t @ [Refused ev]) (s1, (t @ [Refused ev]) @ drop_obs ev DropCount)"
      using go [of DropCount s "t @ [Refused ev]"] None by (simp add: st e1)
    moreover have "sub_deliver ev s = s1" using run st None by (simp add: note_drop_def)
    ultimately have "sub_step\<^sup>*\<^sup>* (s, t) (sub_deliver ev s, t @ [Refused ev] @ drop_obs ev DropCount)"
      using rtranclp.rtrancl_into_rtrancl [OF r1] by simp
    moreover have "\<not> critical_event ev" using st None by (auto simp: drop_step_def Let_def)
    ultimately show ?thesis by blast
  next
    case (Some d)
    then have d: "d = DropReset" using st by (auto simp: drop_step_def Let_def split: if_splits)
    define s2 where "s2 = fst (drop_step ev ?c DropReset s1)"
    define s3 where "s3 = fst (drop_step ev ?c DropQueue s2)"
    have e3: "sub_deliver ev s = s3" using run st Some d by (simp add: note_drop_def s2_def s3_def)
    have n2: "snd (drop_step ev ?c DropReset s1) = Some DropQueue" "snd (drop_step ev ?c DropQueue s2) = None"
      by (simp_all add: drop_step_def)
    have "fq_drops s3 = []" using assms drops [of DropCount s] st by (simp add: s3_def s2_def drops)
    then have s3: "s3\<lparr>fq_drops := []\<rparr> = s3" by (rule same)
    note st1 = go [of DropCount s "t @ [Refused ev]", unfolded st, simplified, unfolded Some d, simplified]
    note st2 = go [of DropReset s1, folded s2_def, unfolded n2, simplified]
    note st3 = go [of DropQueue s2, folded s3_def, unfolded n2, simplified, unfolded s3]
    from rtranclp.rtrancl_into_rtrancl [OF rtranclp.rtrancl_into_rtrancl [OF rtranclp.rtrancl_into_rtrancl [OF r1 st1] st2] st3]
    have "sub_step\<^sup>*\<^sup>* (s, t) (sub_deliver ev s, t @ [Refused ev, QueuedResync (resync_frame ev)])"
      by (simp add: e3 d drop_obs_def)
    then show ?thesis by blast
  qed
qed

lemma deliver_full:
  assumes "fq_drops s = []" and "critical_event ev" and "rg_n (fq_ring s) = length (rg_buf (fq_ring s))"
  shows "sub_step\<^sup>*\<^sup>* (s, t) (note_drop ev True s, t @ [Refused ev, QueuedResync (resync_frame ev)])"
  using sub_deliver_run [OF assms(1), of t ev] assms
  by (auto simp: sub_deliver_def sub_enqueue_def try_enqueue_def enqueue_limit_def)

lemma note_drop_critical:
  "note_drop ev True s = s\<lparr>fq_stat_dropped := fq_stat_dropped s + 1, fq_dropped := 0,
     fq_pending := Some (resync_frame ev), fq_wake := True\<rparr>"
  by (simp add: note_drop_def drop_step_def queue_resync_def Let_def)

lemma flush_pending:
  assumes "fq_pc s = PumpTop" and "fq_pending s = Some r" and "fq_chan s = []" and "0 < fq_cap s" and "\<not> fq_done s"
  shows "\<exists>s'. sub_step\<^sup>*\<^sup>* (s, t) (s', t @ [SentResync r]) \<and> fq_pending s' = None \<and> fq_pc s' = PumpTop \<and>
    \<not> fq_done s' \<and> fq_drops s' = fq_drops s"
proof -
  define s2 where "s2 = s\<lparr>fq_pending := None, fq_pc := PumpPending r\<rparr>"
  have p1: "pump_step False s = Some (s2, [])" using assms by (simp add: pump_step_def pump_top_def s2_def)
  obtain s3 where p2: "pump_step False s2 = Some (s3, [SentResync r])"
    and s3: "fq_pending s3 = None" "fq_pc s3 = PumpTop" "\<not> fq_done s3" "fq_drops s3 = fq_drops s"
    using assms by (auto simp: pump_step_def pump_pending_def sub_send_def chan_room_def chan_push_def s2_def)
  have "sub_step (s, t) (s2, t)" using Pump [OF p1, of t] by simp
  then have "sub_step\<^sup>*\<^sup>* (s, t) (s2, t)" by (rule r_into_rtranclp)
  from rtranclp.rtrancl_into_rtrancl [OF this Pump [OF p2]] show ?thesis
    by (intro exI [of _ s3] conjI s3)
qed

section \<open>Runs for the witnesses\<close>

definition done_event :: event where "done_event = [(''type'', VStr ''done''), (''hostId'', VStr ''h'')]"
definition other_done_event :: event where "other_done_event = [(''type'', VStr ''done''), (''hostId'', VStr ''g'')]"

lemma done_event_critical: "critical_event done_event" "critical_event other_done_event"
  by (simp_all add: critical_event_def done_event_def other_done_event_def critical_event_types_def)

text \<open>The ring filled with critical events while the pump has not run.\<close>

definition full_queue :: "nat \<Rightarrow> fe_queue \<Rightarrow> bool" where
  "full_queue n s \<longleftrightarrow> rg_n (fq_ring s) = n \<and> length (rg_buf (fq_ring s)) = sub_ring_size \<and> fq_pending s = None \<and>
     \<not> fq_done s \<and> fq_pc s = PumpTop \<and> fq_chan s = [] \<and> fq_cap s = 1 \<and> fq_drops s = []"

lemma fill_ring:
  "n \<le> sub_ring_size \<Longrightarrow>
   \<exists>s. sub_step\<^sup>*\<^sup>* (new_fe_subscriber 1, []) (s, replicate n (Accepted done_event)) \<and> full_queue n s"
proof (induction n)
  case 0
  have "full_queue 0 (new_fe_subscriber 1)" by (simp add: full_queue_def new_fe_subscriber_def ring_new_def)
  then show ?case by auto
next
  case (Suc n)
  then obtain s where st: "sub_step\<^sup>*\<^sup>* (new_fe_subscriber 1, []) (s, replicate n (Accepted done_event))" "full_queue n s"
    by auto
  let ?s = "s\<lparr>fq_ring := ring_push done_event (fq_ring s), fq_wake := True\<rparr>"
  have "deliver_step done_event s = (?s, [Accepted done_event])"
    using st(2) Suc.prems done_event_critical
    by (simp add: deliver_step_def try_enqueue_def enqueue_limit_def full_queue_def)
  from rtranclp.rtrancl_into_rtrancl [OF st(1) Deliver [OF this]]
  have "sub_step\<^sup>*\<^sup>* (new_fe_subscriber 1, []) (?s, replicate (Suc n) (Accepted done_event))"
    by (simp add: replicate_append_same)
  moreover have "full_queue (Suc n) ?s" using st(2) by (simp add: full_queue_def ring_push_def)
  ultimately show ?case by blast
qed

lemma two_refusals:
  assumes "critical_event evA" and "critical_event evB"
  shows "\<exists>s. sub_step\<^sup>*\<^sup>* (new_fe_subscriber 1, [])
      (s, replicate sub_ring_size (Accepted done_event) @ [Refused evA, QueuedResync (resync_frame evA),
          Refused evB, QueuedResync (resync_frame evB), SentResync (resync_frame evB)]) \<and>
    fq_pending s = None \<and> fq_pc s = PumpTop \<and> \<not> fq_done s \<and> fq_drops s = []"
proof -
  let ?t = "replicate sub_ring_size (Accepted done_event)"
  obtain s where s: "sub_step\<^sup>*\<^sup>* (new_fe_subscriber 1, []) (s, ?t)" "full_queue sub_ring_size s"
    using fill_ring [of sub_ring_size] by blast
  let ?a = "note_drop evA True s" and ?u = "?t @ [Refused evA, QueuedResync (resync_frame evA)]"
  let ?b = "note_drop evB True ?a" and ?v = "?u @ [Refused evB, QueuedResync (resync_frame evB)]"
  have "sub_step\<^sup>*\<^sup>* (s, ?t) (?a, ?u)" using deliver_full [of s evA ?t] s(2) assms by (simp add: full_queue_def)
  moreover have "sub_step\<^sup>*\<^sup>* (?a, ?u) (?b, ?v)"
    by (rule deliver_full) (use s(2) assms in \<open>simp_all add: full_queue_def note_drop_critical\<close>)
  moreover have "\<exists>s'. sub_step\<^sup>*\<^sup>* (?b, ?v) (s', ?v @ [SentResync (resync_frame evB)]) \<and> fq_pending s' = None \<and>
      fq_pc s' = PumpTop \<and> \<not> fq_done s' \<and> fq_drops s' = fq_drops ?b"
    by (rule flush_pending) (use s(2) in \<open>simp_all add: full_queue_def note_drop_critical\<close>)
  then obtain s' where s': "sub_step\<^sup>*\<^sup>* (?b, ?v) (s', ?v @ [SentResync (resync_frame evB)])" "fq_pending s' = None"
      "fq_pc s' = PumpTop" "\<not> fq_done s'" "fq_drops s' = fq_drops ?b" by blast
  ultimately have "sub_step\<^sup>*\<^sup>* (new_fe_subscriber 1, []) (s', ?v @ [SentResync (resync_frame evB)])"
    using s(1) by (meson rtranclp_trans)
  moreover have "fq_drops s' = []" using s'(5) s(2) by (simp add: full_queue_def note_drop_critical)
  ultimately show ?thesis using s'(2-4) by (intro exI [of _ s']) simp
qed

section \<open>Properties\<close>

text \<open>The frame a browser needs after losing an event: its kind, the host it repairs and from where.\<close>

definition repairs :: "event \<Rightarrow> event \<Rightarrow> bool" where
  "repairs r ev \<longleftrightarrow> gm_get r ''type'' = Some (VStr ''resync'') \<and> gm_get r ''fromSeq'' = Some (VU64 (ev_seq ev)) \<and>
     str_of (gm_get r ''hostId'') = str_of (gm_get ev ''hostId'')"

lemma resync_frame_repairs: "repairs (resync_frame ev) ev"
  by (simp add: repairs_def resync_host) (simp add: resync_frame_def Let_def gm_get_set)

lemma frame_handed_over:
  assumes inv: "queue_inv s t" and idle: "\<not> fq_done s" "fq_pending s = None" "\<forall>r. fq_pc s \<noteq> PumpPending r" "fq_drops s = []"
    and t: "t = pre @ Refused ev # post" and crit: "critical_event ev"
  shows "\<exists>r a b. post = a @ QueuedResync r # b \<and> repairs r ev \<and>
    (SentResync r \<in> set b \<or> (\<exists>r' ev' c d. b = c @ QueuedResync r' # d \<and> SentResync r' \<in> set d \<and> repairs r' ev' \<and> lost t ev'))"
proof -
  let ?r = "resync_frame ev"
  have "QueuedResync ?r \<in> set post" using inv t crit idle(4) unfolding queue_inv_def escalated_def by simp
  then obtain a b where post: "post = a @ QueuedResync ?r # b" by (auto simp: in_set_conv_decomp)
  have "owed t = None" using inv idle by (cases "owed t") (auto simp: queue_inv_def owed_ok_def)
  then have "foldl owed_step (Some ?r) b = None" by (simp add: t post owed_append)
  from owed_settled [OF this] consider "SentResync ?r \<in> set b" | "settled_since b" by auto
  then have "SentResync ?r \<in> set b \<or> (\<exists>r' ev' c d. b = c @ QueuedResync r' # d \<and> SentResync r' \<in> set d \<and> repairs r' ev' \<and> lost t ev')"
  proof cases
    case 2
    then obtain c r' d where b: "b = c @ QueuedResync r' # d" "SentResync r' \<in> set d" unfolding settled_since_def by blast
    have "QueuedResync r' \<in> set t" by (simp add: t post b(1))
    then obtain ev' where "r' = resync_frame ev'" "lost t ev'" using inv unfolding queue_inv_def source_ok_def by blast
    then show ?thesis using b resync_frame_repairs by blast
  qed simp
  then show ?thesis using post resync_frame_repairs by blast
qed

text \<open>C13: No terminal event is lost in silence. Over every interleaving of deliveries, calls of
  \<open>noteDrop\<close> in progress, the pump, the browser's reads and the unsubscribe path, the critical events
  taken into a subscriber's ring are exactly those handed to its channel followed by those still
  queued, in order. Once a live subscriber's pump owes nothing and no call of \<open>noteDrop\<close> is in
  progress, a critical event that found the ring full was followed by a resync frame naming its host
  and its sequence number, and either that frame was handed over or one queued after it was, naming
  the host and the sequence number of another lost event; when one host alone lost events, the
  browser was handed a resync frame of that host after the refusal.\<close>

theorem critical_events_never_lost_silently:
  assumes "sub_step\<^sup>*\<^sup>* (new_fe_subscriber ch_cap, []) (s, t)"
  shows "filter critical_event (accepted t) = filter critical_event (sent t @ remaining s) \<and>
    (\<not> fq_done s \<and> fq_pending s = None \<and> (\<forall>r. fq_pc s \<noteq> PumpPending r) \<and> fq_drops s = [] \<longrightarrow>
       (\<forall>pre ev post. t = pre @ Refused ev # post \<and> critical_event ev \<longrightarrow>
          (\<exists>r a b. post = a @ QueuedResync r # b \<and> repairs r ev \<and>
             (SentResync r \<in> set b \<or>
              (\<exists>r' ev' c d. b = c @ QueuedResync r' # d \<and> SentResync r' \<in> set d \<and> repairs r' ev' \<and> lost t ev'))) \<and>
          ((\<forall>ev'. lost t ev' \<longrightarrow> str_of (gm_get ev' ''hostId'') = str_of (gm_get ev ''hostId'')) \<longrightarrow>
             (\<exists>r. SentResync r \<in> set post \<and> gm_get r ''type'' = Some (VStr ''resync'') \<and>
                str_of (gm_get r ''hostId'') = str_of (gm_get ev ''hostId'')))))"
proof -
  have inv: "queue_inv s t" by (rule queue_inv_reach [OF assms])
  have one: "\<exists>r. SentResync r \<in> set post \<and> gm_get r ''type'' = Some (VStr ''resync'') \<and>
      str_of (gm_get r ''hostId'') = str_of (gm_get ev ''hostId'')"
    if "\<exists>r a b. post = a @ QueuedResync r # b \<and> repairs r ev \<and> (SentResync r \<in> set b \<or>
        (\<exists>r' ev' c d. b = c @ QueuedResync r' # d \<and> SentResync r' \<in> set d \<and> repairs r' ev' \<and> lost t ev'))"
      and "\<forall>ev'. lost t ev' \<longrightarrow> str_of (gm_get ev' ''hostId'') = str_of (gm_get ev ''hostId'')" for ev post
    using that unfolding repairs_def by (metis Un_iff list.set_intros(2) set_append)
  show ?thesis
    using inv frame_handed_over [OF inv] one by (simp add: queue_inv_def order_ok_def)
qed

lemma critical_events_never_lost_silently_witness:
  "\<exists>s post r. sub_step\<^sup>*\<^sup>* (new_fe_subscriber 1, [])
      (s, replicate sub_ring_size (Accepted done_event) @ Refused done_event # post) \<and>
    SentResync r \<in> set post \<and> str_of (gm_get r ''hostId'') = ''h''"
proof -
  let ?pre = "replicate sub_ring_size (Accepted done_event)" and ?r = "resync_frame done_event"
  let ?post = "[QueuedResync ?r, Refused done_event, QueuedResync ?r, SentResync ?r]"
  obtain s where s: "sub_step\<^sup>*\<^sup>* (new_fe_subscriber 1, []) (s, ?pre @ Refused done_event # ?post)"
    "fq_pending s = None" "fq_pc s = PumpTop" "\<not> fq_done s" "fq_drops s = []"
    using two_refusals [OF done_event_critical(1) done_event_critical(1)] by auto
  have "\<forall>ev'. lost (?pre @ Refused done_event # ?post) ev' \<longrightarrow> ev' = done_event" by (auto simp: lost_def)
  then have "\<exists>r. SentResync r \<in> set ?post \<and> str_of (gm_get r ''hostId'') = str_of (gm_get done_event ''hostId'')"
    using critical_events_never_lost_silently [OF s(1)] s(2-5) done_event_critical(1) by (metis pump_pc.distinct(1))
  then obtain r where "SentResync r \<in> set ?post" "str_of (gm_get r ''hostId'') = ''h''"
    by (auto simp: done_event_def)
  with s(1) show ?thesis by blast
qed

text \<open>C38: The resync slot holds one frame whatever the host. For any two critical events of different
  hosts there is a run of the queue after which both were refused, the pump owes nothing and no call
  of \<open>noteDrop\<close> is in progress, and no resync frame of the first event's host was ever handed over: the
  second host's frame replaced it, although sequence numbers are per host.\<close>

theorem other_host_resync_overwrites:
  assumes "critical_event evA" and "critical_event evB"
    and "str_of (gm_get evA ''hostId'') \<noteq> str_of (gm_get evB ''hostId'')"
  shows "\<exists>s t. sub_step\<^sup>*\<^sup>* (new_fe_subscriber 1, []) (s, t) \<and> Refused evA \<in> set t \<and> Refused evB \<in> set t \<and>
    \<not> fq_done s \<and> fq_pending s = None \<and> fq_pc s = PumpTop \<and> fq_drops s = [] \<and>
    (\<forall>r. SentResync r \<in> set t \<longrightarrow> str_of (gm_get r ''hostId'') \<noteq> str_of (gm_get evA ''hostId''))"
proof -
  let ?t = "replicate sub_ring_size (Accepted done_event) @ [Refused evA, QueuedResync (resync_frame evA),
          Refused evB, QueuedResync (resync_frame evB), SentResync (resync_frame evB)]"
  obtain s where s: "sub_step\<^sup>*\<^sup>* (new_fe_subscriber 1, []) (s, ?t)" "fq_pending s = None" "fq_pc s = PumpTop"
      "\<not> fq_done s" "fq_drops s = []" using two_refusals [OF assms(1,2)] by blast
  have "\<forall>r. SentResync r \<in> set ?t \<longrightarrow> str_of (gm_get r ''hostId'') \<noteq> str_of (gm_get evA ''hostId'')"
    using assms(3) by (auto simp: resync_host)
  then show ?thesis using s by (intro exI [of _ s] exI [of _ ?t]) simp
qed

lemma other_host_resync_overwrites_witness:
  "\<exists>s t. sub_step\<^sup>*\<^sup>* (new_fe_subscriber 1, []) (s, t) \<and> Refused done_event \<in> set t \<and> fq_pending s = None"
  using other_host_resync_overwrites [OF done_event_critical]
  by (auto simp: done_event_def other_done_event_def)

text \<open>Per-subscriber order and memory. What a browser's channel is handed is a subsequence of the
  events taken into its ring, in the same order; the ring never holds more than its 2048 droppable
  and 512 reserved slots and the channel never more than its capacity, however slow the browser.\<close>

theorem subscriber_order_and_bounds:
  assumes "sub_step\<^sup>*\<^sup>* (new_fe_subscriber ch_cap, []) (s, t)"
  shows "subseq (sent t @ remaining s) (accepted t) \<and> rg_n (fq_ring s) \<le> 2560 \<and> length (fq_chan s) \<le> fq_cap s"
  using queue_inv_reach [OF assms]
  by (simp add: queue_inv_def shape_ok_def order_ok_def ring_ok_def sub_ring_size_def sub_ring_cap_def
      sub_ring_critical_slack_def)

lemma subscriber_order_and_bounds_witness:
  "\<exists>s t. sub_step\<^sup>*\<^sup>* (new_fe_subscriber 1, []) (s, t) \<and> subseq (sent t @ remaining s) (accepted t) \<and>
     rg_n (fq_ring s) = 1"
proof -
  obtain s t where st: "sub_step\<^sup>*\<^sup>* (new_fe_subscriber 1, []) (s, t)" "rg_n (fq_ring s) = 1"
    using fill_ring [of 1] by (auto simp: sub_ring_size_def sub_ring_cap_def full_queue_def)
  then show ?thesis using subscriber_order_and_bounds [OF st(1)] by blast
qed

text \<open>C30: The ring buffer implements a bounded queue. Through its head and count, with both ends
  wrapping around the slots, a push appends at the end, a peek reads the front and a pop removes
  it, and both keep the representation well formed.\<close>

theorem ring_refines_queue:
  assumes "ring_ok slots r"
  shows "(rg_n r < slots \<longrightarrow> ring_contents (ring_push ev r) = ring_contents r @ [ev] \<and> ring_ok slots (ring_push ev r)) \<and>
    (ring_contents r \<noteq> [] \<longrightarrow> ring_contents r = ring_peek r # ring_contents (ring_pop r) \<and> ring_ok slots (ring_pop r))"
  using sub_ring.peek_pop [OF assms] sub_ring.push_contents [OF assms] ring_ok_push [OF assms] ring_ok_pop [OF assms]
  by simp

lemma ring_refines_queue_witness:
  "ring_contents (ring_push [] \<lparr>rg_buf = [done_event, done_event], rg_head = 1, rg_n = 1\<rparr>) = [done_event, []]"
proof -
  let ?r = "\<lparr>rg_buf = [done_event, done_event], rg_head = 1, rg_n = 1\<rparr>"
  have ok: "ring_ok 2 ?r" by (simp add: ring_ok_def)
  have "ring_contents ?r = [done_event]" by (simp add: ring_contents_def)
  then show ?thesis using ring_refines_queue [OF ok, of "[]"] by simp
qed

end
