(* ===== verification/Whitelist.thy ===== *)
theory Whitelist
  imports Events
begin

text \<open>
  Guest tokens and what they grant (\<open>internal/hub/guests.go\<close>: the records, the whitelist queries,
  the composite key) and the table of subagent children (\<open>internal/hub/hub.go\<close>) that widens a
  guest's read scope by one level.
\<close>

section \<open>Records\<close>

record guest_session =
  gs_host_id :: string
  gs_host_name :: string
  gs_session_id :: string
  gs_cwd :: string
  gs_title :: string
  gs_added_at :: int
  gs_stale :: bool

record guest_token =
  gt_id :: string
  gt_token :: string
  gt_label :: string
  gt_created_at :: int
  gt_expires_at :: int
  gt_revoked :: bool
  gt_sessions :: "guest_session list"
  gt_last_used_at :: int

definition guest_expired :: "guest_token \<Rightarrow> time \<Rightarrow> bool" where
  "guest_expired g now \<longleftrightarrow> gt_expires_at g > 0 \<and> unix_seconds now \<ge> gt_expires_at g"

definition guest_active :: "guest_token \<Rightarrow> time \<Rightarrow> bool" where
  "guest_active g now \<longleftrightarrow> \<not> gt_revoked g \<and> \<not> guest_expired g now"

section \<open>Whitelist queries\<close>

fun guest_host_ids_loop :: "guest_session list \<Rightarrow> string list \<Rightarrow> string list \<Rightarrow> string list" where
  "guest_host_ids_loop [] seen out = out"
| "guest_host_ids_loop (s # ss) seen out =
     (if gs_host_id s = [] \<or> gs_host_id s \<in> set seen then guest_host_ids_loop ss seen out
      else guest_host_ids_loop ss (gs_host_id s # seen) (out @ [gs_host_id s]))"

definition guest_host_ids :: "guest_token \<Rightarrow> string list" where
  "guest_host_ids g = guest_host_ids_loop (gt_sessions g) [] []"

definition guest_default_host :: "guest_token \<Rightarrow> string" where
  "guest_default_host g =
     (case List.find (\<lambda>s. gs_host_id s \<noteq> []) (gt_sessions g) of Some s \<Rightarrow> gs_host_id s | None \<Rightarrow> [])"

fun session_for_loop :: "guest_session list \<Rightarrow> string \<Rightarrow> string \<Rightarrow> guest_session option \<Rightarrow> string \<times> string" where
  "session_for_loop [] host_id session_id first =
     (case first of None \<Rightarrow> ([], []) | Some s \<Rightarrow> (gs_session_id s, gs_cwd s))"
| "session_for_loop (s # ss) host_id session_id first =
     (if gs_host_id s \<noteq> host_id then session_for_loop ss host_id session_id first
      else let first = (case first of None \<Rightarrow> Some s | Some f \<Rightarrow> Some f)
           in if gs_session_id s = session_id \<and> session_id \<noteq> [] then (gs_session_id s, gs_cwd s)
              else session_for_loop ss host_id session_id first)"

definition guest_session_for :: "guest_token \<Rightarrow> string \<Rightarrow> string \<Rightarrow> string \<times> string" where
  "guest_session_for g host_id session_id = session_for_loop (gt_sessions g) host_id session_id None"

definition guest_allows_host :: "guest_token \<Rightarrow> string \<Rightarrow> bool" where
  "guest_allows_host g host_id \<longleftrightarrow> list_ex (\<lambda>s. gs_host_id s = host_id) (gt_sessions g)"

definition guest_allows_session :: "guest_token \<Rightarrow> string \<Rightarrow> string \<Rightarrow> bool" where
  "guest_allows_session g host_id session_id \<longleftrightarrow>
     list_ex (\<lambda>s. gs_host_id s = host_id \<and> gs_session_id s = session_id) (gt_sessions g)"

definition guest_session_key :: "string \<Rightarrow> string \<Rightarrow> string" where
  "guest_session_key host_id session_id = host_id @ nul # session_id"

text \<open>\<open>strings.Cut\<close> at the first NUL.\<close>

definition split_guest_session_key :: "string \<Rightarrow> (string \<times> string) option" where
  "split_guest_session_key key =
     (case dropWhile (\<lambda>c. c \<noteq> nul) key of
        [] \<Rightarrow> None
      | _ # sid \<Rightarrow> Some (takeWhile (\<lambda>c. c \<noteq> nul) key, sid))"

section \<open>Subagent children\<close>

definition guest_child_cap :: nat where "guest_child_cap = 4096"

record child_table =
  ct_map :: "(string, string) gomap"
  ct_keys :: "string list"

definition no_children :: child_table where
  "no_children = \<lparr>ct_map = [], ct_keys = []\<rparr>"

fun note_child_loop :: "string \<Rightarrow> string \<Rightarrow> string list \<Rightarrow> child_table \<Rightarrow> child_table" where
  "note_child_loop host_id parent [] ct = ct"
| "note_child_loop host_id parent (i # ids) ct =
     (let key = guest_session_key host_id i
      in if gm_get (ct_map ct) key \<noteq> None then note_child_loop host_id parent ids ct
         else note_child_loop host_id parent ids
                (ct\<lparr>ct_map := gm_set key parent (ct_map ct), ct_keys := ct_keys ct @ [key]\<rparr>))"

definition trim_children :: "child_table \<Rightarrow> child_table" where
  "trim_children ct =
     (if length (ct_keys ct) > guest_child_cap then
        let over = length (ct_keys ct) - guest_child_cap
        in ct\<lparr>ct_map := foldl (\<lambda>m key. gm_del key m) (ct_map ct) (take over (ct_keys ct)),
              ct_keys := drop over (ct_keys ct)\<rparr>
      else ct)"

definition note_guest_child :: "string \<Rightarrow> string \<Rightarrow> string \<Rightarrow> string \<Rightarrow> child_table \<Rightarrow> child_table" where
  "note_guest_child host_id parent child subagent ct =
     (if host_id = [] \<or> parent = [] \<or> child = [] \<or> parent = child then ct
      else trim_children (note_child_loop host_id parent
             (if subagent \<noteq> [] \<and> subagent \<noteq> child then [child, subagent] else [child]) ct))"

definition guest_parent_of :: "child_table \<Rightarrow> string \<Rightarrow> string \<Rightarrow> string" where
  "guest_parent_of ct host_id session_id =
     (if session_id = [] then []
      else case gm_get (ct_map ct) (guest_session_key host_id session_id) of None \<Rightarrow> [] | Some p \<Rightarrow> p)"

definition guest_child_allowed :: "child_table \<Rightarrow> guest_token \<Rightarrow> string \<Rightarrow> string \<Rightarrow> bool" where
  "guest_child_allowed ct g host_id session_id =
     (let parent = guest_parent_of ct host_id session_id
      in parent \<noteq> [] \<and> guest_allows_session g host_id parent)"

text \<open>The three sources of the table: a spawn event, a history page, a registry answer.\<close>

record spawn_row =
  sp_session :: string
  sp_kind :: string
  sp_child :: string
  sp_subagent :: string

definition zero_spawn :: spawn_row where
  "zero_spawn = \<lparr>sp_session = [], sp_kind = [], sp_child = [], sp_subagent = []\<rparr>"

definition spawn_str :: "string \<Rightarrow> (spawn_row \<Rightarrow> string) \<Rightarrow> (string \<Rightarrow> spawn_row \<Rightarrow> spawn_row) \<Rightarrow> spawn_row field" where
  "spawn_str name get put = (name, \<lambda>raw r. map_option (\<lambda>v. put v r) (dec_str raw (get r)))"

definition spawn_session :: "string \<Rightarrow> spawn_row field" where
  "spawn_session name = spawn_str name sp_session (\<lambda>v r. r\<lparr>sp_session := v\<rparr>)"
definition spawn_child :: "string \<Rightarrow> spawn_row field" where
  "spawn_child name = spawn_str name sp_child (\<lambda>v r. r\<lparr>sp_child := v\<rparr>)"
definition spawn_subagent :: "string \<Rightarrow> spawn_row field" where
  "spawn_subagent name = spawn_str name sp_subagent (\<lambda>v r. r\<lparr>sp_subagent := v\<rparr>)"

definition spawn_meta_fields :: "spawn_row field list" where
  "spawn_meta_fields =
     [spawn_session ''sessionId'',
      (''update'', dec_struct [spawn_child ''child_session_id'', spawn_subagent ''subagent_id''])]"

definition note_spawn_from_raw :: "string \<Rightarrow> string \<Rightarrow> child_table \<Rightarrow> child_table" where
  "note_spawn_from_raw host_id raw ct =
     (case unmarshal (dec_struct spawn_meta_fields) zero_spawn raw of
        None \<Rightarrow> ct
      | Some m \<Rightarrow> note_guest_child host_id (sp_session m) (sp_child m) (sp_subagent m) ct)"

fun contains_sub :: "string \<Rightarrow> string \<Rightarrow> bool" where
  "contains_sub [] p = (p = [])"
| "contains_sub (c # s) p = (take (length p) (c # s) = p \<or> contains_sub s p)"

definition history_row_fields :: "spawn_row field list" where
  "history_row_fields =
     [(''params'', dec_struct
        [spawn_session ''sessionId'',
         (''update'', dec_struct
            [spawn_str ''sessionUpdate'' sp_kind (\<lambda>v r. r\<lparr>sp_kind := v\<rparr>),
             spawn_child ''child_session_id'', spawn_subagent ''subagent_id''])])]"

definition history_page :: "string \<Rightarrow> spawn_row list option" where
  "history_page body =
     unmarshal (dec_struct [(''updates'', dec_list (dec_struct history_row_fields) zero_spawn)]) [] body"

definition note_rows :: "string \<Rightarrow> string \<Rightarrow> spawn_row list \<Rightarrow> child_table \<Rightarrow> child_table" where
  "note_rows host_id fallback rows ct =
     foldl (\<lambda>ct u. note_guest_child host_id (if sp_session u = [] then fallback else sp_session u)
              (sp_child u) (sp_subagent u) ct) ct rows"

definition note_history_children :: "string \<Rightarrow> string \<Rightarrow> string \<Rightarrow> child_table \<Rightarrow> child_table" where
  "note_history_children host_id fallback body ct =
     (if host_id = [] \<or> \<not> contains_sub body ''subagent_spawned'' then ct
      else case history_page body of
             None \<Rightarrow> ct
           | Some rows \<Rightarrow> note_rows host_id fallback (filter (\<lambda>u. sp_kind u = ''subagent_spawned'') rows) ct)"

definition running_row_fields :: "spawn_row field list" where
  "running_row_fields =
     [spawn_subagent ''subagentId'', spawn_child ''childSessionId'', spawn_session ''parentSessionId'']"

definition running_doc :: "string \<Rightarrow> spawn_row list option" where
  "running_doc body =
     unmarshal (dec_struct [(''result'', dec_struct
        [(''subagents'', dec_list (dec_struct running_row_fields) zero_spawn)])]) [] body"

definition note_running_subagents :: "string \<Rightarrow> string \<Rightarrow> string \<Rightarrow> child_table \<Rightarrow> child_table" where
  "note_running_subagents host_id fallback body ct =
     (if host_id = [] \<or> \<not> contains_sub body ''subagents'' then ct
      else case running_doc body of None \<Rightarrow> ct | Some rows \<Rightarrow> note_rows host_id fallback rows ct)"

section \<open>The composite key\<close>

lemma nul_free_prefix:
  "nul \<notin> set h \<Longrightarrow> takeWhile (\<lambda>c. c \<noteq> nul) (h @ nul # s) = h \<and> dropWhile (\<lambda>c. c \<noteq> nul) (h @ nul # s) = nul # s"
  by (induction h) auto

lemma split_session_key: "nul \<notin> set h \<Longrightarrow> split_guest_session_key (guest_session_key h s) = Some (h, s)"
  by (simp add: split_guest_session_key_def guest_session_key_def nul_free_prefix)

lemma session_key_inj:
  assumes "guest_session_key h s = guest_session_key h' s'" and "nul \<notin> set h" and "nul \<notin> set h'"
  shows "h = h' \<and> s = s'"
proof -
  have "Some (h, s) = split_guest_session_key (guest_session_key h' s')"
    unfolding assms(1) [symmetric] by (rule split_session_key [OF assms(2), symmetric])
  then show ?thesis unfolding split_session_key [OF assms(3)] by simp
qed

lemma session_key_same_host: "guest_session_key h s = guest_session_key h s' \<longleftrightarrow> s = s'"
  by (simp add: guest_session_key_def)

section \<open>Whitelist queries\<close>

lemma guest_host_ids_loop_spec:
  "set seen = set out \<Longrightarrow> distinct out \<Longrightarrow>
     distinct (guest_host_ids_loop ss seen out) \<and>
     set (guest_host_ids_loop ss seen out) = set out \<union> (gs_host_id ` set ss - {[]})"
  by (induction ss arbitrary: seen out) auto

lemma guest_host_ids_spec:
  "distinct (guest_host_ids g)" "h \<in> set (guest_host_ids g) \<longleftrightarrow> h \<noteq> [] \<and> guest_allows_host g h"
  using guest_host_ids_loop_spec [of "[]" "[]" "gt_sessions g"]
  by (auto simp: guest_host_ids_def guest_allows_host_def list_ex_iff)

lemma session_for_loop_spec:
  assumes "\<And>f. first = Some f \<Longrightarrow> f \<in> S \<and> gs_host_id f = h" and "set ss \<subseteq> S"
  shows "(first = None \<and> (\<forall>s \<in> set ss. gs_host_id s \<noteq> h) \<and> session_for_loop ss h sid first = ([], [])) \<or>
    (\<exists>s \<in> S. gs_host_id s = h \<and> session_for_loop ss h sid first = (gs_session_id s, gs_cwd s))"
  using assms
proof (induction ss arbitrary: first)
  case Nil
  then show ?case by (cases first) auto
next
  case (Cons s ss)
  show ?case
  proof (cases "gs_host_id s = h")
    case True
    let ?f = "case first of None \<Rightarrow> Some s | Some f \<Rightarrow> Some f"
    have "?f \<noteq> None" by (cases first) auto
    moreover have "f \<in> S \<and> gs_host_id f = h" if "?f = Some f" for f
      using that Cons.prems True by (cases first) auto
    ultimately show ?thesis using Cons.IH [of ?f] Cons.prems True by (auto simp: Let_def)
  next
    case False
    then show ?thesis using Cons by auto
  qed
qed

lemma session_for_loop_hit:
  "sid \<noteq> [] \<Longrightarrow> \<exists>s \<in> set ss. gs_host_id s = h \<and> gs_session_id s = sid \<Longrightarrow> fst (session_for_loop ss h sid first) = sid"
  by (induction ss arbitrary: first) (auto simp: Let_def)

section \<open>The child table\<close>

definition child_ok :: "child_table \<Rightarrow> bool" where
  "child_ok ct \<longleftrightarrow> gm_ok (ct_map ct) \<and> distinct (ct_keys ct) \<and> gm_keys (ct_map ct) = set (ct_keys ct) \<and>
     (\<forall>k. gm_get (ct_map ct) k \<noteq> Some [])"

lemma child_ok_note: "child_ok ct \<Longrightarrow> parent \<noteq> [] \<Longrightarrow> child_ok (note_child_loop h parent ids ct)"
proof (induction ids arbitrary: ct)
  case (Cons i ids)
  let ?key = "guest_session_key h i"
  have "child_ok (ct\<lparr>ct_map := gm_set ?key parent (ct_map ct), ct_keys := ct_keys ct @ [?key]\<rparr>)"
    if "gm_get (ct_map ct) ?key = None"
    using Cons.prems that gm_keys_iff [of ?key "ct_map ct"] by (auto simp: child_ok_def gm_get_set)
  then show ?case using Cons by (simp add: Let_def)
qed simp

lemma gm_del_many:
  "gm_ok m \<Longrightarrow> gm_ok (foldl (\<lambda>m k. gm_del k m) m ks) \<and>
     gm_keys (foldl (\<lambda>m k. gm_del k m) m ks) = gm_keys m - set ks"
  by (induction ks arbitrary: m) auto

lemma gm_get_del_many: "gm_get (foldl (\<lambda>m k. gm_del k m) m ks) x = (if x \<in> set ks then None else gm_get m x)"
  by (induction ks arbitrary: m) (auto simp: gm_get_del)

lemma trim_children_ok:
  assumes "child_ok ct"
  shows "child_ok (trim_children ct) \<and> length (ct_keys (trim_children ct)) \<le> guest_child_cap"
proof (cases "length (ct_keys ct) > guest_child_cap")
  case True
  let ?n = "length (ct_keys ct) - guest_child_cap"
  have "set (ct_keys ct) - set (take ?n (ct_keys ct)) = set (drop ?n (ct_keys ct))"
    using assms set_take_disj_set_drop_if_distinct [of "ct_keys ct" ?n ?n] set_append [of "take ?n (ct_keys ct)" "drop ?n (ct_keys ct)"]
    by (auto simp: child_ok_def)
  then show ?thesis
    using assms True gm_del_many [of "ct_map ct" "take ?n (ct_keys ct)"]
    by (auto simp: child_ok_def trim_children_def Let_def gm_get_del_many)
qed (use assms in \<open>simp add: trim_children_def\<close>)

definition children_inv :: "child_table \<Rightarrow> bool" where
  "children_inv ct \<longleftrightarrow> child_ok ct \<and> length (ct_keys ct) \<le> guest_child_cap"

lemma children_inv_new [simp]: "children_inv no_children"
  by (simp add: children_inv_def child_ok_def no_children_def)

lemma children_inv_note: "children_inv ct \<Longrightarrow> children_inv (note_guest_child h p c s ct)"
  by (auto simp: children_inv_def note_guest_child_def child_ok_note trim_children_ok)

lemma children_inv_rows: "children_inv ct \<Longrightarrow> children_inv (note_rows h p rows ct)"
  unfolding note_rows_def by (induction rows arbitrary: ct) (auto intro: children_inv_note)

lemma children_inv_sources:
  "children_inv ct \<Longrightarrow> children_inv (note_spawn_from_raw h raw ct)"
  "children_inv ct \<Longrightarrow> children_inv (note_history_children h p body ct)"
  "children_inv ct \<Longrightarrow> children_inv (note_running_subagents h p body ct)"
  by (auto simp: note_spawn_from_raw_def note_history_children_def note_running_subagents_def
      intro: children_inv_note children_inv_rows split: option.splits)

text \<open>A link is never overwritten: while a child is in the table its parent is the one first recorded.\<close>

lemma note_child_loop_keeps:
  "gm_get (ct_map ct) k = Some p \<Longrightarrow> gm_get (ct_map (note_child_loop h q ids ct)) k = Some p"
proof (induction ids arbitrary: ct)
  case (Cons i ids)
  then show ?case
    by (cases "gm_get (ct_map ct) (guest_session_key h i)") (auto simp: Let_def gm_get_set intro!: Cons.IH)
qed simp

lemma note_child_loop_adds:
  "gm_get (ct_map (note_child_loop h q ids ct)) k = Some p \<Longrightarrow>
     gm_get (ct_map ct) k = Some p \<or> (p = q \<and> (\<exists>i \<in> set ids. k = guest_session_key h i))"
proof (induction ids arbitrary: ct)
  case (Cons i ids)
  then show ?case
    by (cases "gm_get (ct_map ct) (guest_session_key h i)")
      (fastforce simp: Let_def gm_get_set split: if_splits)+
qed simp

lemma trim_children_get:
  "gm_get (ct_map (trim_children ct)) k = Some p \<Longrightarrow> gm_get (ct_map ct) k = Some p"
  by (auto simp: trim_children_def Let_def gm_get_del_many split: if_splits)

lemma note_guest_child_get:
  assumes "gm_get (ct_map (note_guest_child h q c s ct)) k = Some p"
  shows "gm_get (ct_map ct) k = Some p \<or>
    (gm_get (ct_map ct) k = None \<and> p = q \<and> (k = guest_session_key h c \<or> k = guest_session_key h s))"
proof (cases "h = [] \<or> q = [] \<or> c = [] \<or> q = c")
  case False
  let ?ids = "if s \<noteq> [] \<and> s \<noteq> c then [c, s] else [c]"
  have get: "gm_get (ct_map (note_child_loop h q ?ids ct)) k = Some p"
    using assms False by (auto simp: note_guest_child_def dest: trim_children_get)
  show ?thesis
  proof (cases "gm_get (ct_map ct) k")
    case None
    then show ?thesis using note_child_loop_adds [OF get] by (auto split: if_splits)
  next
    case (Some r)
    then show ?thesis using note_child_loop_keeps [OF Some] get by simp
  qed
qed (use assms in \<open>simp add: note_guest_child_def\<close>)

section \<open>Properties\<close>

text \<open>A relayed guest request always lands on a granted session. \<open>GuestSessionFor\<close> returns the
  requested session when the token grants it on that host; otherwise it falls back to a session the
  token does grant on that host, and answers empty exactly when the token grants none there.\<close>

theorem guest_session_for_granted:
  assumes "guest_session_for g host sid = (s', cwd)"
  shows "((\<exists>s \<in> set (gt_sessions g). gs_host_id s = host \<and> gs_session_id s = s' \<and> gs_cwd s = cwd) \<or>
      (\<not> guest_allows_host g host \<and> s' = [] \<and> cwd = [])) \<and>
    (sid \<noteq> [] \<and> guest_allows_session g host sid \<longrightarrow> s' = sid)"
proof -
  have "sid \<noteq> [] \<Longrightarrow> guest_allows_session g host sid \<Longrightarrow> s' = sid"
    using session_for_loop_hit [of sid "gt_sessions g" host None] assms
    by (auto simp: guest_session_for_def guest_allows_session_def list_ex_iff)
  moreover have "(\<exists>s \<in> set (gt_sessions g). gs_host_id s = host \<and> gs_session_id s = s' \<and> gs_cwd s = cwd) \<or>
      (\<not> guest_allows_host g host \<and> s' = [] \<and> cwd = [])"
    using session_for_loop_spec [of None "set (gt_sessions g)" host "gt_sessions g" sid] assms
    by (auto simp: guest_session_for_def guest_allows_host_def list_ex_iff)
  ultimately show ?thesis by blast
qed

definition sample_session :: "string \<Rightarrow> string \<Rightarrow> guest_session" where
  "sample_session h s = \<lparr>gs_host_id = h, gs_host_name = [], gs_session_id = s, gs_cwd = ''/w'', gs_title = [],
     gs_added_at = 1, gs_stale = False\<rparr>"

definition sample_token :: guest_token where
  "sample_token = \<lparr>gt_id = ''g_1'', gt_token = ''g_t'', gt_label = ''l'', gt_created_at = 1, gt_expires_at = 0,
     gt_revoked = False, gt_sessions = [sample_session ''h'' ''s1'', sample_session ''h'' ''s2''], gt_last_used_at = 0\<rparr>"

lemma guest_session_for_granted_witness:
  "fst (guest_session_for sample_token ''h'' ''s2'') = ''s2''"
  using guest_session_for_granted [of sample_token "''h''" "''s2''" "fst (guest_session_for sample_token ''h'' ''s2'')"
      "snd (guest_session_for sample_token ''h'' ''s2'')"]
  by (simp add: guest_allows_session_def sample_token_def sample_session_def)

text \<open>The subagent table is bounded and stable. However many spawns, history pages and registry
  answers are noted, its key queue lists exactly the keys of the map, once each and at most 4096; a
  link present before a note keeps its parent or is evicted, and a new link belongs to the parent
  just noted.\<close>

theorem child_table_bounded_and_stable:
  assumes "children_inv ct" and "ct' = note_guest_child host parent child subagent ct"
  shows "children_inv ct' \<and> length (ct_map ct') \<le> 4096 \<and>
    (\<forall>k p. gm_get (ct_map ct') k = Some p \<longrightarrow> gm_get (ct_map ct) k = Some p \<or>
       (gm_get (ct_map ct) k = None \<and> p = parent \<and>
        (k = guest_session_key host child \<or> k = guest_session_key host subagent)))"
proof -
  have inv: "children_inv ct'" using assms children_inv_note by simp
  then have "length (ct_map ct') = length (ct_keys ct')"
    using gm_length_keys [of "ct_map ct'"] distinct_card [of "ct_keys ct'"] by (simp add: children_inv_def child_ok_def)
  then show ?thesis using inv note_guest_child_get assms(2)
    by (auto simp: children_inv_def guest_child_cap_def)
qed

lemma child_table_bounded_and_stable_witness:
  "children_inv (note_guest_child ''h'' ''p'' ''c'' ''a'' no_children)"
  using child_table_bounded_and_stable [OF children_inv_new refl] by blast

end
