(* ===== verification/Subscribers.thy ===== *)
theory Subscribers
  imports FeQueue Whitelist Frame
begin

text \<open>
  Browser subscribers and fan-out (\<open>internal/hub/hub.go\<close> and \<open>subscribers.go\<close>): who receives an
  event, registration with its cap, the kicks that make a revocation take effect, and the absolute
  audience each host is told. A channel is identified by the registration id of the subscriber that
  owns it (every subscriber makes its own channel); the copy-on-write list is a list, and a nil
  pointer is the empty list, which every reader treats alike. The counter of registration ids is an
  \<open>atomic.Int64\<close>; it is an integer here, which is the same for the first 2^63 - 1 pages of a process.
\<close>

section \<open>State\<close>

record subscriber_info =
  si_ip :: string
  si_ua :: string
  si_role :: string
  si_user_id :: string
  si_user_label :: string
  si_guest_id :: string
  si_guest_label :: string

record fe_sub =
  sb_id :: int
  sb_connected_at :: time
  sb_info :: subscriber_info
  sb_host :: string
  sb_session :: string
  sb_view_declared :: bool
  sb_role :: string
  sb_user_id :: string
  sb_guest :: bool
  sb_guest_token_id :: string
  sb_user_hosts :: "string list option"
  sb_allowed_hosts :: "string list"
  sb_allowed_sessions :: "string list"
  sb_guest_parent_of :: bool
  sb_kicked :: bool
  sb_q :: fe_queue

record host_view =
  hv_attached :: bool
  hv_audience_gen :: u64
  hv_audience_key :: string

record fan_hub =
  hb_subs :: "fe_sub list"
  hb_next_sub_id :: int
  hb_subs_seen :: bool
  hb_last_fe_subs :: int
  hb_hosts :: "(string, host_view) gomap"
  hb_children :: child_table
  hb_last_widen_log :: time
  hb_pushed :: "(string \<times> audience) list"

section \<open>Who receives an event\<close>

definition sub_watches :: "fe_sub \<Rightarrow> string \<Rightarrow> bool" where
  "sub_watches s ev_host =
     (if ev_host = [] then \<not> (sb_role s = ''guest'' \<or> sb_role s = ''user'')
      else if sb_role s = ''guest'' \<and> ev_host \<notin> set (sb_allowed_hosts s) then False
      else if (case sb_user_hosts s of Some hosts \<Rightarrow> ev_host \<notin> set hosts | None \<Rightarrow> False) then False
      else sb_host s = [] \<or> sb_host s = ev_host)"

definition sub_watches_event :: "child_table \<Rightarrow> fe_sub \<Rightarrow> event \<Rightarrow> bool" where
  "sub_watches_event ct s ev =
     (let ev_host = str_of (gm_get ev ''hostId'')
      in if ev_host = [] \<and> sb_role s = ''user'' then gm_get ev ''type'' = Some (VStr ''hosts_changed'')
         else if \<not> sub_watches s ev_host then False
         else if sb_role s \<noteq> ''guest'' then True
         else let sid = event_session_id ev
              in if sid = [] then False
                 else if guest_session_key ev_host sid \<in> set (sb_allowed_sessions s) then True
                 else if \<not> sb_guest_parent_of s then False
                 else let parent = guest_parent_of ct ev_host sid
                      in parent \<noteq> [] \<and> guest_session_key ev_host parent \<in> set (sb_allowed_sessions s))"

definition set_user_hosts :: "string list \<Rightarrow> fe_sub \<Rightarrow> fe_sub" where
  "set_user_hosts hosts s = s\<lparr>sb_user_hosts := Some (filter (\<lambda>i. i \<noteq> []) hosts)\<rparr>"

definition sub_kick :: "fe_sub \<Rightarrow> fe_sub" where
  "sub_kick s = s\<lparr>sb_kicked := True\<rparr>"

definition deliver_to :: "event \<Rightarrow> fe_sub \<Rightarrow> fe_sub" where
  "deliver_to ev s = s\<lparr>sb_q := sub_deliver ev (sb_q s)\<rparr>"

definition map_subs :: "(fe_sub \<Rightarrow> fe_sub) \<Rightarrow> fan_hub \<Rightarrow> fan_hub" where
  "map_subs f h = h\<lparr>hb_subs := map f (hb_subs h)\<rparr>"

section \<open>Audience\<close>

definition subscriber_count_for :: "fan_hub \<Rightarrow> string \<Rightarrow> int" where
  "subscriber_count_for h host = int (length (filter (\<lambda>s. sub_watches s host) (hb_subs h)))"

definition subscriber_count :: "fan_hub \<Rightarrow> int" where
  "subscriber_count h = int (length (hb_subs h))"

definition max_viewing_session_id_len :: nat where "max_viewing_session_id_len = 128"
definition max_viewing_sessions :: nat where "max_viewing_sessions = 64"

record view_acc =
  va_sessions :: "string list"
  va_all :: bool
  va_log :: time

definition log_viewing_widen :: "time \<Rightarrow> view_acc \<Rightarrow> view_acc" where
  "log_viewing_widen now a = (if now - va_log a < minute then a else a\<lparr>va_log := now\<rparr>)"

definition view_add :: "time \<Rightarrow> string \<Rightarrow> view_acc \<Rightarrow> view_acc" where
  "view_add now sid a =
     (if sid = [] then a
      else if length sid > max_viewing_session_id_len then log_viewing_widen now (a\<lparr>va_all := True\<rparr>)
      else if sid \<in> set (va_sessions a) then a
      else if length (va_sessions a) \<ge> max_viewing_sessions then log_viewing_widen now (a\<lparr>va_all := True\<rparr>)
      else a\<lparr>va_sessions := va_sessions a @ [sid]\<rparr>)"

fun view_subs :: "time \<Rightarrow> string \<Rightarrow> fe_sub list \<Rightarrow> nat \<times> view_acc \<Rightarrow> nat \<times> view_acc" where
  "view_subs now host [] st = st"
| "view_subs now host (s # ss) (watchers, a) =
     (if \<not> sub_watches s host then view_subs now host ss (watchers, a)
      else if \<not> sb_view_declared s then view_subs now host ss (watchers + 1, a\<lparr>va_all := True\<rparr>)
      else if sb_session s = [] then view_subs now host ss (watchers + 1, a)
      else view_subs now host ss (watchers + 1, view_add now (sb_session s) a))"

fun view_kids :: "time \<Rightarrow> string \<Rightarrow> (string, string) gomap \<Rightarrow> view_acc \<Rightarrow> view_acc" where
  "view_kids now host [] a = a"
| "view_kids now host ((key, parent) # kids) a =
     (if parent \<notin> set (va_sessions a) then view_kids now host kids a
      else case split_guest_session_key key of
             None \<Rightarrow> view_kids now host kids a
           | Some (h, sid) \<Rightarrow>
               if h \<noteq> host then view_kids now host kids a
               else let a = view_add now sid a in if va_all a then a else view_kids now host kids a)"

text \<open>The viewing set is \<open>None\<close> (nobody), \<open>Some None\<close> (all) or the sessions displayed.\<close>

definition viewing_set :: "time \<Rightarrow> fan_hub \<Rightarrow> string \<Rightarrow> fan_hub \<times> string list option option" where
  "viewing_set now h host =
     (let (watchers, a) = view_subs now host (hb_subs h)
            (0, \<lparr>va_sessions = [], va_all = False, va_log = hb_last_widen_log h\<rparr>)
      in if watchers = 0 then (h\<lparr>hb_last_widen_log := va_log a\<rparr>, None)
         else if va_all a then (h\<lparr>hb_last_widen_log := va_log a\<rparr>, Some None)
         else let a = view_kids now host (ct_map (hb_children h)) a
              in (h\<lparr>hb_last_widen_log := va_log a\<rparr>, Some (if va_all a then None else Some (va_sessions a))))"

definition audience_key :: "audience \<Rightarrow> string" where
  "audience_key a = enc_int (au_watchers a) @ ''|'' @ enc_bool (au_all a) @ ''|'' @
     concat (map (\<lambda>s. s @ [nul]) (au_sessions a))"

definition audience_snapshot :: "time \<Rightarrow> fan_hub \<Rightarrow> string \<Rightarrow> fan_hub \<times> audience" where
  "audience_snapshot now h host =
     (let a = \<lparr>au_gen = 0, au_watchers = subscriber_count_for h host, au_all = False, au_sessions = []\<rparr>
      in case viewing_set now h host of
           (h, None) \<Rightarrow> (h, a)
         | (h, Some None) \<Rightarrow> (h, a\<lparr>au_all := True\<rparr>)
         | (h, Some (Some ss)) \<Rightarrow> (h, a\<lparr>au_sessions := sort ss\<rparr>))"

definition audience_locked :: "time \<Rightarrow> fan_hub \<Rightarrow> string \<Rightarrow> fan_hub \<times> audience \<times> bool" where
  "audience_locked now h host =
     (case gm_get (hb_hosts h) host of
        None \<Rightarrow> (h, \<lparr>au_gen = 0, au_watchers = 0, au_all = False, au_sessions = []\<rparr>, False)
      | Some hs \<Rightarrow>
          let (h, a) = audience_snapshot now h host;
              key = audience_key a;
              (hs, changed) =
                (if hv_audience_gen hs = 0 then (hs\<lparr>hv_audience_gen := 1, hv_audience_key := key\<rparr>, False)
                 else if key \<noteq> hv_audience_key hs
                 then (hs\<lparr>hv_audience_gen := hv_audience_gen hs + 1, hv_audience_key := key\<rparr>, True)
                 else (hs, False))
          in (h\<lparr>hb_hosts := gm_set host hs (hb_hosts h)\<rparr>, a\<lparr>au_gen := hv_audience_gen hs\<rparr>, changed))"

fun notify_loop :: "time \<Rightarrow> (string \<times> host_view) list \<Rightarrow> fan_hub \<Rightarrow> (string \<times> audience) list \<Rightarrow>
    fan_hub \<times> (string \<times> audience) list" where
  "notify_loop now [] h todo = (h, todo)"
| "notify_loop now ((i, hs) # hosts) h todo =
     (if \<not> hv_attached hs then notify_loop now hosts h todo
      else case audience_locked now h i of
             (h, a, changed) \<Rightarrow> notify_loop now hosts h (if changed then todo @ [(i, a)] else todo))"

definition notify_audience :: "time \<Rightarrow> fan_hub \<Rightarrow> fan_hub" where
  "notify_audience now h =
     (case notify_loop now (hb_hosts h) h [] of (h, todo) \<Rightarrow> h\<lparr>hb_pushed := hb_pushed h @ todo\<rparr>)"

section \<open>Fan-out\<close>

definition notify_subscribers_count :: "int option \<Rightarrow> fan_hub \<Rightarrow> fan_hub" where
  "notify_subscribers_count except h =
     (let count = subscriber_count h
      in if hb_subs_seen h \<and> hb_last_fe_subs h = count then h
         else let h = h\<lparr>hb_subs_seen := True, hb_last_fe_subs := count\<rparr>;
                  ev = [(''type'', VStr ''subscribers_changed''), (''count'', VInt count)]
              in map_subs (\<lambda>s. if sb_role s = ''user'' \<or> sb_role s = ''guest'' then s
                              else if Some (sb_id s) = except \<or> \<not> sub_watches_event (hb_children h) s ev then s
                              else deliver_to ev s) h)"

definition broadcast :: "event \<Rightarrow> fan_hub \<Rightarrow> fan_hub" where
  "broadcast ev h =
     map_subs (\<lambda>s. if \<not> sub_watches_event (hb_children h) s ev then s else deliver_to ev s) h"

definition host_owner_or_default :: "string \<Rightarrow> string" where
  "host_owner_or_default owner = (if trim_space owner = [] then ''root'' else owner)"

definition broadcast_to_user :: "string \<Rightarrow> event \<Rightarrow> fan_hub \<Rightarrow> fan_hub" where
  "broadcast_to_user user_id ev h =
     (let root = (host_owner_or_default user_id = ''root'')
      in map_subs (\<lambda>s. if root then (if sb_role s = ''admin'' \<or> sb_role s = [] then deliver_to ev s else s)
                      else if sb_role s = ''user'' \<and> sb_user_id s = user_id then deliver_to ev s else s) h)"

definition broadcast_host :: "string \<Rightarrow> event \<Rightarrow> fan_hub \<Rightarrow> fan_hub" where
  "broadcast_host host ev h =
     (let tagged = (case gm_get ev ''hostId'' of Some (VStr _) \<Rightarrow> True | _ \<Rightarrow> False)
      in map_subs (\<lambda>s. if \<not> sub_watches s host then s
                      else if tagged \<and> \<not> sub_watches_event (hb_children h) s ev then s
                      else deliver_to ev s) h)"

section \<open>Registration\<close>

definition unsubscribe :: "int \<Rightarrow> fan_hub \<Rightarrow> fan_hub" where
  "unsubscribe i h = h\<lparr>hb_subs := filter (\<lambda>s. sb_id s \<noteq> i) (hb_subs h)\<rparr>"

text \<open>The function \<open>TrySubscribe\<close> hands back; the stopped subscriber is dropped with its channel.\<close>

definition unsubscribe_fn :: "time \<Rightarrow> int \<Rightarrow> fan_hub \<Rightarrow> fan_hub" where
  "unsubscribe_fn now i h = notify_subscribers_count None (notify_audience now (unsubscribe i h))"

definition new_sub :: "time \<Rightarrow> int \<Rightarrow> string \<Rightarrow> guest_token option \<Rightarrow> string option \<Rightarrow> string list \<Rightarrow>
    subscriber_info \<Rightarrow> fe_sub" where
  "new_sub now i host guest user allowed info =
     (let s = \<lparr>sb_id = i, sb_connected_at = now, sb_info = info, sb_host = host, sb_session = [],
               sb_view_declared = False, sb_role = (if si_role info = [] then ''admin'' else si_role info),
               sb_user_id = [], sb_guest = False, sb_guest_token_id = [], sb_user_hosts = None,
               sb_allowed_hosts = [], sb_allowed_sessions = [], sb_guest_parent_of = False,
               sb_kicked = False, sb_q = new_fe_subscriber 512\<rparr>
      in case user of
           Some uid \<Rightarrow>
             let s = (if sb_role s = [] then s\<lparr>sb_role := ''user''\<rparr> else s)
             in set_user_hosts allowed (s\<lparr>sb_user_id := uid\<rparr>)
         | None \<Rightarrow>
             (case guest of
                Some g \<Rightarrow>
                  s\<lparr>sb_role := ''guest'', sb_guest := True, sb_guest_token_id := gt_id g,
                    sb_allowed_hosts := map gs_host_id (gt_sessions g),
                    sb_allowed_sessions := map (\<lambda>x. guest_session_key (gs_host_id x) (gs_session_id x)) (gt_sessions g),
                    sb_guest_parent_of := True\<rparr>
              | None \<Rightarrow> s))"

definition try_subscribe :: "time \<Rightarrow> int \<Rightarrow> string \<Rightarrow> guest_token option \<Rightarrow> string option \<Rightarrow> string list \<Rightarrow>
    subscriber_info \<Rightarrow> fan_hub \<Rightarrow> fan_hub \<times> int option" where
  "try_subscribe now maxs host guest user allowed info h =
     (let i = hb_next_sub_id h + 1;
          h = h\<lparr>hb_next_sub_id := i\<rparr>;
          s = new_sub now i host guest user allowed info
      in if maxs > 0 \<and> int (length (hb_subs h)) \<ge> maxs then (h, None)
         else let h = h\<lparr>hb_subs := hb_subs h @ [s]\<rparr>;
                  h = notify_audience now h;
                  h = notify_subscribers_count (Some i) h
              in (h, Some i))"

definition zero_info :: subscriber_info where
  "zero_info = \<lparr>si_ip = [], si_ua = [], si_role = [], si_user_id = [], si_user_label = [], si_guest_id = [],
     si_guest_label = []\<rparr>"

definition try_subscribe_host :: "time \<Rightarrow> int \<Rightarrow> string \<Rightarrow> fan_hub \<Rightarrow> fan_hub \<times> int option" where
  "try_subscribe_host now maxs host h = try_subscribe now maxs host None None [] zero_info h"

definition try_subscribe_scoped :: "time \<Rightarrow> int \<Rightarrow> string \<Rightarrow> string \<Rightarrow> string \<Rightarrow> string list \<Rightarrow> subscriber_info \<Rightarrow>
    fan_hub \<Rightarrow> fan_hub \<times> int option" where
  "try_subscribe_scoped now maxs host scope role allowed info h =
     (let role = (if role = [] then ''user'' else role)
      in try_subscribe now maxs host None (Some scope) allowed (info\<lparr>si_role := role\<rparr>) h)"

definition try_subscribe_guest :: "time \<Rightarrow> int \<Rightarrow> string \<Rightarrow> guest_token \<Rightarrow> subscriber_info \<Rightarrow> fan_hub \<Rightarrow>
    fan_hub \<times> int option" where
  "try_subscribe_guest now maxs host g info h = try_subscribe now maxs host (Some g) None [] info h"

section \<open>Updates of a live subscriber\<close>

definition set_subscriber_user_hosts :: "int \<Rightarrow> string list \<Rightarrow> fan_hub \<Rightarrow> fan_hub \<times> bool" where
  "set_subscriber_user_hosts i hosts h =
     (let hit = (\<lambda>s. sb_id s = i \<and> sb_role s = ''user'')
      in if List.find hit (hb_subs h) = None then (h, False)
         else (h\<lparr>hb_subs := update_first hit (set_user_hosts hosts) (hb_subs h)\<rparr>, True))"

definition set_subscriber_host :: "time \<Rightarrow> int \<Rightarrow> string \<Rightarrow> fan_hub \<Rightarrow> fan_hub \<times> bool" where
  "set_subscriber_host now i host h =
     (let hit = (\<lambda>s. sb_id s = i)
      in if List.find hit (hb_subs h) = None then (h, False)
         else (notify_audience now (h\<lparr>hb_subs := update_first hit (\<lambda>s. s\<lparr>sb_host := host\<rparr>) (hb_subs h)\<rparr>), True))"

definition set_subscriber_session :: "time \<Rightarrow> int \<Rightarrow> string \<Rightarrow> bool \<Rightarrow> fan_hub \<Rightarrow> fan_hub \<times> bool" where
  "set_subscriber_session now i sid declared h =
     (let hit = (\<lambda>s. sb_id s = i);
          put = (\<lambda>s. if declared then s\<lparr>sb_session := sid, sb_view_declared := True\<rparr> else s\<lparr>sb_session := sid\<rparr>)
      in if List.find hit (hb_subs h) = None then (h, False)
         else (notify_audience now (h\<lparr>hb_subs := update_first hit put (hb_subs h)\<rparr>), True))"

definition drop_guest_subscribers :: "string \<Rightarrow> fan_hub \<Rightarrow> fan_hub" where
  "drop_guest_subscribers token_id h =
     (if token_id = [] then h
      else map_subs (\<lambda>s. if sb_guest s \<and> sb_guest_token_id s = token_id then sub_kick s else s) h)"

definition drop_user_subscribers :: "string \<Rightarrow> fan_hub \<Rightarrow> fan_hub" where
  "drop_user_subscribers user_id h =
     (if user_id = [] then h
      else map_subs (\<lambda>s. if sb_role s = ''user'' \<and> sb_user_id s = user_id then sub_kick s else s) h)"

definition drop_subscribers_for_host :: "string \<Rightarrow> fan_hub \<Rightarrow> fan_hub" where
  "drop_subscribers_for_host host h =
     (if host = [] then h
      else map_subs (\<lambda>s. let stale = (sb_host s = host \<or> host \<in> set (sb_allowed_hosts s));
                             stale = (case sb_user_hosts s of
                                        Some hosts \<Rightarrow> if host \<in> set hosts then True else stale
                                      | None \<Rightarrow> stale)
                         in if stale then sub_kick s else s) h)"

text \<open>The roster of the admin panel.\<close>

record subscriber_row =
  sr_id :: int
  sr_ip :: string
  sr_user_agent :: string
  sr_role :: string
  sr_user_id :: string
  sr_user_label :: string
  sr_guest_id :: string
  sr_guest_label :: string
  sr_host_id :: string
  sr_session_id :: string
  sr_connected_at :: int

definition unix_milli :: "time \<Rightarrow> int" where
  "unix_milli t = t div millisecond - 62135596800000"

definition subscriber_rows :: "fan_hub \<Rightarrow> subscriber_row list" where
  "subscriber_rows h = sort_key sr_id
     (map (\<lambda>s. \<lparr>sr_id = sb_id s, sr_ip = si_ip (sb_info s), sr_user_agent = si_ua (sb_info s),
               sr_role = si_role (sb_info s), sr_user_id = si_user_id (sb_info s),
               sr_user_label = si_user_label (sb_info s), sr_guest_id = si_guest_id (sb_info s),
               sr_guest_label = si_guest_label (sb_info s), sr_host_id = sb_host s,
               sr_session_id = sb_session s, sr_connected_at = unix_milli (sb_connected_at s)\<rparr>) (hb_subs h))"

definition new_fan_hub :: fan_hub where
  "new_fan_hub = \<lparr>hb_subs = [], hb_next_sub_id = 0, hb_subs_seen = False, hb_last_fe_subs = 0, hb_hosts = [],
     hb_children = no_children, hb_last_widen_log = 0, hb_pushed = []\<rparr>"

section \<open>What the audience bookkeeping leaves alone\<close>

lemma viewing_set_frame:
  "viewing_set now h host = (h', v) \<Longrightarrow> \<exists>t. h' = h\<lparr>hb_last_widen_log := t\<rparr>"
  by (auto simp: viewing_set_def Let_def split: prod.splits if_splits)

lemma audience_snapshot_frame:
  "audience_snapshot now h host = (h', a) \<Longrightarrow> \<exists>t. h' = h\<lparr>hb_last_widen_log := t\<rparr>"
  using viewing_set_frame [of now h host]
  by (auto simp: audience_snapshot_def Let_def split: prod.splits option.splits)

definition same_pages :: "fan_hub \<Rightarrow> fan_hub \<Rightarrow> bool" where
  "same_pages h h' \<longleftrightarrow> hb_subs h' = hb_subs h \<and> hb_next_sub_id h' = hb_next_sub_id h \<and>
     hb_children h' = hb_children h \<and> hb_subs_seen h' = hb_subs_seen h \<and> hb_last_fe_subs h' = hb_last_fe_subs h"

lemma audience_locked_pages: "audience_locked now h host = (h', a, c) \<Longrightarrow> same_pages h h'"
  using audience_snapshot_frame [of now h host]
  by (auto simp: audience_locked_def same_pages_def Let_def split: prod.splits option.splits if_splits)

lemma notify_loop_pages: "notify_loop now hosts h todo = (h', todo') \<Longrightarrow> same_pages h h'"
proof (induction hosts arbitrary: h todo)
  case (Cons p hosts)
  obtain i hs where p: "p = (i, hs)" by (cases p)
  obtain h1 a c where al: "audience_locked now h i = (h1, a, c)" by (cases "audience_locked now h i")
  show ?case
  proof (cases "hv_attached hs")
    case True
    then have "same_pages h1 h'" using Cons p al by simp
    then show ?thesis using audience_locked_pages [OF al] by (simp add: same_pages_def)
  qed (use Cons p in simp)
qed (simp add: same_pages_def)

lemma notify_audience_pages [simp]:
  "hb_subs (notify_audience now h) = hb_subs h" "hb_next_sub_id (notify_audience now h) = hb_next_sub_id h"
  "hb_children (notify_audience now h) = hb_children h"
proof -
  obtain h' todo where l: "notify_loop now (hb_hosts h) h [] = (h', todo)" by (cases "notify_loop now (hb_hosts h) h []")
  show "hb_subs (notify_audience now h) = hb_subs h" "hb_next_sub_id (notify_audience now h) = hb_next_sub_id h"
    "hb_children (notify_audience now h) = hb_children h"
    using notify_loop_pages [OF l] by (simp_all add: notify_audience_def l same_pages_def)
qed

section \<open>The viewing set\<close>

definition view_ok :: "view_acc \<Rightarrow> bool" where
  "view_ok a \<longleftrightarrow> distinct (va_sessions a) \<and> length (va_sessions a) \<le> max_viewing_sessions \<and>
     (\<forall>s \<in> set (va_sessions a). s \<noteq> [] \<and> length s \<le> max_viewing_session_id_len)"

definition view_le :: "view_acc \<Rightarrow> view_acc \<Rightarrow> bool" where
  "view_le a b \<longleftrightarrow> set (va_sessions a) \<subseteq> set (va_sessions b) \<and> (va_all a \<longrightarrow> va_all b)"

lemma view_le_trans: "view_le a b \<Longrightarrow> view_le b c \<Longrightarrow> view_le a c"
  by (auto simp: view_le_def)

lemma log_viewing_widen_simps [simp]:
  "va_sessions (log_viewing_widen now a) = va_sessions a" "va_all (log_viewing_widen now a) = va_all a"
  by (simp_all add: log_viewing_widen_def)

lemma view_add_spec:
  "view_ok a \<Longrightarrow> view_ok (view_add now sid a)" "view_le a (view_add now sid a)"
  "va_all (view_add now sid a) \<or> sid = [] \<or> sid \<in> set (va_sessions (view_add now sid a))"
  by (auto simp: view_add_def view_ok_def view_le_def)

lemma view_subs_spec:
  assumes "view_subs now host ss (n, a) = (n', a')"
  shows "(view_ok a \<longrightarrow> view_ok a') \<and> view_le a a' \<and> n' = n + length (filter (\<lambda>s. sub_watches s host) ss) \<and>
    (\<forall>s \<in> set ss. sub_watches s host \<longrightarrow> va_all a' \<or>
       (sb_view_declared s \<and> (sb_session s = [] \<or> sb_session s \<in> set (va_sessions a'))))"
  using assms
proof (induction ss arbitrary: n a)
  case Nil
  then show ?case by (simp add: view_le_def)
next
  case (Cons s ss)
  define b where "b = (if \<not> sub_watches s host then a
      else if \<not> sb_view_declared s then a\<lparr>va_all := True\<rparr>
      else if sb_session s = [] then a else view_add now (sb_session s) a)"
  define m where "m = (if sub_watches s host then n + 1 else n)"
  have step: "view_subs now host ss (m, b) = (n', a')"
    using Cons.prems by (auto simp: b_def m_def split: if_splits)
  consider (skip) "\<not> sub_watches s host" "b = a" | (undeclared) "b = a\<lparr>va_all := True\<rparr>"
    | (nothing) "sb_view_declared s" "sb_session s = []" "b = a"
    | (displays) "sb_view_declared s" "b = view_add now (sb_session s) a"
    unfolding b_def by meson
  then have b: "(view_ok a \<longrightarrow> view_ok b) \<and> view_le a b \<and>
    (sub_watches s host \<longrightarrow> va_all b \<or> (sb_view_declared s \<and> (sb_session s = [] \<or> sb_session s \<in> set (va_sessions b))))"
  proof cases
    case displays
    then show ?thesis using view_add_spec [where a = a and now = now and sid = "sb_session s"] by blast
  qed (simp_all add: view_ok_def view_le_def)
  note IH = Cons.IH [OF step]
  have le: "view_le b a'" using IH by (rule conjunct1 [OF conjunct2])
  have "sub_watches s host \<longrightarrow> va_all a' \<or>
      (sb_view_declared s \<and> (sb_session s = [] \<or> sb_session s \<in> set (va_sessions a')))"
    using b le unfolding view_le_def by blast
  moreover have "view_ok a \<longrightarrow> view_ok a'" using b IH by blast
  moreover have "view_le a a'" using b view_le_trans [OF _ le] by blast
  moreover have "n' = n + length (filter (\<lambda>s. sub_watches s host) (s # ss))" using IH by (simp add: m_def)
  ultimately show ?case using IH by simp
qed

lemma view_kids_spec:
  "(view_ok a \<longrightarrow> view_ok (view_kids now host kids a)) \<and> view_le a (view_kids now host kids a)"
proof (induction now host kids a rule: view_kids.induct)
  case (2 now host key parent kids a)
  show ?case
  proof (cases "parent \<in> set (va_sessions a)")
    case in_set: True
    show ?thesis
    proof (cases "split_guest_session_key key")
      case (Some p)
      obtain h sid where p: "p = (h, sid)" by (cases p)
      let ?b = "view_add now sid a"
      have b: "view_ok a \<longrightarrow> view_ok ?b" "view_le a ?b" using view_add_spec [where a = a and now = now and sid = sid] by auto
      consider "h \<noteq> host" | "h = host" "va_all ?b" | "h = host" "\<not> va_all ?b" by blast
      then show ?thesis
      proof cases
        case 3
        have "(view_ok ?b \<longrightarrow> view_ok (view_kids now host kids ?b)) \<and> view_le ?b (view_kids now host kids ?b)"
          using "2.IH"(4) [of p h sid ?b] in_set Some p 3 by simp
        then show ?thesis using in_set Some p 3 b view_le_trans [OF b(2)] by (simp add: Let_def)
      qed (use 2 in_set Some p b in \<open>simp_all add: Let_def\<close>)
    qed (use 2 in_set in simp)
  qed (use 2 in simp)
qed (simp add: view_le_def)

lemma viewing_set_spec:
  assumes "viewing_set now h host = (h', v)"
  shows "(v = None \<longleftrightarrow> subscriber_count_for h host = 0)"
    and "v = Some (Some ss) \<Longrightarrow> distinct ss \<and> length ss \<le> max_viewing_sessions \<and> [] \<notin> set ss \<and>
      (\<forall>s \<in> set (hb_subs h). sub_watches s host \<longrightarrow> sb_view_declared s \<and> (sb_session s = [] \<or> sb_session s \<in> set ss))"
proof -
  let ?a0 = "\<lparr>va_sessions = [], va_all = False, va_log = hb_last_widen_log h\<rparr>"
  obtain n a where vs: "view_subs now host (hb_subs h) (0, ?a0) = (n, a)"
    by (cases "view_subs now host (hb_subs h) (0, ?a0)")
  note sp = view_subs_spec [OF vs]
  have n: "n = length (filter (\<lambda>s. sub_watches s host) (hb_subs h))" using sp by simp
  show "(v = None \<longleftrightarrow> subscriber_count_for h host = 0)"
    using assms n vs by (auto simp: viewing_set_def subscriber_count_for_def Let_def split: if_splits)
  assume v: "v = Some (Some ss)"
  let ?k = "view_kids now host (ct_map (hb_children h)) a"
  have ss: "ss = va_sessions ?k" "\<not> va_all a"
    using assms v vs by (auto simp: viewing_set_def Let_def split: if_splits)
  have "view_ok ?a0" by (simp add: view_ok_def)
  then have k: "view_ok ?k" "view_le a ?k" using sp view_kids_spec by blast+
  have cover: "\<forall>s \<in> set (hb_subs h). sub_watches s host \<longrightarrow> va_all a \<or>
      (sb_view_declared s \<and> (sb_session s = [] \<or> sb_session s \<in> set (va_sessions a)))"
    using sp by (elim conjE)
  have sub: "set (va_sessions a) \<subseteq> set ss" using k(2) ss(1) by (simp add: view_le_def)
  have "distinct ss \<and> length ss \<le> max_viewing_sessions \<and> [] \<notin> set ss" using k(1) ss(1) by (auto simp: view_ok_def)
  moreover have "\<forall>s \<in> set (hb_subs h). sub_watches s host \<longrightarrow> sb_view_declared s \<and> (sb_session s = [] \<or> sb_session s \<in> set ss)"
    using cover ss(2) sub by blast
  ultimately show "distinct ss \<and> length ss \<le> max_viewing_sessions \<and> [] \<notin> set ss \<and>
      (\<forall>s \<in> set (hb_subs h). sub_watches s host \<longrightarrow> sb_view_declared s \<and> (sb_session s = [] \<or> sb_session s \<in> set ss))"
    by (elim conjE) (intro conjI)
qed

section \<open>Histories of the subscriber list\<close>

datatype sub_op =
    OpSubscribe int string "guest_token option" "string option" "string list" subscriber_info
  | OpUnsubscribe int
  | OpSetHost int string
  | OpSetSession int string bool
  | OpSetUserHosts int "string list"
  | OpBroadcast event
  | OpBroadcastUser string event
  | OpBroadcastHost string event
  | OpDropGuest string
  | OpDropUser string
  | OpDropHost string
  | OpNoteChildren child_table

fun sub_apply :: "time \<times> sub_op \<Rightarrow> fan_hub \<Rightarrow> fan_hub" where
  "sub_apply (now, OpSubscribe maxs host guest user allowed info) h =
     fst (try_subscribe now maxs host guest user allowed info h)"
| "sub_apply (now, OpUnsubscribe i) h = unsubscribe_fn now i h"
| "sub_apply (now, OpSetHost i host) h = fst (set_subscriber_host now i host h)"
| "sub_apply (now, OpSetSession i sid d) h = fst (set_subscriber_session now i sid d h)"
| "sub_apply (now, OpSetUserHosts i hosts) h = fst (set_subscriber_user_hosts i hosts h)"
| "sub_apply (now, OpBroadcast ev) h = broadcast ev h"
| "sub_apply (now, OpBroadcastUser u ev) h = broadcast_to_user u ev h"
| "sub_apply (now, OpBroadcastHost host ev) h = broadcast_host host ev h"
| "sub_apply (now, OpDropGuest t) h = drop_guest_subscribers t h"
| "sub_apply (now, OpDropUser u) h = drop_user_subscribers u h"
| "sub_apply (now, OpDropHost host) h = drop_subscribers_for_host host h"
| "sub_apply (now, OpNoteChildren ct) h = h\<lparr>hb_children := ct\<rparr>"

definition sub_run :: "(time \<times> sub_op) list \<Rightarrow> fan_hub \<Rightarrow> fan_hub" where
  "sub_run ops h = fold sub_apply ops h"

text \<open>The part of a subscriber that decides its scope, and that no operation changes.\<close>

definition scope :: "fe_sub \<Rightarrow> string \<times> string \<times> bool \<times> string \<times> string list \<times> string list \<times> bool" where
  "scope s = (sb_role s, sb_user_id s, sb_guest s, sb_guest_token_id s, sb_allowed_hosts s,
     sb_allowed_sessions s, sb_guest_parent_of s)"

definition kept :: "fan_hub \<Rightarrow> fan_hub \<Rightarrow> bool" where
  "kept h h' \<longleftrightarrow> hb_next_sub_id h \<le> hb_next_sub_id h' \<and>
     (\<forall>s' \<in> set (hb_subs h'). sb_id s' \<le> hb_next_sub_id h \<longrightarrow>
        (\<exists>s \<in> set (hb_subs h). sb_id s = sb_id s' \<and> scope s = scope s' \<and> (sb_kicked s \<longrightarrow> sb_kicked s')))"

lemma kept_refl: "kept h h"
  by (auto simp: kept_def)

lemma kept_trans: "kept h h1 \<Longrightarrow> kept h1 h2 \<Longrightarrow> kept h h2"
  by (fastforce simp: kept_def)

lemma kept_map:
  assumes "\<And>s. sb_id (f s) = sb_id s \<and> scope (f s) = scope s \<and> (sb_kicked s \<longrightarrow> sb_kicked (f s))"
  shows "kept h (map_subs f h)"
  using assms by (auto simp: kept_def map_subs_def)

lemma kept_update_first:
  assumes "\<And>s. sb_id (f s) = sb_id s \<and> scope (f s) = scope s \<and> (sb_kicked s \<longrightarrow> sb_kicked (f s))"
  shows "kept h (h\<lparr>hb_subs := update_first P f (hb_subs h)\<rparr>)"
proof -
  have "\<exists>s \<in> set xs. sb_id s = sb_id s' \<and> scope s = scope s' \<and> (sb_kicked s \<longrightarrow> sb_kicked s')"
    if "s' \<in> set (update_first P f xs)" for s' xs
    using that assms by (induction xs) (auto split: if_splits)
  then show ?thesis by (simp add: kept_def)
qed

lemma kept_pages: "kept h h1 \<Longrightarrow> kept h (notify_audience now h1)"
  by (simp add: kept_def)

lemma scope_simps [simp]:
  "scope (deliver_to ev s) = scope s" "scope (sub_kick s) = scope s" "scope (set_user_hosts hs s) = scope s"
  "scope (s\<lparr>sb_host := x\<rparr>) = scope s" "scope (s\<lparr>sb_session := x\<rparr>) = scope s"
  "scope (s\<lparr>sb_session := x, sb_view_declared := True\<rparr>) = scope s"
  "sb_id (deliver_to ev s) = sb_id s" "sb_id (sub_kick s) = sb_id s" "sb_id (set_user_hosts hs s) = sb_id s"
  "sb_kicked (deliver_to ev s) = sb_kicked s" "sb_kicked (set_user_hosts hs s) = sb_kicked s" "sb_kicked (sub_kick s)"
  by (simp_all add: scope_def deliver_to_def sub_kick_def set_user_hosts_def)

lemma kept_count: "kept h (notify_subscribers_count e h)"
proof (cases "hb_subs_seen h \<and> hb_last_fe_subs h = subscriber_count h")
  case False
  have "kept h (h\<lparr>hb_subs_seen := True, hb_last_fe_subs := subscriber_count h\<rparr>)" by (auto simp: kept_def)
  then show ?thesis
    unfolding notify_subscribers_count_def Let_def if_not_P [OF False] by (rule kept_trans) (auto intro: kept_map)
qed (simp add: notify_subscribers_count_def Let_def kept_refl)

lemma kept_subscribe: "kept h (fst (try_subscribe now m host g u al info h))"
proof -
  let ?h1 = "h\<lparr>hb_next_sub_id := hb_next_sub_id h + 1, hb_subs := hb_subs h @
      [new_sub now (hb_next_sub_id h + 1) host g u al info]\<rparr>"
  have "sb_id (new_sub now i host g u al info) = i" for i
    by (simp add: new_sub_def Let_def split: option.split)
  then have "kept h ?h1" by (auto simp: kept_def)
  then have "kept h (notify_subscribers_count e (notify_audience now ?h1))" for e
    by (rule kept_trans [OF kept_pages kept_count])
  then show ?thesis by (simp add: try_subscribe_def Let_def) (auto simp: kept_def)
qed

lemma kept_apply: "kept h (sub_apply op h)"
proof (induction op h rule: sub_apply.induct)
  case (2 now i h)
  have "kept h (unsubscribe i h)" by (auto simp: kept_def unsubscribe_def)
  then show ?case by (simp add: unsubscribe_fn_def kept_trans [OF kept_pages kept_count])
qed (auto simp: kept_subscribe set_subscriber_host_def set_subscriber_session_def set_subscriber_user_hosts_def
    broadcast_def broadcast_to_user_def broadcast_host_def drop_guest_subscribers_def drop_user_subscribers_def
    drop_subscribers_for_host_def Let_def kept_refl intro!: kept_pages kept_update_first kept_map,
    auto simp: kept_def)

lemma kept_run: "kept h (sub_run ops h)"
  unfolding sub_run_def by (induction ops arbitrary: h) (auto intro: kept_trans kept_apply kept_refl)

text \<open>A page whose role is not \<open>user\<close> keeps the host snapshot it registered with.\<close>

definition admin_stuck :: "int \<Rightarrow> string \<Rightarrow> fan_hub \<Rightarrow> bool" where
  "admin_stuck i host h \<longleftrightarrow> i \<le> hb_next_sub_id h \<and> (\<forall>s \<in> set (hb_subs h). sb_id s = i \<longrightarrow>
     sb_role s = ''admin'' \<and> (\<exists>hosts. sb_user_hosts s = Some hosts \<and> host \<notin> set hosts))"

lemma admin_stuck_map:
  assumes "\<And>s. sb_id (f s) = sb_id s \<and> sb_role (f s) = sb_role s \<and> sb_user_hosts (f s) = sb_user_hosts s"
  shows "admin_stuck i host h \<Longrightarrow> admin_stuck i host (map_subs f h)"
  using assms by (auto simp: admin_stuck_def map_subs_def)

lemma admin_stuck_update_first:
  assumes "\<And>s. P s \<Longrightarrow> sb_id (f s) = sb_id s \<and> sb_role (f s) = sb_role s \<and>
    (sb_role s = ''admin'' \<longrightarrow> sb_user_hosts (f s) = sb_user_hosts s)"
  shows "admin_stuck i host h \<Longrightarrow> admin_stuck i host (h\<lparr>hb_subs := update_first P f (hb_subs h)\<rparr>)"
proof -
  let ?ok = "\<lambda>s. sb_id s = i \<longrightarrow> sb_role s = ''admin'' \<and> (\<exists>hosts. sb_user_hosts s = Some hosts \<and> host \<notin> set hosts)"
  have "?ok (f s)" if "?ok s" "P s" for s using assms [OF that(2)] that(1) by auto
  then have upd: "\<forall>s \<in> set (update_first P f xs). ?ok s" if "\<forall>s \<in> set xs. ?ok s" for xs
    using that by (induction xs) simp_all
  assume "admin_stuck i host h"
  then show "admin_stuck i host (h\<lparr>hb_subs := update_first P f (hb_subs h)\<rparr>)"
    using upd [of "hb_subs h"] unfolding admin_stuck_def by simp
qed

lemma admin_stuck_pages: "admin_stuck i host h \<Longrightarrow> admin_stuck i host (notify_audience now h)"
  by (simp add: admin_stuck_def)

lemma deliver_to_fields [simp]:
  "sb_role (deliver_to ev s) = sb_role s" "sb_user_hosts (deliver_to ev s) = sb_user_hosts s"
  "sb_role (sub_kick s) = sb_role s" "sb_user_hosts (sub_kick s) = sb_user_hosts s"
  "sb_role (set_user_hosts hs s) = sb_role s"
  by (simp_all add: deliver_to_def sub_kick_def set_user_hosts_def)

lemma admin_stuck_count:
  assumes "admin_stuck i host h" shows "admin_stuck i host (notify_subscribers_count e h)"
proof (cases "hb_subs_seen h \<and> hb_last_fe_subs h = subscriber_count h")
  case False
  have "admin_stuck i host (h\<lparr>hb_subs_seen := True, hb_last_fe_subs := subscriber_count h\<rparr>)"
    using assms by (simp add: admin_stuck_def)
  then show ?thesis unfolding notify_subscribers_count_def Let_def if_not_P [OF False]
    by (rule admin_stuck_map [rotated]) simp
qed (use assms in \<open>simp add: notify_subscribers_count_def Let_def\<close>)

lemma admin_stuck_apply: "admin_stuck i host h \<Longrightarrow> admin_stuck i host (sub_apply op h)"
proof (induction op h rule: sub_apply.induct)
  case (1 now m host' g u al info h)
  let ?h1 = "h\<lparr>hb_next_sub_id := hb_next_sub_id h + 1, hb_subs := hb_subs h @
      [new_sub now (hb_next_sub_id h + 1) host' g u al info]\<rparr>"
  have "sb_id (new_sub now j host' g u al info) = j" for j by (simp add: new_sub_def Let_def split: option.split)
  then have "admin_stuck i host ?h1" using 1 by (auto simp: admin_stuck_def)
  then show ?case using 1
    by (simp add: try_subscribe_def Let_def admin_stuck_count admin_stuck_pages) (simp add: admin_stuck_def)
next
  case (2 now j h)
  then have "admin_stuck i host (unsubscribe j h)" by (simp add: admin_stuck_def unsubscribe_def)
  then show ?case by (simp add: unsubscribe_fn_def admin_stuck_count admin_stuck_pages)
qed (auto simp: set_subscriber_host_def set_subscriber_session_def set_subscriber_user_hosts_def
    broadcast_def broadcast_to_user_def broadcast_host_def drop_guest_subscribers_def drop_user_subscribers_def
    drop_subscribers_for_host_def Let_def intro!: admin_stuck_pages admin_stuck_update_first admin_stuck_map,
    simp add: admin_stuck_def)

lemma admin_stuck_run: "admin_stuck i host h \<Longrightarrow> admin_stuck i host (sub_run ops h)"
  unfolding sub_run_def by (induction ops arbitrary: h) (auto intro: admin_stuck_apply)

section \<open>Audience frames\<close>

lemma audience_snapshot_spec:
  assumes "audience_snapshot now h host = (h', a)"
  shows "0 \<le> au_watchers a \<and> (au_all a \<longrightarrow> au_sessions a = []) \<and> [] \<notin> set (au_sessions a) \<and>
    sorted_wrt (<) (au_sessions a) \<and> length (au_sessions a) \<le> 64"
    and "\<forall>s \<in> set (hb_subs h). sub_watches s host \<longrightarrow> au_all a \<or>
      (sb_view_declared s \<and> (sb_session s = [] \<or> sb_session s \<in> set (au_sessions a)))"
proof -
  obtain h1 v where v: "viewing_set now h host = (h1, v)" by (cases "viewing_set now h host")
  let ?a = "\<lparr>au_gen = 0, au_watchers = subscriber_count_for h host, au_all = False, au_sessions = []\<rparr>"
  have a: "a = (case v of None \<Rightarrow> ?a | Some None \<Rightarrow> ?a\<lparr>au_all := True\<rparr> | Some (Some ss) \<Rightarrow> ?a\<lparr>au_sessions := sort ss\<rparr>)"
    using assms v by (auto simp: audience_snapshot_def Let_def split: option.splits)
  have strict: "sorted_wrt (<) (sort ss)" if "distinct ss" for ss :: "string list"
    using that by (simp add: strict_sorted_iff)
  show "0 \<le> au_watchers a \<and> (au_all a \<longrightarrow> au_sessions a = []) \<and> [] \<notin> set (au_sessions a) \<and>
    sorted_wrt (<) (au_sessions a) \<and> length (au_sessions a) \<le> 64"
  proof (cases v)
    case (Some w)
    then show ?thesis using a viewing_set_spec(2) [OF v] strict
      by (cases w) (simp_all add: subscriber_count_for_def max_viewing_sessions_def)
  qed (use a in \<open>simp add: subscriber_count_for_def\<close>)
  show "\<forall>s \<in> set (hb_subs h). sub_watches s host \<longrightarrow> au_all a \<or>
      (sb_view_declared s \<and> (sb_session s = [] \<or> sb_session s \<in> set (au_sessions a)))"
  proof (cases v)
    case None
    then have "filter (\<lambda>s. sub_watches s host) (hb_subs h) = []"
      using viewing_set_spec(1) [OF v] by (simp add: subscriber_count_for_def)
    then show ?thesis by (simp add: filter_empty_conv)
  next
    case (Some w)
    then show ?thesis using a viewing_set_spec(2) [OF v] by (cases w) simp_all
  qed
qed

lemma audience_snapshot_watchers:
  "audience_snapshot now h host = (h', a) \<Longrightarrow> au_watchers a = subscriber_count_for h host"
  by (auto simp: audience_snapshot_def Let_def split: prod.splits option.splits)

lemma audience_key_gen [simp]: "audience_key (a\<lparr>au_gen := g\<rparr>) = audience_key a"
  by (simp add: audience_key_def)

lemma audience_locked_cases:
  assumes "audience_locked now h host = (h', a, changed)" and "gm_get (hb_hosts h) host = Some hs"
  obtains snap h1 where "audience_snapshot now h host = (h1, snap)" and "a = snap\<lparr>au_gen := au_gen a\<rparr>"
    and "gm_get (hb_hosts h') host = Some (hs\<lparr>hv_audience_gen := au_gen a, hv_audience_key := audience_key a\<rparr>)"
    and "changed \<longleftrightarrow> hv_audience_gen hs \<noteq> 0 \<and> audience_key a \<noteq> hv_audience_key hs"
    and "au_gen a = (if hv_audience_gen hs = 0 then 1
           else if audience_key a \<noteq> hv_audience_key hs then hv_audience_gen hs + 1 else hv_audience_gen hs)"
proof -
  obtain h1 snap where sn: "audience_snapshot now h host = (h1, snap)" by (cases "audience_snapshot now h host")
  show thesis
    by (rule that [OF sn]) (use assms sn in
      \<open>auto simp: audience_locked_def Let_def gm_get_set split: if_splits\<close>)
qed

text \<open>The key separates audiences whose session ids hold no NUL.\<close>

lemma cut_at:
  assumes "a @ c # r = b @ c # r'" and "c \<notin> set a" and "c \<notin> set b"
  shows "a = b \<and> r = r'"
  using assms by (auto simp: append_eq_append_conv2 append_eq_Cons_conv Cons_eq_append_conv)

lemma enc_int_no_bar: "CHR ''|'' \<notin> set (enc_int i)"
proof -
  have d: "CHR ''|'' \<notin> set (enc_dec n)" if "0 \<le> n" for n
    using enc_dec_digits [OF that] by (auto simp: list_all_iff is_digit_def)
  show ?thesis using d [of i] d [of "- i"] by (simp add: enc_int_def)
qed

lemma terminated_inj:
  "concat (map (\<lambda>s. s @ [nul]) xs) = concat (map (\<lambda>s. s @ [nul]) ys) \<Longrightarrow>
   \<forall>x \<in> set xs \<union> set ys. nul \<notin> set x \<Longrightarrow> xs = ys"
proof (induction xs arbitrary: ys)
  case (Cons x xs)
  then obtain y ys' where ys: "ys = y # ys'" by (cases ys) auto
  have "x = y \<and> concat (map (\<lambda>s. s @ [nul]) xs) = concat (map (\<lambda>s. s @ [nul]) ys')"
    by (rule cut_at [of _ nul]) (use Cons.prems in \<open>simp_all add: ys\<close>)
  then show ?case using Cons.IH [of ys'] Cons.prems(2) by (simp add: ys)
qed auto

lemma audience_key_inj:
  assumes "audience_key a = audience_key b" and "\<forall>x \<in> set (au_sessions a) \<union> set (au_sessions b). nul \<notin> set x"
  shows "au_watchers a = au_watchers b \<and> au_all a = au_all b \<and> au_sessions a = au_sessions b"
proof -
  let ?s = "\<lambda>a. concat (map (\<lambda>s. s @ [nul]) (au_sessions a))"
  have b: "CHR ''|'' \<notin> set (enc_bool x)" for x by (simp add: enc_bool_def)
  have "enc_int (au_watchers a) = enc_int (au_watchers b) \<and>
      enc_bool (au_all a) @ CHR ''|'' # ?s a = enc_bool (au_all b) @ CHR ''|'' # ?s b"
    by (rule cut_at [OF _ enc_int_no_bar enc_int_no_bar]) (use assms(1) in \<open>simp add: audience_key_def\<close>)
  moreover from cut_at [OF conjunct2 [OF this] b b] have "enc_bool (au_all a) = enc_bool (au_all b)" "?s a = ?s b" by simp_all
  ultimately show ?thesis using enc_int_inj terminated_inj [OF _ assms(2)] by (auto simp: enc_bool_def split: if_splits)
qed

section \<open>Ids and the cap\<close>

definition ids_ok :: "int \<Rightarrow> fan_hub \<Rightarrow> bool" where
  "ids_ok cap h \<longleftrightarrow> distinct (map sb_id (hb_subs h)) \<and> (\<forall>s \<in> set (hb_subs h). sb_id s \<le> hb_next_sub_id h) \<and>
     int (length (hb_subs h)) \<le> cap"

definition capped :: "int \<Rightarrow> time \<times> sub_op \<Rightarrow> bool" where
  "capped cap op = (case snd op of OpSubscribe m _ _ _ _ _ \<Rightarrow> 0 < m \<and> m \<le> cap | _ \<Rightarrow> True)"

lemma ids_ok_ids:
  "map sb_id (hb_subs h') = map sb_id (hb_subs h) \<Longrightarrow> hb_next_sub_id h' = hb_next_sub_id h \<Longrightarrow> ids_ok cap h \<Longrightarrow> ids_ok cap h'"
  unfolding ids_ok_def by (metis (no_types, lifting) imageE image_eqI length_map list.set_map)

lemma ids_ok_map: "(\<And>s. sb_id (f s) = sb_id s) \<Longrightarrow> ids_ok cap h \<Longrightarrow> ids_ok cap (map_subs f h)"
  by (rule ids_ok_ids [of _ h]) (simp_all add: map_subs_def comp_def)

lemma ids_ok_update_first:
  "(\<And>s. sb_id (f s) = sb_id s) \<Longrightarrow> ids_ok cap h \<Longrightarrow> ids_ok cap (h\<lparr>hb_subs := update_first P f (hb_subs h)\<rparr>)"
  by (rule ids_ok_ids [of _ h]) (simp_all add: map_update_first)

lemma ids_ok_pages: "ids_ok cap h \<Longrightarrow> ids_ok cap (notify_audience now h)"
  by (simp add: ids_ok_def)

lemma ids_ok_count: "ids_ok cap h \<Longrightarrow> ids_ok cap (notify_subscribers_count e h)"
  unfolding notify_subscribers_count_def Let_def
  by (simp add: ids_ok_def) (intro impI ids_ok_map [unfolded ids_ok_def], auto)

lemma new_sub_id [simp]: "sb_id (new_sub now i host g u al info) = i"
  by (simp add: new_sub_def Let_def split: option.split)

lemma ids_ok_subscribe:
  assumes "ids_ok cap h" and "0 < m" and "m \<le> cap"
  shows "ids_ok cap (fst (try_subscribe now m host g u al info h))"
proof -
  let ?h1 = "h\<lparr>hb_next_sub_id := hb_next_sub_id h + 1, hb_subs := hb_subs h @
      [new_sub now (hb_next_sub_id h + 1) host g u al info]\<rparr>"
  have "hb_next_sub_id h + 1 \<notin> sb_id ` set (hb_subs h)" using assms(1) by (force simp: ids_ok_def)
  then have "int (length (hb_subs h)) < m \<Longrightarrow> ids_ok cap ?h1" using assms by (auto simp: ids_ok_def)
  then show ?thesis using assms
    by (auto simp: try_subscribe_def Let_def intro!: ids_ok_count ids_ok_pages) (auto simp: ids_ok_def)
qed

lemma ids_ok_apply: "ids_ok cap h \<Longrightarrow> capped cap op \<Longrightarrow> ids_ok cap (sub_apply op h)"
proof (induction op h rule: sub_apply.induct)
  case (2 now i h)
  have l: "int (length (filter (\<lambda>s. sb_id s \<noteq> i) (hb_subs h))) \<le> int (length (hb_subs h))" by simp
  have "ids_ok cap (unsubscribe i h)"
    using 2 distinct_map_filter [of sb_id "hb_subs h"] unfolding ids_ok_def unsubscribe_def
    by (simp, use l in linarith)
  then show ?case by (simp add: unsubscribe_fn_def ids_ok_count ids_ok_pages)
qed (auto simp: capped_def ids_ok_subscribe set_subscriber_host_def set_subscriber_session_def
    set_subscriber_user_hosts_def broadcast_def broadcast_to_user_def broadcast_host_def
    drop_guest_subscribers_def drop_user_subscribers_def drop_subscribers_for_host_def Let_def
    intro!: ids_ok_pages ids_ok_update_first ids_ok_map, simp add: ids_ok_def)

lemma ids_ok_run: "ids_ok cap h \<Longrightarrow> list_all (capped cap) ops \<Longrightarrow> ids_ok cap (sub_run ops h)"
  unfolding sub_run_def by (induction ops arbitrary: h) (auto intro: ids_ok_apply)

section \<open>Who is delivered an event\<close>

definition broadcasts :: "sub_op \<Rightarrow> event \<Rightarrow> bool" where
  "broadcasts op ev \<longleftrightarrow> op = OpBroadcast ev \<or> (\<exists>host. op = OpBroadcastHost host ev)"

definition let_through :: "sub_op \<Rightarrow> child_table \<Rightarrow> fe_sub \<Rightarrow> event \<Rightarrow> bool" where
  "let_through op ct s ev \<longleftrightarrow> op = OpBroadcast ev \<and> sub_watches_event ct s ev \<or>
     (\<exists>host. op = OpBroadcastHost host ev \<and> sub_watches s host \<and>
        ((\<forall>x. gm_get ev ''hostId'' \<noteq> Some (VStr x)) \<or> sub_watches_event ct s ev))"

text \<open>The guest pages of \<open>h'\<close> are pages of \<open>h\<close>, delivered at most one event that \<open>P\<close> lets through.\<close>

definition fed :: "(fe_sub \<Rightarrow> event \<Rightarrow> bool) \<Rightarrow> fan_hub \<Rightarrow> fan_hub \<Rightarrow> bool" where
  "fed P h h' \<longleftrightarrow> hb_next_sub_id h \<le> hb_next_sub_id h' \<and>
     (\<forall>s' \<in> set (hb_subs h'). sb_id s' \<le> hb_next_sub_id h \<longrightarrow>
        (\<exists>s \<in> set (hb_subs h). sb_id s = sb_id s' \<and> sb_role s = sb_role s' \<and>
           (sb_role s = ''guest'' \<longrightarrow> sb_q s' = sb_q s \<or> (\<exists>ev. P s ev \<and> sb_q s' = sub_deliver ev (sb_q s)))))"

abbreviation unfed :: "fan_hub \<Rightarrow> fan_hub \<Rightarrow> bool" where "unfed \<equiv> fed (\<lambda>s ev. False)"

lemma fedD:
  "fed P h h' \<Longrightarrow> s' \<in> set (hb_subs h') \<Longrightarrow> sb_id s' \<le> hb_next_sub_id h \<Longrightarrow>
   \<exists>s \<in> set (hb_subs h). sb_id s = sb_id s' \<and>
     (sb_role s = ''guest'' \<longrightarrow> sb_q s' = sb_q s \<or> (\<exists>ev. P s ev \<and> sb_q s' = sub_deliver ev (sb_q s)))"
  unfolding fed_def by blast

lemma fed_weaken: "unfed h h' \<Longrightarrow> fed P h h'"
  unfolding fed_def by (elim conjE, intro conjI, assumption) fast

lemma unfed_refl: "unfed h h"
  by (auto simp: fed_def)

lemma unfed_trans: "unfed h h1 \<Longrightarrow> unfed h1 h2 \<Longrightarrow> unfed h h2"
  by (fastforce simp: fed_def)

lemma unfed_pages: "unfed h h1 \<Longrightarrow> unfed h (notify_audience now h1)"
  by (simp add: fed_def)

lemma fed_map:
  assumes "\<And>s. sb_id (f s) = sb_id s \<and> sb_role (f s) = sb_role s \<and>
    (sb_role s = ''guest'' \<longrightarrow> sb_q (f s) = sb_q s \<or> (\<exists>ev. P s ev \<and> sb_q (f s) = sub_deliver ev (sb_q s)))"
  shows "fed P h (map_subs f h)"
proof -
  have "\<exists>s \<in> set (hb_subs h). sb_id s = sb_id (f x) \<and> sb_role s = sb_role (f x) \<and>
      (sb_role s = ''guest'' \<longrightarrow> sb_q (f x) = sb_q s \<or> (\<exists>ev. P s ev \<and> sb_q (f x) = sub_deliver ev (sb_q s)))"
    if "x \<in> set (hb_subs h)" for x using that assms [of x] by (intro bexI [of _ x]) auto
  then show ?thesis by (auto simp: fed_def map_subs_def)
qed

lemma unfed_update_first:
  assumes "\<And>s. sb_id (f s) = sb_id s \<and> sb_role (f s) = sb_role s \<and> sb_q (f s) = sb_q s"
  shows "unfed h (h\<lparr>hb_subs := update_first P f (hb_subs h)\<rparr>)"
proof -
  have "\<exists>s \<in> set xs. sb_id s = sb_id s' \<and> sb_role s = sb_role s' \<and> sb_q s' = sb_q s"
    if "s' \<in> set (update_first P f xs)" for s' xs
    using that assms by (induction xs) (auto split: if_splits)
  then show ?thesis by (auto simp: fed_def)
qed

lemma unfed_count: "unfed h (notify_subscribers_count e h)"
proof (cases "hb_subs_seen h \<and> hb_last_fe_subs h = subscriber_count h")
  case False
  have "unfed h (h\<lparr>hb_subs_seen := True, hb_last_fe_subs := subscriber_count h\<rparr>)" by (auto simp: fed_def)
  then show ?thesis
    unfolding notify_subscribers_count_def Let_def if_not_P [OF False] by (rule unfed_trans) (auto intro: fed_map)
qed (simp add: notify_subscribers_count_def Let_def unfed_refl)

lemma unfed_subscribe: "unfed h (fst (try_subscribe now m host g u al info h))"
proof -
  let ?h1 = "h\<lparr>hb_next_sub_id := hb_next_sub_id h + 1, hb_subs := hb_subs h @
      [new_sub now (hb_next_sub_id h + 1) host g u al info]\<rparr>"
  have "unfed h ?h1" by (auto simp: fed_def)
  then have "unfed h (notify_subscribers_count e (notify_audience now ?h1))" for e
    by (rule unfed_trans [OF unfed_pages unfed_count])
  then show ?thesis by (simp add: try_subscribe_def Let_def) (auto simp: fed_def)
qed

lemma unfed_unsubscribe: "unfed h (unsubscribe_fn now i h)"
proof -
  have "unfed h (unsubscribe i h)" by (auto simp: fed_def unsubscribe_def)
  then show ?thesis by (simp add: unsubscribe_fn_def unfed_trans [OF unfed_pages unfed_count])
qed

lemma deliver_to_q [simp]: "sb_q (deliver_to ev s) = sub_deliver ev (sb_q s)" "sb_q (sub_kick s) = sb_q s"
  "sb_q (set_user_hosts hs s) = sb_q s"
  by (simp_all add: deliver_to_def sub_kick_def set_user_hosts_def)

lemma fed_broadcast: "fed (let_through (OpBroadcast ev) (hb_children h)) h (broadcast ev h)"
  unfolding broadcast_def by (rule fed_map) (simp add: let_through_def)

lemma fed_broadcast_host: "fed (let_through (OpBroadcastHost host ev) (hb_children h)) h (broadcast_host host ev h)"
proof -
  define tagged where "tagged = (case gm_get ev ''hostId'' of Some (VStr _) \<Rightarrow> True | _ \<Rightarrow> False)"
  have t: "\<not> tagged \<Longrightarrow> gm_get ev ''hostId'' \<noteq> Some (VStr x)" for x by (auto simp: tagged_def)
  show ?thesis
    unfolding broadcast_host_def Let_def tagged_def [symmetric]
    by (rule fed_map) (use t in \<open>simp add: let_through_def, blast\<close>)
qed

lemma unfed_others:
  "unfed h (broadcast_to_user u ev h)" "unfed h (drop_guest_subscribers x h)" "unfed h (drop_user_subscribers x h)"
  "unfed h (drop_subscribers_for_host x h)" "unfed h (h\<lparr>hb_children := ct\<rparr>)"
  by (auto simp: broadcast_to_user_def drop_guest_subscribers_def drop_user_subscribers_def
      drop_subscribers_for_host_def Let_def unfed_refl intro!: fed_map) (auto simp: fed_def)

lemma unfed_updates:
  "unfed h (fst (set_subscriber_host now i x h))" "unfed h (fst (set_subscriber_session now i x d h))"
  "unfed h (fst (set_subscriber_user_hosts i hs h))"
  by (auto simp: set_subscriber_host_def set_subscriber_session_def set_subscriber_user_hosts_def Let_def unfed_refl
      intro!: unfed_pages unfed_update_first)

lemma fed_apply: "fed (let_through op (hb_children h)) h (sub_apply (now, op) h)"
  by (cases op) (simp_all add: fed_broadcast fed_broadcast_host fed_weaken unfed_subscribe unfed_unsubscribe
      unfed_others unfed_updates)

lemma guest_watches_granted:
  assumes w: "sub_watches_event ct s ev" and sc: "sb_role s = ''guest''"
    "sb_allowed_sessions s = map (\<lambda>x. guest_session_key (gs_host_id x) (gs_session_id x)) (gt_sessions g)"
    and nuls: "nul \<notin> set (str_of (gm_get ev ''hostId''))" "\<forall>x \<in> set (gt_sessions g). nul \<notin> set (gs_host_id x)"
  shows "guest_allows_session g (str_of (gm_get ev ''hostId'')) (event_session_id ev) \<or>
    guest_child_allowed ct g (str_of (gm_get ev ''hostId'')) (event_session_id ev)"
proof -
  let ?eh = "str_of (gm_get ev ''hostId'')"
  have grant: "guest_allows_session g ?eh sid" if k: "guest_session_key ?eh sid \<in> set (sb_allowed_sessions s)" for sid
  proof -
    obtain x where x: "x \<in> set (gt_sessions g)"
      "guest_session_key ?eh sid = guest_session_key (gs_host_id x) (gs_session_id x)"
      using k unfolding sc(2) by auto
    have "?eh = gs_host_id x \<and> sid = gs_session_id x"
      by (rule session_key_inj [OF x(2) nuls(1)]) (use nuls(2) x(1) in blast)
    then show ?thesis using x(1) by (auto simp: guest_allows_session_def list_ex_iff)
  qed
  show ?thesis using w sc(1) grant
    by (auto simp: sub_watches_event_def guest_child_allowed_def Let_def split: if_splits)
qed

section \<open>Properties\<close>

text \<open>C8: A guest page reads only what its token granted. Take a page registered for a guest token, and
  let any history of registrations, retargeting, viewing frames, broadcasts and kicks follow. The
  next operation leaves the page's queue as it was, or delivers one event to it, which the operation
  broadcast and which names a session the token lists for that very host, or a subagent child whose
  recorded parent is such a session. The one other event a guest is delivered is a host broadcast
  whose event carries no \<open>hostId\<close> string, which the hub does not filter by session, and then the host
  it is broadcast for is one the token lists. (Host ids without the NUL separator.)\<close>

theorem guest_reads_only_granted:
  assumes "try_subscribe_guest now maxs host0 g info h = (h1, Some i)" and "\<forall>x \<in> set (hb_subs h). sb_id x \<le> hb_next_sub_id h"
    and "h2 = sub_run ops h1" and "s' \<in> set (hb_subs (sub_apply (now', op) h2))" and "sb_id s' = i"
    and "\<forall>ev. broadcasts op ev \<longrightarrow> nul \<notin> set (str_of (gm_get ev ''hostId''))"
    and "\<forall>x \<in> set (gt_sessions g). nul \<notin> set (gs_host_id x)"
  shows "\<exists>s \<in> set (hb_subs h2). sb_id s = i \<and>
    (sb_q s' = sb_q s \<or>
     (\<exists>ev. sb_q s' = sub_deliver ev (sb_q s) \<and> broadcasts op ev \<and>
        (guest_allows_session g (str_of (gm_get ev ''hostId'')) (event_session_id ev) \<or>
         guest_child_allowed (hb_children h2) g (str_of (gm_get ev ''hostId'')) (event_session_id ev) \<or>
         (\<exists>host. op = OpBroadcastHost host ev \<and> (\<forall>x. gm_get ev ''hostId'' \<noteq> Some (VStr x)) \<and>
            host \<in> set (map gs_host_id (gt_sessions g))))))"
proof -
  let ?i = "hb_next_sub_id h + 1"
  let ?n = "new_sub now ?i host0 (Some g) None [] info"
  let ?h0 = "h\<lparr>hb_next_sub_id := ?i, hb_subs := hb_subs h @ [?n]\<rparr>"
  have i: "i = ?i" "h1 = notify_subscribers_count (Some ?i) (notify_audience now ?h0)"
    using assms(1) by (auto simp: try_subscribe_guest_def try_subscribe_def Let_def split: if_splits)
  have k: "kept ?h0 h2"
    unfolding assms(3) i(2) by (rule kept_trans [OF kept_trans [OF kept_pages [OF kept_refl] kept_count] kept_run])
  have own: "scope s = scope ?n" if mem: "s \<in> set (hb_subs h2)" and idn: "sb_id s = i" for s
  proof -
    have "sb_id s \<le> hb_next_sub_id ?h0" using idn i(1) by simp
    then have "\<exists>s0 \<in> set (hb_subs ?h0). sb_id s0 = sb_id s \<and> scope s0 = scope s"
      using k mem unfolding kept_def by blast
    then obtain s0 where "s0 \<in> set (hb_subs ?h0)" "sb_id s0 = sb_id s" "scope s0 = scope s" by blast
    then have s0: "s0 \<in> set (hb_subs h @ [?n])" "sb_id s0 = i" "scope s0 = scope s" using idn by simp_all
    then have "s0 \<notin> set (hb_subs h)" using assms(2) i(1) by auto
    then show ?thesis using s0 by simp
  qed
  have "hb_next_sub_id ?h0 \<le> hb_next_sub_id h2" using k by (simp add: kept_def)
  then have "sb_id s' \<le> hb_next_sub_id h2" using assms(5) i(1) by simp
  from fed_apply [THEN fedD, OF assms(4) this]
  obtain s where s: "s \<in> set (hb_subs h2)" "sb_id s = i" "sb_role s = ''guest'' \<longrightarrow> sb_q s' = sb_q s \<or>
      (\<exists>ev. let_through op (hb_children h2) s ev \<and> sb_q s' = sub_deliver ev (sb_q s))"
    using assms(5) by auto
  have sc: "sb_role s = ''guest''"
    "sb_allowed_sessions s = map (\<lambda>x. guest_session_key (gs_host_id x) (gs_session_id x)) (gt_sessions g)"
    "sb_allowed_hosts s = map gs_host_id (gt_sessions g)"
    using own [OF s(1,2)] by (auto simp: scope_def new_sub_def Let_def)
  have ok: "broadcasts op ev \<and> (guest_allows_session g (str_of (gm_get ev ''hostId'')) (event_session_id ev) \<or>
      guest_child_allowed (hb_children h2) g (str_of (gm_get ev ''hostId'')) (event_session_id ev) \<or>
      (\<exists>host. op = OpBroadcastHost host ev \<and> (\<forall>x. gm_get ev ''hostId'' \<noteq> Some (VStr x)) \<and>
         host \<in> set (map gs_host_id (gt_sessions g))))"
    if lt: "let_through op (hb_children h2) s ev" for ev
  proof (cases "sub_watches_event (hb_children h2) s ev")
    case True
    then show ?thesis using guest_watches_granted [OF True sc(1,2)] assms(6,7) lt by (auto simp: let_through_def broadcasts_def)
  next
    case False
    then obtain host where h: "op = OpBroadcastHost host ev" "sub_watches s host" "\<forall>x. gm_get ev ''hostId'' \<noteq> Some (VStr x)"
      using lt by (auto simp: let_through_def)
    then have "host \<in> set (sb_allowed_hosts s)" using sc(1) by (auto simp: sub_watches_def split: if_splits)
    then show ?thesis using h sc(3) by (auto simp: broadcasts_def)
  qed
  show ?thesis using s sc(1) ok by blast
qed

definition sample_event :: event where
  "sample_event = [(''hostId'', VStr ''h''), (raw_session_key, VStr ''s1'')]"

lemma sample_delivered: "sub_deliver sample_event (new_fe_subscriber 512) \<noteq> new_fe_subscriber 512"
proof -
  have "rg_n (fq_ring (sub_deliver sample_event (new_fe_subscriber 512))) = 1"
    by (simp add: sub_deliver_def sub_enqueue_def try_enqueue_def enqueue_limit_def new_fe_subscriber_def ring_new_def
        ring_push_def sub_ring_cap_def sub_ring_size_def sub_ring_critical_slack_def)
  moreover have "rg_n (fq_ring (new_fe_subscriber 512)) = 0" by (simp add: new_fe_subscriber_def ring_new_def)
  ultimately show ?thesis by (metis zero_neq_one)
qed

lemma guest_reads_only_granted_witness:
  "guest_allows_session sample_token ''h'' ''s1'' \<or> guest_child_allowed no_children sample_token ''h'' ''s1''"
proof -
  let ?s = "new_sub 5 1 [] (Some sample_token) None [] zero_info"
  obtain h1 where h1: "try_subscribe_guest 5 0 [] sample_token zero_info new_fan_hub = (h1, Some 1)" "hb_subs h1 = [?s]"
    "hb_children h1 = no_children"
    by (auto simp: try_subscribe_guest_def try_subscribe_def Let_def new_fan_hub_def notify_audience_def
        notify_subscribers_count_def map_subs_def subscriber_count_def new_sub_def)
  have ev: "str_of (gm_get sample_event ''hostId'') = ''h''" "event_session_id sample_event = ''s1''"
    by (simp_all add: sample_event_def event_session_id_def event_keys)
  have "sub_watches_event no_children ?s sample_event"
    by (simp add: sub_watches_event_def sub_watches_def sample_event_def new_sub_def Let_def sample_token_def
        sample_session_def event_session_id_def event_keys guest_session_key_def)
  then have mem: "deliver_to sample_event ?s \<in> set (hb_subs (sub_apply (6, OpBroadcast sample_event) h1))"
    using h1 by (simp add: broadcast_def map_subs_def)
  have "h1 = sub_run [] h1" by (simp add: sub_run_def)
  from guest_reads_only_granted [OF h1(1) _ this mem] h1 ev
  have "sub_deliver sample_event (sb_q ?s) = sb_q ?s \<or>
      guest_allows_session sample_token ''h'' ''s1'' \<or> guest_child_allowed no_children sample_token ''h'' ''s1''"
    by (auto simp: new_fan_hub_def broadcasts_def sample_token_def sample_session_def)
  then show ?thesis using sample_delivered by (simp add: new_sub_def Let_def)
qed

text \<open>C22: The audience a host is told is valid, complete and versioned. It always passes the peer's own
  validator; it counts the pages that watch the host, never leaves out a session such a page displays,
  and says \<open>all\<close> while any of them has not declared one. Its generation moves by exactly one when the
  watchers, the \<open>all\<close> flag or the sessions differ from those of the snapshot \<open>b\<close> last taken, and stays
  when they do not. (Session ids without NUL: the key that is compared terminates each id with one.)\<close>

theorem audience_valid_complete_versioned:
  assumes "audience_locked now h host = (h', a, changed)" and "gm_get (hb_hosts h) host = Some hs"
    and "hv_audience_gen hs \<noteq> - 1" and "hv_audience_gen hs \<noteq> 0 \<longrightarrow> hv_audience_key hs = audience_key b"
    and "\<forall>x \<in> set (au_sessions a) \<union> set (au_sessions b). nul \<notin> set x"
  shows "audience_validate a = None \<and> au_watchers a = subscriber_count_for h host \<and>
    (\<forall>s \<in> set (hb_subs h). sub_watches s host \<longrightarrow> au_all a \<or>
       (sb_view_declared s \<and> (sb_session s = [] \<or> sb_session s \<in> set (au_sessions a)))) \<and>
    (changed \<longleftrightarrow> hv_audience_gen hs \<noteq> 0 \<and>
       (au_watchers a \<noteq> au_watchers b \<or> au_all a \<noteq> au_all b \<or> au_sessions a \<noteq> au_sessions b)) \<and>
    (changed \<longrightarrow> au_gen a = hv_audience_gen hs + 1) \<and>
    (\<not> changed \<longrightarrow> hv_audience_gen hs = 0 \<and> au_gen a = 1 \<or> au_gen a = hv_audience_gen hs) \<and>
    gm_get (hb_hosts h') host = Some (hs\<lparr>hv_audience_gen := au_gen a, hv_audience_key := audience_key a\<rparr>)"
  using assms(1,2)
proof (cases rule: audience_locked_cases)
  case (1 snap h1)
  have "au_gen a \<noteq> 0" using 1(5) assms(3) by (auto simp: eq_neg_iff_add_eq_0 split: if_splits)
  moreover have same: "au_watchers a = au_watchers snap" "au_all a = au_all snap" "au_sessions a = au_sessions snap"
    by (subst 1(2), simp)+
  moreover have "audience_key a = audience_key b \<longleftrightarrow>
      au_watchers a = au_watchers b \<and> au_all a = au_all b \<and> au_sessions a = au_sessions b"
    using audience_key_inj [OF _ assms(5)] by (auto simp: audience_key_def)
  ultimately show ?thesis
    using audience_snapshot_spec [OF 1(1)] audience_snapshot_watchers [OF 1(1)] 1(3-5) assms(4)
    by (auto simp: audience_validate_iff)
qed

lemma audience_valid_complete_versioned_witness:
  "case audience_locked 0 (new_fan_hub\<lparr>hb_hosts := [(''h'', \<lparr>hv_attached = True, hv_audience_gen = 4, hv_audience_key = ''0|true|''\<rparr>)]\<rparr>) ''h''
   of (h', a, changed) \<Rightarrow> audience_validate a = None \<and> changed \<and> au_gen a = 5"
proof -
  let ?hs = "\<lparr>hv_attached = True, hv_audience_gen = 4, hv_audience_key = ''0|true|''\<rparr> :: host_view"
  let ?h = "new_fan_hub\<lparr>hb_hosts := [(''h'', ?hs)]\<rparr>"
  let ?b = "\<lparr>au_gen = 4, au_watchers = 0, au_all = True, au_sessions = []\<rparr>"
  obtain h' a changed where run: "audience_locked 0 ?h ''h'' = (h', a, changed)" by (cases "audience_locked 0 ?h ''h''")
  have "case audience_locked 0 ?h ''h'' of (_, a, _) \<Rightarrow> \<not> au_all a \<and> au_sessions a = []" by code_simp
  then have a: "\<not> au_all a" "au_sessions a = []" using run by simp_all
  have "audience_key ?b = ''0|true|''" by code_simp
  with audience_valid_complete_versioned [OF run, of ?hs ?b] run a show ?thesis by simp
qed

text \<open>C36: A host paired later never reaches an open admin page. The host set an admin's socket is
  registered with is a snapshot that only a \<open>user\<close> page can refresh, so for a host that is not in it
  the page watches nothing, through every later operation, including the subscribe frame that names
  the host; the host counts no viewer for that page and pauses its upload.\<close>

theorem admin_snapshot_never_refreshed:
  assumes "try_subscribe_scoped now maxs host0 scope_id ''admin'' allowed info h = (h1, Some i)"
    and "\<forall>x \<in> set (hb_subs h). sb_id x \<le> hb_next_sub_id h"
    and "new_host \<noteq> []" and "new_host \<notin> set allowed"
    and "s \<in> set (hb_subs (sub_run ops h1))" and "sb_id s = i"
  shows "\<not> sub_watches s new_host"
proof -
  let ?i = "hb_next_sub_id h + 1"
  let ?n = "new_sub now ?i host0 None (Some scope_id) allowed (info\<lparr>si_role := ''admin''\<rparr>)"
  let ?h0 = "h\<lparr>hb_next_sub_id := ?i, hb_subs := hb_subs h @ [?n]\<rparr>"
  have i: "i = ?i" "h1 = notify_subscribers_count (Some ?i) (notify_audience now ?h0)"
    using assms(1) by (auto simp: try_subscribe_scoped_def try_subscribe_def Let_def split: if_splits)
  have n: "sb_role ?n = ''admin''" "sb_user_hosts ?n = Some (filter (\<lambda>x. x \<noteq> []) allowed)"
    by (simp_all add: new_sub_def Let_def set_user_hosts_def)
  have "admin_stuck ?i new_host ?h0" using assms(2,4) n by (fastforce simp: admin_stuck_def)
  then have "admin_stuck ?i new_host (sub_run ops h1)"
    unfolding i(2) by (intro admin_stuck_run admin_stuck_count admin_stuck_pages)
  then have "\<exists>hosts. sb_user_hosts s = Some hosts \<and> new_host \<notin> set hosts"
    using assms(5,6) i(1) by (auto simp: admin_stuck_def)
  then show ?thesis using assms(3) by (auto simp: sub_watches_def)
qed

lemma admin_snapshot_never_refreshed_witness:
  "filter (\<lambda>s. sb_id s = 1 \<and> sub_watches s ''new'')
     (hb_subs (sub_run [(9, OpSetUserHosts 1 [''new'']), (9, OpSetHost 1 ''new'')]
       (fst (try_subscribe_scoped 5 0 ''a'' ''root'' ''admin'' [''a''] zero_info new_fan_hub)))) = []"
proof -
  have "try_subscribe_scoped 5 0 ''a'' ''root'' ''admin'' [''a''] zero_info new_fan_hub =
      (fst (try_subscribe_scoped 5 0 ''a'' ''root'' ''admin'' [''a''] zero_info new_fan_hub), Some 1)"
    by (simp add: try_subscribe_scoped_def try_subscribe_def Let_def new_fan_hub_def)
  from admin_snapshot_never_refreshed [OF this, of "''new''"] show ?thesis by (auto simp: new_fan_hub_def filter_empty_conv)
qed

text \<open>The subscriber cap holds. When every registration passes a positive cap of at most \<open>cap\<close>, no
  history leaves more than \<open>cap\<close> live pages, and registration ids are never reused, so a channel
  names one page.\<close>

theorem subscriber_cap_and_unique_ids:
  assumes "0 \<le> cap" and "list_all (capped cap) ops"
  shows "subscriber_count (sub_run ops new_fan_hub) \<le> cap \<and>
    distinct (map sb_id (hb_subs (sub_run ops new_fan_hub)))"
proof -
  have "ids_ok cap new_fan_hub" using assms(1) by (simp add: ids_ok_def new_fan_hub_def)
  from ids_ok_run [OF this assms(2)] show ?thesis by (simp add: ids_ok_def subscriber_count_def)
qed

lemma subscriber_cap_and_unique_ids_witness:
  "subscriber_count (sub_run [(1, OpSubscribe 1 [] None None [] zero_info), (2, OpSubscribe 1 [] None None [] zero_info)]
     new_fan_hub) \<le> 1"
  using subscriber_cap_and_unique_ids [of 1 "[(1, OpSubscribe 1 [] None None [] zero_info), (2, OpSubscribe 1 [] None None [] zero_info)]"]
  by (simp add: capped_def)

text \<open>The viewing set is not a function of the hub's state. The loop that adds the children of
  displayed sessions tests membership in the very set it extends while it ranges over a Go map, whose
  order is random: with a page showing \<open>p\<close>, a child \<open>c\<close> of \<open>p\<close> and a child \<open>g\<close> of \<open>c\<close>, one order
  names \<open>g\<close> and the other does not, so two snapshots of the same state can differ and the frame
  generation moves with nothing changed.\<close>

theorem viewing_depends_on_map_order:
  "\<exists>h kids kids'. set kids = set kids' \<and> gm_ok kids \<and> gm_ok kids' \<and>
     snd (viewing_set 0 (h\<lparr>hb_children := \<lparr>ct_map = kids, ct_keys = []\<rparr>\<rparr>) ''h'') = Some (Some [''p'', ''c'', ''g'']) \<and>
     snd (viewing_set 0 (h\<lparr>hb_children := \<lparr>ct_map = kids', ct_keys = []\<rparr>\<rparr>) ''h'') = Some (Some [''p'', ''c''])"
proof -
  let ?s = "(new_sub 0 1 [] None None [] zero_info)\<lparr>sb_session := ''p'', sb_view_declared := True\<rparr>"
  let ?h = "new_fan_hub\<lparr>hb_subs := [?s]\<rparr>"
  let ?c = "(guest_session_key ''h'' ''c'', ''p'')" and ?g = "(guest_session_key ''h'' ''g'', ''c'')"
  have k: "split_guest_session_key (guest_session_key ''h'' x) = Some (''h'', x)" for x
    by (rule split_session_key) simp
  have w: "sub_watches ?s ''h''" by (simp add: sub_watches_def new_sub_def zero_info_def)
  have "snd (viewing_set 0 (?h\<lparr>hb_children := \<lparr>ct_map = [?c, ?g], ct_keys = []\<rparr>\<rparr>) ''h'') = Some (Some [''p'', ''c'', ''g''])"
    "snd (viewing_set 0 (?h\<lparr>hb_children := \<lparr>ct_map = [?g, ?c], ct_keys = []\<rparr>\<rparr>) ''h'') = Some (Some [''p'', ''c''])"
    using w by (simp_all add: viewing_set_def k view_add_def max_viewing_session_id_len_def max_viewing_sessions_def Let_def)
  moreover have "gm_ok [?c, ?g]" "gm_ok [?g, ?c]" by (simp_all add: gm_ok_def guest_session_key_def)
  moreover have "set [?c, ?g] = set [?g, ?c]" by auto
  ultimately show ?thesis by blast
qed

end
