(* ===== verification/Tables.thy ===== *)
theory Tables
  imports Prelude
begin

text \<open>
  The interface of a record table kept as a slice and searched by id: what the guest and user
  stores promise of lookup after a write through the found pointer, after an append and after a cut.
  The providers interpret it on their own operations.
\<close>

locale keyed_table =
  fixes key :: "'r \<Rightarrow> string"
    and lookup :: "string \<Rightarrow> 't \<Rightarrow> 'r option"
    and modify :: "string \<Rightarrow> ('r \<Rightarrow> 'r) \<Rightarrow> 't \<Rightarrow> 't"
    and add :: "'r \<Rightarrow> 't \<Rightarrow> 't"
    and cut :: "string \<Rightarrow> 't \<Rightarrow> 't"
    and ok :: "'t \<Rightarrow> bool"
  assumes lookup_key: "lookup k t = Some r \<Longrightarrow> key r = k"
    and lookup_modify: "(\<And>r. key (f r) = key r) \<Longrightarrow>
      lookup k (modify k' f t) = (if k = k' then map_option f (lookup k t) else lookup k t)"
    and lookup_add: "lookup (key r) t = None \<Longrightarrow> lookup k (add r t) = (if k = key r then Some r else lookup k t)"
    and lookup_cut: "ok t \<Longrightarrow> lookup k (cut k' t) = (if k = k' then None else lookup k t)"
    and ok_modify: "ok t \<Longrightarrow> (\<And>r. key (f r) = key r) \<Longrightarrow> ok (modify k f t)"
    and ok_add: "ok t \<Longrightarrow> lookup (key r) t = None \<Longrightarrow> ok (add r t)"
    and ok_cut: "ok t \<Longrightarrow> ok (cut k t)"
begin

lemma modify_others: "(\<And>r. key (f r) = key r) \<Longrightarrow> k \<noteq> k' \<Longrightarrow> lookup k (modify k' f t) = lookup k t"
  by (simp add: lookup_modify)

lemma modify_hit:
  "(\<And>r. key (f r) = key r) \<Longrightarrow> lookup k t = Some r \<Longrightarrow> lookup k (modify k f t) = Some (f r)"
  by (simp add: lookup_modify)

lemma cut_gone: "ok t \<Longrightarrow> lookup k (cut k t) = None \<and> ok (cut k t)"
  by (simp add: lookup_cut ok_cut)

end

section \<open>The slice implementation\<close>

definition find_by :: "('r \<Rightarrow> string) \<Rightarrow> string \<Rightarrow> 'r list \<Rightarrow> 'r option" where
  "find_by key k rs = List.find (\<lambda>r. key r = k) rs"

lemma find_by_simps [simp]:
  "find_by key k [] = None"
  "find_by key k (r # rs) = (if key r = k then Some r else find_by key k rs)"
  by (simp_all add: find_by_def)

lemma find_by_None: "find_by key k rs = None \<longleftrightarrow> k \<notin> key ` set rs"
  by (induction rs) auto

lemma find_by_Some: "find_by key k rs = Some r \<Longrightarrow> r \<in> set rs \<and> key r = k"
  by (induction rs) (auto split: if_splits)

lemma find_by_in: "distinct (map key rs) \<Longrightarrow> r \<in> set rs \<Longrightarrow> find_by key (key r) rs = Some r"
  by (induction rs) (auto simp: rev_image_eqI)

lemma find_by_update_first:
  "(\<And>r. key (f r) = key r) \<Longrightarrow>
     find_by key k (update_first (\<lambda>r. key r = k') f rs) = (if k = k' then map_option f (find_by key k rs) else find_by key k rs)"
  by (induction rs) auto

lemma find_by_remove_first:
  "distinct (map key rs) \<Longrightarrow>
     find_by key k (remove_first (\<lambda>r. key r = k') rs) = (if k = k' then None else find_by key k rs)"
  by (induction rs) (auto simp: find_by_None)

lemma find_by_append: "find_by key k (rs @ ss) = (case find_by key k rs of None \<Rightarrow> find_by key k ss | Some r \<Rightarrow> Some r)"
  by (induction rs) auto

text \<open>The slice is a keyed table for every key: the stores interpret the interface by this lemma.\<close>

lemma slice_keyed_table:
  "keyed_table key (find_by key) (\<lambda>k. update_first (\<lambda>r. key r = k)) (\<lambda>r rs. rs @ [r])
     (\<lambda>k. remove_first (\<lambda>r. key r = k)) (\<lambda>rs. distinct (map key rs))"
proof unfold_locales
  show "find_by key k rs = Some r \<Longrightarrow> key r = k" for k rs r by (drule find_by_Some) simp
  show "find_by key k (update_first (\<lambda>r. key r = k') f rs) = (if k = k' then map_option f (find_by key k rs) else find_by key k rs)"
    if "\<And>r. key (f r) = key r" for k k' f rs
    by (rule find_by_update_first) (rule that)
  show "find_by key k (rs @ [r]) = (if k = key r then Some r else find_by key k rs)"
    if "find_by key (key r) rs = None" for k r rs
    using that by (auto simp: find_by_append split: option.split)
  show "distinct (map key rs) \<Longrightarrow> find_by key k (remove_first (\<lambda>r. key r = k') rs) = (if k = k' then None else find_by key k rs)"
    for rs k k' by (rule find_by_remove_first)
  show "distinct (map key rs) \<Longrightarrow> (\<And>r. key (f r) = key r) \<Longrightarrow> distinct (map key (update_first (\<lambda>r. key r = k) f rs))"
    for rs k f by (simp add: map_update_first)
  show "distinct (map key rs) \<Longrightarrow> find_by key (key r) rs = None \<Longrightarrow> distinct (map key (rs @ [r]))" for rs r
    by (simp add: find_by_None)
  show "distinct (map key rs) \<Longrightarrow> distinct (map key (remove_first (\<lambda>r. key r = k) rs))" for rs k
    by (rule distinct_map_remove_first)
qed

end
