(* ===== verification/Guests.thy ===== *)
theory Guests
  imports Subscribers Tables "HOL-Library.Product_Lexorder"
begin

text \<open>
  The guest token store (\<open>internal/hub/guests.go\<close>): lookups, every write operation with its
  persistence and its kicks, and the theorems that make a revocation take effect at once.
  The file on disk is the last document a successful write left there. \<open>UpdateGuestToken\<close> and the
  deletion release the mutex before they persist and kick; an operation here is one step in that
  order, so the states between its halves, where the table is changed and the pages are still open,
  are not among its states.
\<close>

record guest_hub =
  gh_guests :: "guest_token list"
  gh_file :: string
  gh_persisted_at :: time
  gh_disk :: "guest_token list option"
  gh_disk_ok :: bool
  gh_fan :: fan_hub

text \<open>\<open>os.ReadFile\<close> and \<open>json.Unmarshal\<close> failing both leave the table empty: \<open>None\<close>.\<close>

definition load_guests :: "guest_token list option \<Rightarrow> guest_hub \<Rightarrow> guest_hub" where
  "load_guests doc h =
     (case doc of
        None \<Rightarrow> h
      | Some tokens \<Rightarrow> h\<lparr>gh_guests := filter (\<lambda>g. \<not> (gt_id g = [] \<or> gt_token g = [])) tokens\<rparr>)"

definition persist_guests_now :: "time \<Rightarrow> guest_hub \<Rightarrow> guest_hub" where
  "persist_guests_now now h =
     (if gh_file h = [] then h
      else let h = h\<lparr>gh_persisted_at := now\<rparr>
           in if gh_disk_ok h then h\<lparr>gh_disk := Some (gh_guests h)\<rparr> else h)"

definition guest_tokens :: "guest_hub \<Rightarrow> guest_token list" where
  "guest_tokens h = sort_key (\<lambda>g. (gt_created_at g, gt_id g)) (gh_guests h)"

definition guest_by_id :: "string \<Rightarrow> guest_hub \<Rightarrow> guest_token option" where
  "guest_by_id i h = find_by gt_id i (gh_guests h)"

definition guest_by_token :: "string \<Rightarrow> time \<Rightarrow> guest_hub \<Rightarrow> guest_hub \<times> guest_token option" where
  "guest_by_token token now h =
     (let token = trim_space token
      in if token = [] then (h, None)
         else case find_by gt_token token (gh_guests h) of
                None \<Rightarrow> (h, None)
              | Some hit \<Rightarrow>
                  if \<not> guest_active hit now then (h, None)
                  else let touch = (\<lambda>g. g\<lparr>gt_last_used_at := unix_seconds now\<rparr>);
                           due = (now - gh_persisted_at h \<ge> minute);
                           h = h\<lparr>gh_guests := update_first (\<lambda>g. gt_token g = token) touch (gh_guests h)\<rparr>
                       in (if due then persist_guests_now now h else h, Some (touch hit)))"

section \<open>Random ids and tokens\<close>

definition hex_char :: "u8 \<Rightarrow> char" where
  "hex_char n = hex_digit (uint n)"

definition hex_encode :: "bytes \<Rightarrow> string" where
  "hex_encode bs = concat (map (\<lambda>b. [hex_char (drop_bit 4 b), hex_char (b AND 0xF)]) bs)"

definition new_guest_id :: "bytes \<Rightarrow> string" where
  "new_guest_id b = ''g_'' @ take 6 (hex_encode b)"

definition base64url_char :: "int \<Rightarrow> char" where
  "base64url_char n =
     (if n < 26 then char_of (65 + n) else if n < 52 then char_of (71 + n) else if n < 62 then char_of (n - 4)
      else if n = 62 then CHR ''-'' else CHR ''_'')"

fun base64_raw_url :: "bytes \<Rightarrow> string" where
  "base64_raw_url [] = []"
| "base64_raw_url [a] =
     (let v = uint a * 16 in map base64url_char [v div 64, v mod 64])"
| "base64_raw_url [a, b] =
     (let v = (uint a * 256 + uint b) * 4 in map base64url_char [v div 4096, v div 64 mod 64, v mod 64])"
| "base64_raw_url (a # b # c # r) =
     (let v = (uint a * 256 + uint b) * 256 + uint c
      in map base64url_char [v div 262144, v div 4096 mod 64, v div 64 mod 64, v mod 64] @ base64_raw_url r)"

definition new_guest_token :: "bytes \<Rightarrow> string" where
  "new_guest_token b = ''g_'' @ base64_raw_url b"

section \<open>Write operations\<close>

datatype guest_error = ErrGuestUnknown

definition default_guest_label :: string where
  "default_guest_label =
     [CHR 0xE8, CHR 0xAE, CHR 0xBF, CHR 0xE5, CHR 0xAE, CHR 0xA2, CHR 0xE4, CHR 0xBB, CHR 0xA4, CHR 0xE7, CHR 0x89, CHR 0x8C]"

definition sanitize_guest_session :: "guest_session \<Rightarrow> int \<Rightarrow> guest_session option" where
  "sanitize_guest_session s now =
     (let s = s\<lparr>gs_host_id := trim_space (gs_host_id s), gs_session_id := trim_space (gs_session_id s),
                gs_host_name := trim_space (gs_host_name s), gs_cwd := trim_space (gs_cwd s),
                gs_title := trim_space (gs_title s)\<rparr>
      in if gs_host_id s = [] \<or> gs_session_id s = [] then None
         else Some (if gs_added_at s \<le> 0 then s\<lparr>gs_added_at := now\<rparr> else s))"

definition sanitize_all :: "guest_session list \<Rightarrow> int \<Rightarrow> guest_session list" where
  "sanitize_all ss now = List.map_filter (\<lambda>s. sanitize_guest_session s now) ss"

definition guest_id_taken :: "string \<Rightarrow> guest_token list \<Rightarrow> bool" where
  "guest_id_taken i gs \<longleftrightarrow> list_ex (\<lambda>g. gt_id g = i) gs"

text \<open>The redraw loop: the draws of the random source, \<open>None\<close> when they run out before a free id.\<close>

fun fresh_guest_id :: "guest_token list \<Rightarrow> string \<Rightarrow> bytes list \<Rightarrow> string option" where
  "fresh_guest_id gs i draws =
     (if \<not> guest_id_taken i gs then Some i
      else case draws of [] \<Rightarrow> None | b # draws \<Rightarrow> fresh_guest_id gs (new_guest_id b) draws)"

declare fresh_guest_id.simps [simp del]

definition create_guest_token :: "string \<Rightarrow> int \<Rightarrow> guest_session list \<Rightarrow> time \<Rightarrow> bytes \<Rightarrow> bytes \<Rightarrow> bytes list \<Rightarrow>
    guest_hub \<Rightarrow> (guest_hub \<times> guest_token) option" where
  "create_guest_token label expires_at sessions now id_draw token_draw redraws h =
     (let g = \<lparr>gt_id = new_guest_id id_draw, gt_token = new_guest_token token_draw, gt_label = trim_space label,
               gt_created_at = unix_seconds now, gt_expires_at = expires_at, gt_revoked = False,
               gt_sessions = sanitize_all sessions (unix_seconds now), gt_last_used_at = 0\<rparr>;
          g = (if gt_label g = [] then g\<lparr>gt_label := default_guest_label\<rparr> else g)
      in case fresh_guest_id (gh_guests h) (gt_id g) redraws of
           None \<Rightarrow> None
         | Some i \<Rightarrow>
             let g = g\<lparr>gt_id := i\<rparr>;
                 h = h\<lparr>gh_guests := gh_guests h @ [g]\<rparr>
             in Some (persist_guests_now now h, g))"

definition modify_guest :: "string \<Rightarrow> (guest_token \<Rightarrow> guest_token) \<Rightarrow> guest_token list \<Rightarrow> guest_token list" where
  "modify_guest i f gs = update_first (\<lambda>g. gt_id g = i) f gs"

definition drop_guests :: "string \<Rightarrow> guest_hub \<Rightarrow> guest_hub" where
  "drop_guests i h = h\<lparr>gh_fan := drop_guest_subscribers i (gh_fan h)\<rparr>"

definition updated_guest :: "string option \<Rightarrow> int option \<Rightarrow> bool option \<Rightarrow> guest_token \<Rightarrow> guest_token" where
  "updated_guest label expires_at revoked g =
     (let g = (case label of
                 None \<Rightarrow> g
               | Some l \<Rightarrow> g\<lparr>gt_label := (if trim_space l = [] then default_guest_label else trim_space l)\<rparr>);
          g = (case expires_at of None \<Rightarrow> g | Some e \<Rightarrow> g\<lparr>gt_expires_at := e\<rparr>)
      in case revoked of None \<Rightarrow> g | Some r \<Rightarrow> g\<lparr>gt_revoked := r\<rparr>)"

text \<open>The two readings of the clock, before and after the change, are \<open>now\<close> and \<open>now2\<close>.\<close>

definition update_guest_token :: "string \<Rightarrow> string option \<Rightarrow> int option \<Rightarrow> bool option \<Rightarrow> time \<Rightarrow> time \<Rightarrow>
    guest_hub \<Rightarrow> guest_hub \<times> (guest_error + guest_token)" where
  "update_guest_token i label expires_at revoked now now2 h =
     (case guest_by_id i h of
        None \<Rightarrow> (h, Inl ErrGuestUnknown)
      | Some hit \<Rightarrow>
          let expiry_changed = (case expires_at of None \<Rightarrow> False | Some e \<Rightarrow> e \<noteq> gt_expires_at hit);
              was_active = guest_active hit now;
              out = updated_guest label expires_at revoked hit;
              h = h\<lparr>gh_guests := modify_guest i (updated_guest label expires_at revoked) (gh_guests h)\<rparr>;
              drop = (was_active \<and> (gt_revoked out \<or> expiry_changed \<or> guest_expired out now2));
              h = persist_guests_now now2 h
          in (if drop then drop_guests i h else h, Inr out))"

definition delete_guest_token :: "string \<Rightarrow> time \<Rightarrow> guest_hub \<Rightarrow> guest_hub \<times> guest_error option" where
  "delete_guest_token i now h =
     (case guest_by_id i h of
        None \<Rightarrow> (h, Some ErrGuestUnknown)
      | Some _ \<Rightarrow>
          let h = h\<lparr>gh_guests := remove_first (\<lambda>g. gt_id g = i) (gh_guests h)\<rparr>
          in (drop_guests i (persist_guests_now now h), None))"

definition same_session :: "guest_session \<Rightarrow> guest_session \<Rightarrow> bool" where
  "same_session s cur \<longleftrightarrow> gs_host_id cur = gs_host_id s \<and> gs_session_id cur = gs_session_id s"

definition merge_session :: "int \<Rightarrow> guest_session \<Rightarrow> guest_session \<Rightarrow> guest_session" where
  "merge_session now s cur =
     (let s = (if gs_added_at s = now \<and> gs_added_at cur > 0 then s\<lparr>gs_added_at := gs_added_at cur\<rparr> else s);
          s = (if gs_host_name s = [] then s\<lparr>gs_host_name := gs_host_name cur\<rparr> else s);
          s = (if gs_title s = [] then s\<lparr>gs_title := gs_title cur\<rparr> else s)
      in if gs_cwd s = [] then s\<lparr>gs_cwd := gs_cwd cur\<rparr> else s)"

fun add_sessions_loop :: "int \<Rightarrow> guest_session list \<Rightarrow> guest_session list \<Rightarrow> guest_session list" where
  "add_sessions_loop now [] ss = ss"
| "add_sessions_loop now (x # xs) ss =
     (case sanitize_guest_session x now of
        None \<Rightarrow> add_sessions_loop now xs ss
      | Some s \<Rightarrow>
          if List.find (same_session s) ss \<noteq> None
          then add_sessions_loop now xs (update_first (same_session s) (merge_session now s) ss)
          else add_sessions_loop now xs (ss @ [s]))"

definition edit_sessions :: "string \<Rightarrow> (guest_session list \<Rightarrow> guest_session list) \<Rightarrow> time \<Rightarrow> guest_hub \<Rightarrow>
    guest_hub \<times> (guest_error + guest_token)" where
  "edit_sessions i f now h =
     (case guest_by_id i h of
        None \<Rightarrow> (h, Inl ErrGuestUnknown)
      | Some hit \<Rightarrow>
          let put = (\<lambda>g. g\<lparr>gt_sessions := f (gt_sessions g)\<rparr>);
              h = h\<lparr>gh_guests := modify_guest i put (gh_guests h)\<rparr>
          in (persist_guests_now now h, Inr (put hit)))"

definition add_guest_sessions :: "string \<Rightarrow> guest_session list \<Rightarrow> time \<Rightarrow> guest_hub \<Rightarrow>
    guest_hub \<times> (guest_error + guest_token)" where
  "add_guest_sessions i items now h = edit_sessions i (add_sessions_loop (unix_seconds now) items) now h"

definition drop_keys :: "(string \<times> string) list \<Rightarrow> string list" where
  "drop_keys refs = map (\<lambda>(h, s). h @ nul # s) (filter (\<lambda>(h, s). \<not> (h = [] \<or> s = [])) refs)"

definition remove_guest_sessions :: "string \<Rightarrow> (string \<times> string) list \<Rightarrow> time \<Rightarrow> guest_hub \<Rightarrow>
    guest_hub \<times> (guest_error + guest_token)" where
  "remove_guest_sessions i refs now h =
     (case edit_sessions i (filter (\<lambda>s. gs_host_id s @ nul # gs_session_id s \<notin> set (drop_keys refs))) now h of
        (h, Inl e) \<Rightarrow> (h, Inl e)
      | (h, Inr g) \<Rightarrow> (drop_guests i h, Inr g))"

definition refresh_session :: "(string, guest_session) gomap \<Rightarrow> guest_session \<Rightarrow> guest_session" where
  "refresh_session by_key cur =
     (case gm_get by_key (gs_host_id cur @ nul # gs_session_id cur) of
        None \<Rightarrow> cur
      | Some nxt \<Rightarrow> cur\<lparr>gs_title := gs_title nxt, gs_host_name := gs_host_name nxt, gs_cwd := gs_cwd nxt,
                       gs_stale := gs_stale nxt\<rparr>)"

definition replace_guest_session_snapshot :: "string \<Rightarrow> guest_session list \<Rightarrow> time \<Rightarrow> guest_hub \<Rightarrow>
    guest_hub \<times> (guest_error + guest_token)" where
  "replace_guest_session_snapshot i items now h =
     (let by_key = foldl (\<lambda>m s. gm_set (gs_host_id s @ nul # gs_session_id s) s m) [] items
      in edit_sessions i (map (refresh_session by_key)) now h)"

section \<open>The store is a keyed table\<close>

definition append_guest :: "guest_token \<Rightarrow> guest_token list \<Rightarrow> guest_token list" where
  "append_guest g gs = gs @ [g]"

definition cut_guest :: "string \<Rightarrow> guest_token list \<Rightarrow> guest_token list" where
  "cut_guest i gs = remove_first (\<lambda>g. gt_id g = i) gs"

definition guest_ids_ok :: "guest_token list \<Rightarrow> bool" where
  "guest_ids_ok gs \<longleftrightarrow> distinct (map gt_id gs)"

interpretation guest_table: keyed_table gt_id "find_by gt_id" modify_guest append_guest cut_guest guest_ids_ok
proof -
  have eqs: "modify_guest = (\<lambda>k. update_first (\<lambda>r. gt_id r = k))" "append_guest = (\<lambda>r rs. rs @ [r])"
    "cut_guest = (\<lambda>k. remove_first (\<lambda>r. gt_id r = k))" "guest_ids_ok = (\<lambda>rs. distinct (map gt_id rs))"
    by (simp_all add: modify_guest_def append_guest_def cut_guest_def guest_ids_ok_def fun_eq_iff)
  show "keyed_table gt_id (find_by gt_id) modify_guest append_guest cut_guest guest_ids_ok"
    unfolding eqs by (rule slice_keyed_table)
qed

section \<open>Histories of the store\<close>

datatype guest_op =
    GCreate string int "guest_session list" bytes bytes "bytes list"
  | GUpdate string "string option" "int option" "bool option"
  | GDelete string
  | GAdd string "guest_session list"
  | GRemove string "(string \<times> string) list"
  | GReplace string "guest_session list"
  | GLookup string

fun guest_apply :: "time \<times> guest_op \<Rightarrow> guest_hub \<Rightarrow> guest_hub" where
  "guest_apply (now, GCreate l e ss a b ds) h =
     (case create_guest_token l e ss now a b ds h of None \<Rightarrow> h | Some (h', g) \<Rightarrow> h')"
| "guest_apply (now, GUpdate i l e r) h = fst (update_guest_token i l e r now now h)"
| "guest_apply (now, GDelete i) h = fst (delete_guest_token i now h)"
| "guest_apply (now, GAdd i ss) h = fst (add_guest_sessions i ss now h)"
| "guest_apply (now, GRemove i refs) h = fst (remove_guest_sessions i refs now h)"
| "guest_apply (now, GReplace i ss) h = fst (replace_guest_session_snapshot i ss now h)"
| "guest_apply (now, GLookup t) h = fst (guest_by_token t now h)"

definition guest_run :: "(time \<times> guest_op) list \<Rightarrow> guest_hub \<Rightarrow> guest_hub" where
  "guest_run ops h = fold guest_apply ops h"

lemma persist_frame [simp]:
  "gh_guests (persist_guests_now now h) = gh_guests h" "gh_fan (persist_guests_now now h) = gh_fan h"
  "gh_file (persist_guests_now now h) = gh_file h" "gh_disk_ok (persist_guests_now now h) = gh_disk_ok h"
  by (simp_all add: persist_guests_now_def Let_def)

lemma drop_frame [simp]:
  "gh_guests (drop_guests i h) = gh_guests h" "gh_disk (drop_guests i h) = gh_disk h"
  "gh_file (drop_guests i h) = gh_file h" "gh_disk_ok (drop_guests i h) = gh_disk_ok h"
  "gh_fan (drop_guests i h) = drop_guest_subscribers i (gh_fan h)"
  by (simp_all add: drop_guests_def)

lemma updated_guest_id [simp]: "gt_id (updated_guest l e r g) = gt_id g"
  by (simp add: updated_guest_def Let_def split: option.split)

lemma fresh_guest_id_free: "fresh_guest_id gs i draws = Some j \<Longrightarrow> find_by gt_id j gs = None"
proof (induction gs i draws rule: fresh_guest_id.induct)
  case (1 gs i draws)
  then show ?case
    by (auto simp: fresh_guest_id.simps [of gs i draws] guest_id_taken_def list_ex_iff find_by_None
        split: if_splits list.splits)
qed

text \<open>What each operation does to the table, and that it leaves the disk with the table.\<close>

definition on_disk :: "guest_hub \<Rightarrow> bool" where
  "on_disk h \<longleftrightarrow> gh_file h \<noteq> [] \<and> gh_disk_ok h \<longrightarrow> gh_disk h = Some (gh_guests h)"

lemma on_disk_persist [simp]: "on_disk (persist_guests_now now h)"
  by (simp add: on_disk_def persist_guests_now_def Let_def)

lemma on_disk_drop [simp]: "on_disk (drop_guests i h) = on_disk h"
  by (simp add: on_disk_def)

lemma create_guest_cases:
  assumes "create_guest_token l e ss now a b ds h = Some (h', g)"
  shows "gh_guests h' = append_guest g (gh_guests h)" and "find_by gt_id (gt_id g) (gh_guests h) = None"
    and "on_disk h'" and "gh_file h' = gh_file h" and "gh_disk_ok h' = gh_disk_ok h" and "gh_fan h' = gh_fan h"
  using assms
  by (auto simp: create_guest_token_def Let_def append_guest_def dest: fresh_guest_id_free split: option.splits)

lemma edit_sessions_cases:
  assumes "edit_sessions i f now h = (h', res)"
  obtains (Unknown) "guest_by_id i h = None" "h' = h" "res = Inl ErrGuestUnknown"
  | (Edited) hit where "guest_by_id i h = Some hit" "res = Inr (hit\<lparr>gt_sessions := f (gt_sessions hit)\<rparr>)"
      "gh_guests h' = modify_guest i (\<lambda>g. g\<lparr>gt_sessions := f (gt_sessions g)\<rparr>) (gh_guests h)"
      "on_disk h'" "gh_fan h' = gh_fan h" "gh_file h' = gh_file h" "gh_disk_ok h' = gh_disk_ok h"
  using assms by (auto simp: edit_sessions_def Let_def split: option.splits)

lemma update_guest_cases:
  assumes "update_guest_token i l e r now now2 h = (h', res)"
  obtains (Unknown) "guest_by_id i h = None" "h' = h" "res = Inl ErrGuestUnknown"
  | (Updated) hit where "guest_by_id i h = Some hit" "res = Inr (updated_guest l e r hit)"
      "gh_guests h' = modify_guest i (updated_guest l e r) (gh_guests h)" "on_disk h'"
      "gh_file h' = gh_file h" "gh_disk_ok h' = gh_disk_ok h"
      "gh_fan h' = (if guest_active hit now \<and> (gt_revoked (updated_guest l e r hit) \<or>
           (case e of None \<Rightarrow> False | Some x \<Rightarrow> x \<noteq> gt_expires_at hit) \<or> guest_expired (updated_guest l e r hit) now2)
         then drop_guest_subscribers i (gh_fan h) else gh_fan h)"
  using assms by (auto simp: update_guest_token_def Let_def split: option.splits if_splits)

lemma delete_guest_cases:
  assumes "delete_guest_token i now h = (h', err)"
  obtains (Unknown) "guest_by_id i h = None" "h' = h" "err = Some ErrGuestUnknown"
  | (Deleted) hit where "guest_by_id i h = Some hit" "err = None" "gh_guests h' = cut_guest i (gh_guests h)"
      "on_disk h'" "gh_fan h' = drop_guest_subscribers i (gh_fan h)" "gh_file h' = gh_file h" "gh_disk_ok h' = gh_disk_ok h"
  using assms by (auto simp: delete_guest_token_def Let_def cut_guest_def split: option.splits)

lemma guest_by_token_cases:
  assumes "guest_by_token token now h = (h', res)"
  obtains (Miss) "h' = h" "res = None"
  | (Hit) hit where "res = Some (hit\<lparr>gt_last_used_at := unix_seconds now\<rparr>)" "hit \<in> set (gh_guests h)" "guest_active hit now"
      "gt_token hit = trim_space token"
      "gh_guests h' = update_first (\<lambda>g. gt_token g = trim_space token) (\<lambda>g. g\<lparr>gt_last_used_at := unix_seconds now\<rparr>) (gh_guests h)"
      "gh_fan h' = gh_fan h" "gh_file h' = gh_file h" "gh_disk_ok h' = gh_disk_ok h" "gh_disk h' = gh_disk h \<or> on_disk h'"
proof (cases "trim_space token = [] \<or> (\<forall>hit. find_by gt_token (trim_space token) (gh_guests h) = Some hit \<longrightarrow> \<not> guest_active hit now)")
  case True
  then have "h' = h" "res = None"
    using assms by (auto simp: guest_by_token_def Let_def split: option.splits if_splits)
  then show thesis by (rule Miss)
next
  case False
  then obtain hit where hit: "trim_space token \<noteq> []" "find_by gt_token (trim_space token) (gh_guests h) = Some hit"
    "guest_active hit now" by blast
  let ?touch = "\<lambda>g. g\<lparr>gt_last_used_at := unix_seconds now\<rparr>"
  let ?h = "h\<lparr>gh_guests := update_first (\<lambda>g. gt_token g = trim_space token) ?touch (gh_guests h)\<rparr>"
  have eq: "h' = (if now - gh_persisted_at h \<ge> minute then persist_guests_now now ?h else ?h)" "res = Some (?touch hit)"
    using assms hit by (simp_all add: guest_by_token_def Let_def)
  have "gh_disk h' = gh_disk h \<or> on_disk h'" unfolding eq by simp
  then show thesis
    by (rule Hit [OF eq(2) conjunct1 [OF find_by_Some [OF hit(2)]] hit(3) conjunct2 [OF find_by_Some [OF hit(2)]], rotated -1])
      (simp_all add: eq(1))
qed

text \<open>A restart reloads the same tokens, but for the time of last use.\<close>

definition unused :: "guest_token \<Rightarrow> guest_token" where
  "unused g = g\<lparr>gt_last_used_at := 0\<rparr>"

definition store_inv :: "guest_hub \<Rightarrow> bool" where
  "store_inv h \<longleftrightarrow> guest_ids_ok (gh_guests h) \<and>
     (gh_file h \<noteq> [] \<and> gh_disk_ok h \<longrightarrow> map_option (map unused) (gh_disk h) = Some (map unused (gh_guests h)))"

lemma store_inv_on_disk: "guest_ids_ok (gh_guests h) \<Longrightarrow> on_disk h \<Longrightarrow> store_inv h"
  by (simp add: store_inv_def on_disk_def)

lemma store_inv_edit:
  assumes "store_inv h" and "edit_sessions i f now h = (h', res)" shows "store_inv h'"
  using assms(2)
proof (cases rule: edit_sessions_cases)
  case (Edited hit)
  then show ?thesis using assms(1) guest_table.ok_modify
    by (intro store_inv_on_disk) (simp_all add: store_inv_def)
qed (use assms(1) in simp)

lemma store_inv_drop: "store_inv (drop_guests i h) = store_inv h"
  by (simp add: store_inv_def)

lemma store_inv_apply: "store_inv h \<Longrightarrow> store_inv (guest_apply op h)"
proof (induction op h rule: guest_apply.induct)
  case (1 now l e ss a b ds h)
  show ?case
  proof (cases "create_guest_token l e ss now a b ds h")
    case (Some p)
    obtain h' g where c: "create_guest_token l e ss now a b ds h = Some (h', g)" using Some by (cases p) simp
    note cr = create_guest_cases [OF c]
    have "guest_ids_ok (gh_guests h')" unfolding cr(1)
      by (rule guest_table.ok_add) (use 1 cr(2) in \<open>simp_all add: store_inv_def\<close>)
    then show ?thesis using store_inv_on_disk [OF _ cr(3)] c by simp
  qed (use 1 in simp)
next
  case (2 now i l e r h)
  obtain h' res where u: "update_guest_token i l e r now now h = (h', res)" by (cases "update_guest_token i l e r now now h")
  from u show ?case
  proof (cases rule: update_guest_cases)
    case (Updated hit)
    then show ?thesis using 2 u guest_table.ok_modify
      by (simp add: store_inv_on_disk store_inv_def [of h])
  qed (use 2 u in simp)
next
  case (3 now i h)
  obtain h' res where u: "delete_guest_token i now h = (h', res)" by (cases "delete_guest_token i now h")
  from u show ?case
  proof (cases rule: delete_guest_cases)
    case (Deleted hit)
    then show ?thesis using 3 u guest_table.ok_cut by (simp add: store_inv_on_disk store_inv_def [of h])
  qed (use 3 u in simp)
next
  case (4 now i ss h)
  then show ?case unfolding guest_apply.simps add_guest_sessions_def
    by (cases "edit_sessions i (add_sessions_loop (unix_seconds now) ss) now h") (simp add: store_inv_edit)
next
  case (5 now i refs h)
  then show ?case unfolding guest_apply.simps remove_guest_sessions_def
    by (auto simp: store_inv_drop dest: store_inv_edit split: prod.splits sum.splits)
next
  case (6 now i ss h)
  define by_key where "by_key = foldl (\<lambda>m s. gm_set (gs_host_id s @ nul # gs_session_id s) s m) [] ss"
  obtain h' res where e: "edit_sessions i (map (refresh_session by_key)) now h = (h', res)"
    by (cases "edit_sessions i (map (refresh_session by_key)) now h")
  have "guest_apply (now, GReplace i ss) h = h'"
    using e by (simp add: replace_guest_session_snapshot_def by_key_def)
  then show ?case using store_inv_edit [OF 6 e] by simp
next
  case (7 now t h)
  obtain h' res where u: "guest_by_token t now h = (h', res)" by (cases "guest_by_token t now h")
  from u show ?case
  proof (cases rule: guest_by_token_cases)
    case (Hit hit)
    have "guest_ids_ok (gh_guests h')" using 7 Hit(5)
      by (simp add: store_inv_def guest_ids_ok_def map_update_first)
    moreover have "map unused (gh_guests h') = map unused (gh_guests h)"
      unfolding Hit(5) by (rule map_update_first) (simp add: unused_def)
    moreover have "store_inv h'" if "gh_disk h' = gh_disk h"
      using 7 calculation that Hit(7,8) by (simp add: store_inv_def)
    ultimately show ?thesis using u Hit(9) store_inv_on_disk by auto
  qed (use 7 u in simp)
qed

lemma store_inv_run: "store_inv h \<Longrightarrow> store_inv (guest_run ops h)"
  unfolding guest_run_def by (induction ops arbitrary: h) (auto intro: store_inv_apply)

lemma drop_guest_kicks:
  assumes "i \<noteq> []" and "s \<in> set (hb_subs (drop_guest_subscribers i f))" and "sb_guest s" and "sb_guest_token_id s = i"
  shows "sb_kicked s"
proof -
  have "s \<in> (\<lambda>s. if sb_guest s \<and> sb_guest_token_id s = i then sub_kick s else s) ` set (hb_subs f)"
    using assms(1,2) by (simp add: drop_guest_subscribers_def map_subs_def del: if_image_distrib)
  then obtain s0 where s: "s = (if sb_guest s0 \<and> sb_guest_token_id s0 = i then sub_kick s0 else s0)" by (rule imageE)
  show ?thesis using s assms(3,4) by (cases "sb_guest s0 \<and> sb_guest_token_id s0 = i") (simp_all add: sub_kick_def)
qed

lemma guest_unique:
  assumes "guest_ids_ok gs" and "g \<in> set gs"
  shows "find_by gt_id (gt_id g) gs = Some g"
proof -
  have "distinct (map gt_id gs)" using assms(1) by (simp only: guest_ids_ok_def)
  from find_by_in [OF this assms(2)] show ?thesis .
qed

section \<open>The whitelist after an edit\<close>

definition session_pair :: "guest_session \<Rightarrow> string \<times> string" where
  "session_pair s = (gs_host_id s, gs_session_id s)"

lemma same_session_pair: "same_session s cur \<longleftrightarrow> session_pair cur = session_pair s"
  by (simp add: same_session_def session_pair_def)

lemma merge_session_pair [simp]: "session_pair (merge_session now s cur) = session_pair s"
  by (simp add: merge_session_def session_pair_def Let_def)

lemma pairs_update_same: "map session_pair (update_first (same_session s) (merge_session now s) ss) = map session_pair ss"
  by (induction ss) (auto simp: same_session_pair)

lemma find_same_None: "List.find (same_session s) ss = None \<longleftrightarrow> session_pair s \<notin> session_pair ` set ss"
  unfolding find_None_iff same_session_pair by (metis image_iff)

lemma add_sessions_pairs:
  "distinct (map session_pair ss) \<Longrightarrow>
     distinct (map session_pair (add_sessions_loop now xs ss)) \<and>
     set (map session_pair (add_sessions_loop now xs ss)) = set (map session_pair ss) \<union> set (map session_pair (sanitize_all xs now))"
proof (induction xs arbitrary: ss)
  case (Cons x xs)
  show ?case
  proof (cases "sanitize_guest_session x now")
    case None
    then show ?thesis using Cons by (simp add: sanitize_all_def List.map_filter_def)
  next
    case (Some s)
    show ?thesis
    proof (cases "List.find (same_session s) ss = None")
      case True
      then have new: "distinct (map session_pair (ss @ [s]))" using Cons.prems find_same_None [of s ss] by simp
      show ?thesis using Cons.IH [OF new] Some True by (auto simp: sanitize_all_def List.map_filter_def)
    next
      case False
      let ?ss = "update_first (same_session s) (merge_session now s) ss"
      have "distinct (map session_pair ?ss)" using Cons.prems by (simp add: pairs_update_same)
      note IH = Cons.IH [OF this]
      have "session_pair s \<in> set (map session_pair ss)" using False find_same_None [of s ss] by simp
      then show ?thesis using IH Some False
        unfolding pairs_update_same [of s now ss]
        by (auto simp: sanitize_all_def List.map_filter_def)
    qed
  qed
qed (simp add: sanitize_all_def)

lemma drop_keys_exact:
  assumes "nul \<notin> set (gs_host_id s)" and "\<forall>r \<in> set refs. nul \<notin> set (fst r)"
  shows "gs_host_id s @ nul # gs_session_id s \<in> set (drop_keys refs) \<longleftrightarrow>
    gs_host_id s \<noteq> [] \<and> gs_session_id s \<noteq> [] \<and> session_pair s \<in> set refs"
proof
  assume "gs_host_id s @ nul # gs_session_id s \<in> set (drop_keys refs)"
  then obtain h x where r: "(h, x) \<in> set refs" "h \<noteq> []" "x \<noteq> []"
    "guest_session_key (gs_host_id s) (gs_session_id s) = guest_session_key h x"
    by (auto simp: drop_keys_def guest_session_key_def)
  have "nul \<notin> set h" using assms(2) r(1) by fastforce
  then have "gs_host_id s = h \<and> gs_session_id s = x" by (rule session_key_inj [OF r(4) assms(1)])
  then show "gs_host_id s \<noteq> [] \<and> gs_session_id s \<noteq> [] \<and> session_pair s \<in> set refs"
    using r by (simp add: session_pair_def)
qed (force simp: drop_keys_def session_pair_def)

section \<open>Properties\<close>

text \<open>C14: Revocation takes effect at once. After an active token is revoked, or any token is deleted, no
  presented secret, at any time, authenticates as that token, and every live page that did is kicked.\<close>

theorem revocation_takes_effect:
  assumes "store_inv h" and "i \<noteq> []"
    and "(\<exists>g hit label expires. update_guest_token i label expires (Some True) now now2 h = (h', Inr g) \<and>
            guest_by_id i h = Some hit \<and> guest_active hit now) \<or>
         delete_guest_token i now h = (h', None)"
  shows "(\<forall>token t g. snd (guest_by_token token t h') = Some g \<longrightarrow> gt_id g \<noteq> i) \<and>
    (\<forall>s \<in> set (hb_subs (gh_fan h')). sb_guest s \<and> sb_guest_token_id s = i \<longrightarrow> sb_kicked s)"
proof -
  have dead: "\<forall>g. find_by gt_id i (gh_guests h') = Some g \<longrightarrow> gt_revoked g" and ids: "guest_ids_ok (gh_guests h')"
    and fan: "gh_fan h' = drop_guest_subscribers i (gh_fan h)"
    using assms(3)
  proof (atomize (full), elim disjE exE conjE)
    fix g hit label expires
    assume u: "update_guest_token i label expires (Some True) now now2 h = (h', Inr g)"
      "guest_by_id i h = Some hit" "guest_active hit now"
    have rev: "gt_revoked (updated_guest label expires (Some True) x)" for x by (simp add: updated_guest_def Let_def)
    from u(1) show "(\<forall>g. find_by gt_id i (gh_guests h') = Some g \<longrightarrow> gt_revoked g) \<and> guest_ids_ok (gh_guests h') \<and>
        gh_fan h' = drop_guest_subscribers i (gh_fan h)"
    proof (cases rule: update_guest_cases)
      case (Updated hit')
      then show ?thesis using u rev assms(1) guest_table.ok_modify
        by (auto simp: guest_table.lookup_modify store_inv_def)
    qed simp
  next
    assume "delete_guest_token i now h = (h', None)"
    then show "(\<forall>g. find_by gt_id i (gh_guests h') = Some g \<longrightarrow> gt_revoked g) \<and> guest_ids_ok (gh_guests h') \<and>
        gh_fan h' = drop_guest_subscribers i (gh_fan h)"
    proof (cases rule: delete_guest_cases)
      case (Deleted hit)
      then show ?thesis using assms(1) guest_table.cut_gone by (simp add: store_inv_def)
    qed simp
  qed
  have "gt_id g \<noteq> i" if look: "snd (guest_by_token token t h') = Some g" for token t g
  proof -
    obtain h2 res where l: "guest_by_token token t h' = (h2, res)" by (cases "guest_by_token token t h'")
    from l show ?thesis
    proof (cases rule: guest_by_token_cases)
      case (Hit hit)
      have "find_by gt_id (gt_id hit) (gh_guests h') = Some hit" by (rule guest_unique [OF ids Hit(2)])
      then have "gt_id hit \<noteq> i" using dead Hit(3) by (auto simp: guest_active_def)
      then show ?thesis using Hit(1) look l by auto
    qed (use look l in simp)
  qed
  moreover have "\<forall>s \<in> set (hb_subs (gh_fan h')). sb_guest s \<and> sb_guest_token_id s = i \<longrightarrow> sb_kicked s"
    unfolding fan using drop_guest_kicks [OF assms(2)] by blast
  ultimately show ?thesis by blast
qed

definition sample_guest_hub :: guest_hub where
  "sample_guest_hub = \<lparr>gh_guests = [sample_token], gh_file = ''guests.json'', gh_persisted_at = 0,
     gh_disk = Some [sample_token], gh_disk_ok = True,
     gh_fan = fst (try_subscribe_guest 5 0 [] sample_token zero_info new_fan_hub)\<rparr>"

lemma sample_guest_hub_inv: "store_inv sample_guest_hub"
  by (simp add: store_inv_def sample_guest_hub_def guest_ids_ok_def)

lemma revocation_takes_effect_witness:
  "filter (\<lambda>s. sb_guest s \<and> sb_guest_token_id s = ''g_1'' \<and> \<not> sb_kicked s)
     (hb_subs (gh_fan (fst (delete_guest_token ''g_1'' 7 sample_guest_hub)))) = []"
proof -
  have "delete_guest_token ''g_1'' 7 sample_guest_hub = (fst (delete_guest_token ''g_1'' 7 sample_guest_hub), None)"
    by (simp add: delete_guest_token_def guest_by_id_def sample_guest_hub_def sample_token_def Let_def)
  from revocation_takes_effect [OF sample_guest_hub_inv _ disjI2 [OF this]] show ?thesis by (auto simp: filter_empty_conv)
qed

text \<open>Token ids stay unique and a restart forgets nothing. From a store in which ids are unique and
  the file holds the table, every history of creations (with any random draws), updates, deletions,
  whitelist edits and logins keeps both; the file may lag only by times of last use.\<close>

theorem guest_store_durable:
  assumes "store_inv h" and "h' = guest_run ops h"
  shows "distinct (map gt_id (gh_guests h')) \<and>
    (gh_file h' \<noteq> [] \<and> gh_disk_ok h' \<longrightarrow> map_option (map unused) (gh_disk h') = Some (map unused (gh_guests h')))"
  using store_inv_run [OF assms(1)] assms(2) by (simp add: store_inv_def guest_ids_ok_def)

lemma guest_store_durable_witness:
  "distinct (map gt_id (gh_guests (guest_run [(1, GCreate [] 0 [] [0,0,0,0] [] [[0,0,0,0], [1,0,0,0]]),
     (2, GDelete ''g_1'')] sample_guest_hub)))"
  using guest_store_durable [OF sample_guest_hub_inv refl] by blast

text \<open>Whitelist edits are exact. Adding sessions to a token leaves exactly the sessions it had and
  the well-formed ones added, each once; removing leaves exactly those not named, and drops the
  token's live pages. (Host ids without the NUL separator; every other token is untouched.)\<close>

theorem whitelist_edits_exact:
  assumes "guest_by_id i h = Some g" and "distinct (map session_pair (gt_sessions g))" and "i \<noteq> []"
    and "\<forall>s \<in> set (gt_sessions g). nul \<notin> set (gs_host_id s) \<and> gs_host_id s \<noteq> [] \<and> gs_session_id s \<noteq> []"
    and "\<forall>r \<in> set refs. nul \<notin> set (fst r)"
  shows "(\<exists>h1 g1. add_guest_sessions i items now h = (h1, Inr g1) \<and> guest_by_id i h1 = Some g1 \<and>
      distinct (map session_pair (gt_sessions g1)) \<and>
      session_pair ` set (gt_sessions g1) =
        session_pair ` set (gt_sessions g) \<union> session_pair ` set (sanitize_all items (unix_seconds now)) \<and>
      (\<forall>j. j \<noteq> i \<longrightarrow> guest_by_id j h1 = guest_by_id j h)) \<and>
    (\<exists>h2 g2. remove_guest_sessions i refs now h = (h2, Inr g2) \<and> guest_by_id i h2 = Some g2 \<and>
      gt_sessions g2 = filter (\<lambda>s. session_pair s \<notin> set refs) (gt_sessions g) \<and>
      (\<forall>j. j \<noteq> i \<longrightarrow> guest_by_id j h2 = guest_by_id j h) \<and>
      (\<forall>s \<in> set (hb_subs (gh_fan h2)). sb_guest s \<and> sb_guest_token_id s = i \<longrightarrow> sb_kicked s))"
proof
  have look: "guest_by_id j (persist_guests_now now (h\<lparr>gh_guests := modify_guest i (\<lambda>g. g\<lparr>gt_sessions := f (gt_sessions g)\<rparr>) (gh_guests h)\<rparr>)) =
      (if j = i then Some (g\<lparr>gt_sessions := f (gt_sessions g)\<rparr>) else guest_by_id j h)" for j f
    using assms(1) by (simp add: guest_by_id_def guest_table.lookup_modify)
  show "\<exists>h1 g1. add_guest_sessions i items now h = (h1, Inr g1) \<and> guest_by_id i h1 = Some g1 \<and>
      distinct (map session_pair (gt_sessions g1)) \<and>
      session_pair ` set (gt_sessions g1) =
        session_pair ` set (gt_sessions g) \<union> session_pair ` set (sanitize_all items (unix_seconds now)) \<and>
      (\<forall>j. j \<noteq> i \<longrightarrow> guest_by_id j h1 = guest_by_id j h)"
    using assms(1) add_sessions_pairs [OF assms(2), of "unix_seconds now" items] look
    by (simp add: add_guest_sessions_def edit_sessions_def Let_def)
  have filt: "filter (\<lambda>s. gs_host_id s @ nul # gs_session_id s \<notin> set (drop_keys refs)) (gt_sessions g) =
      filter (\<lambda>s. session_pair s \<notin> set refs) (gt_sessions g)"
    by (rule filter_cong [OF refl]) (use drop_keys_exact [OF _ assms(5)] assms(4) in blast)
  have kick: "\<forall>s \<in> set (hb_subs (drop_guest_subscribers i f)). sb_guest s \<and> sb_guest_token_id s = i \<longrightarrow> sb_kicked s" for f
    using drop_guest_kicks [OF assms(3)] by blast
  have "guest_by_id j (drop_guests i x) = guest_by_id j x" for j x by (simp add: guest_by_id_def)
  then show "\<exists>h2 g2. remove_guest_sessions i refs now h = (h2, Inr g2) \<and> guest_by_id i h2 = Some g2 \<and>
      gt_sessions g2 = filter (\<lambda>s. session_pair s \<notin> set refs) (gt_sessions g) \<and>
      (\<forall>j. j \<noteq> i \<longrightarrow> guest_by_id j h2 = guest_by_id j h) \<and>
      (\<forall>s \<in> set (hb_subs (gh_fan h2)). sb_guest s \<and> sb_guest_token_id s = i \<longrightarrow> sb_kicked s)"
    using assms(1) look filt kick by (simp add: remove_guest_sessions_def edit_sessions_def Let_def)
qed

lemma whitelist_edits_exact_witness:
  "\<exists>h2 g2. remove_guest_sessions ''g_1'' [(''h'', ''s1'')] 7 sample_guest_hub = (h2, Inr g2) \<and>
     gt_sessions g2 = [sample_session ''h'' ''s2'']"
proof -
  have "guest_by_id ''g_1'' sample_guest_hub = Some sample_token"
    by (simp add: guest_by_id_def sample_guest_hub_def sample_token_def)
  from whitelist_edits_exact [OF this, of "[(''h'', ''s1'')]" "[]" 7]
  show ?thesis by (auto simp: sample_token_def sample_session_def session_pair_def)
qed

end
