(* ===== verification/EventBuffer.thy ===== *)
theory EventBuffer
  imports Subscribers
begin

text \<open>
  The per-host data plane of \<open>internal/hub/hub.go\<close>: the bounded gap-pull buffer with its binary
  search, the pre-fan-out queue with its epoch tags, and the ingest of a run of raw events. The
  fan-out goroutine is the operation that takes one item from the queue.
\<close>

definition event_buf_cap :: nat where "event_buf_cap = 1500"
definition ev_buf_high_water :: nat where "ev_buf_high_water = 2 * event_buf_cap"
definition ev_buf_byte_cap :: int where "ev_buf_byte_cap = 64 * 2 ^ 20"
definition host_fanout_cap :: nat where "host_fanout_cap = 2048"

record fanout_item =
  fi_host_id :: string
  fi_ev :: event
  fi_epoch :: u64

record data_plane =
  dp_epoch :: u64
  dp_ev_buf :: "event list"
  dp_ev_buf_bytes :: int
  dp_fuse_logged :: bool
  dp_ready :: bool
  dp_fanout :: "fanout_item list"
  dp_fanout_dropped :: u64

definition new_plane :: "u64 \<Rightarrow> data_plane" where
  "new_plane epoch = \<lparr>dp_epoch = epoch, dp_ev_buf = [], dp_ev_buf_bytes = 0, dp_fuse_logged = False,
     dp_ready = False, dp_fanout = [], dp_fanout_dropped = 0\<rparr>"

section \<open>The gap-pull buffer\<close>

definition insert_event :: "event \<Rightarrow> event list \<Rightarrow> event list" where
  "insert_event ev buf =
     (let n = length buf
      in if n = 0 \<or> ev_seq (buf ! (n - 1)) < ev_seq ev then buf @ [ev]
         else let at = sort_search n (\<lambda>i. ev_seq (buf ! i) > ev_seq ev)
              in take at buf @ ev # drop at buf)"

text \<open>The loop that finds how many of the oldest events to cut, with the weight left after each.\<close>

fun cut_loop :: "event list \<Rightarrow> int \<Rightarrow> event list \<times> int" where
  "cut_loop [] bytes = ([], bytes)"
| "cut_loop (ev # evs) bytes =
     (if bytes > ev_buf_byte_cap then cut_loop evs (bytes - event_bytes ev) else (ev # evs, bytes))"

definition buffer_event :: "event \<Rightarrow> data_plane \<Rightarrow> data_plane" where
  "buffer_event ev d =
     (let d = d\<lparr>dp_ev_buf_bytes := dp_ev_buf_bytes d + event_bytes ev,
                dp_ev_buf := insert_event ev (dp_ev_buf d)\<rparr>;
          d = (if length (dp_ev_buf d) > ev_buf_high_water then
                 let trimmed = drop (length (dp_ev_buf d) - event_buf_cap) (dp_ev_buf d)
                 in d\<lparr>dp_ev_buf := trimmed, dp_ev_buf_bytes := events_bytes trimmed\<rparr>
               else d)
      in if dp_ev_buf_bytes d > ev_buf_byte_cap then
           let (keep, bytes) = cut_loop (dp_ev_buf d) (dp_ev_buf_bytes d)
           in d\<lparr>dp_ev_buf := keep, dp_ev_buf_bytes := bytes, dp_fuse_logged := True\<rparr>
         else d)"

definition events_after :: "u64 \<Rightarrow> data_plane \<Rightarrow> event list" where
  "events_after after d =
     (let buf = dp_ev_buf d;
          i = sort_search (length buf) (\<lambda>i. ev_seq (buf ! i) > after)
      in if i \<ge> length buf then [] else drop i buf)"

section \<open>Fan-out\<close>

definition fanout_item_current :: "fanout_item \<Rightarrow> data_plane \<Rightarrow> bool" where
  "fanout_item_current item d \<longleftrightarrow> fi_epoch item = dp_epoch d"

definition fanout_ready :: "data_plane \<Rightarrow> bool" where
  "fanout_ready d = dp_ready d"

definition enqueue_fanout :: "string \<Rightarrow> event \<Rightarrow> u64 \<Rightarrow> data_plane \<Rightarrow> data_plane" where
  "enqueue_fanout host ev epoch d =
     (let d = d\<lparr>dp_ready := True\<rparr>
      in if length (dp_fanout d) < host_fanout_cap
         then d\<lparr>dp_fanout := dp_fanout d @ [\<lparr>fi_host_id = host, fi_ev = ev, fi_epoch = epoch\<rparr>]\<rparr>
         else d\<lparr>dp_fanout_dropped := dp_fanout_dropped d + 1\<rparr>)"

definition fanout_take :: "data_plane \<Rightarrow> fan_hub \<Rightarrow> (data_plane \<times> fan_hub) option" where
  "fanout_take d h =
     (case dp_fanout d of
        [] \<Rightarrow> None
      | item # items \<Rightarrow>
          let d = d\<lparr>dp_fanout := items\<rparr>
          in Some (d, if \<not> fanout_item_current item d then h
                      else broadcast_host (fi_host_id item) (fi_ev item) h))"

definition announce_epoch_reset :: "string \<Rightarrow> u64 \<Rightarrow> data_plane \<Rightarrow> fan_hub \<Rightarrow> data_plane \<times> fan_hub" where
  "announce_epoch_reset host baseline d h =
     (let ev = [(''v'', VInt 1), (''type'', VStr ''subscribed''), (''host'', VStr host), (''seq'', VU64 baseline)]
      in if fanout_ready d then (enqueue_fanout host ev (dp_epoch d) d, h)
         else (d, map_subs (\<lambda>s. if sub_watches s host then deliver_to ev s else s) h))"

section \<open>Ingest\<close>

text \<open>
  One raw event of a session with epoch \<open>epoch\<close>: skipped when it is no object or its header does
  not decode, refused when the epoch was superseded, else buffered, noted and queued.
\<close>

datatype ingest_outcome = IngestSkipped | IngestStale | IngestDone

definition ingest_one :: "string \<Rightarrow> string \<Rightarrow> u64 \<Rightarrow> string \<Rightarrow> data_plane \<Rightarrow> child_table \<Rightarrow>
    data_plane \<times> child_table \<times> ingest_outcome" where
  "ingest_one host name epoch raw d ct =
     (case raw_to_event host name raw of
        None \<Rightarrow> (d, ct, IngestSkipped)
      | Some (ev, m) \<Rightarrow>
          if dp_epoch d \<noteq> epoch then (d, ct, IngestStale)
          else let d = buffer_event ev d;
                   ct = (if rm_type m = ''subagent_spawned'' then note_spawn_from_raw host (trim_right_ws raw) ct else ct)
               in (enqueue_fanout host ev epoch d, ct, IngestDone))"

fun ingest_loop :: "string \<Rightarrow> string \<Rightarrow> u64 \<Rightarrow> string list \<Rightarrow> data_plane \<Rightarrow> child_table \<Rightarrow>
    data_plane \<times> child_table \<times> bool" where
  "ingest_loop host name epoch [] d ct = (d, ct, True)"
| "ingest_loop host name epoch (raw # raws) d ct =
     (case ingest_one host name epoch raw d ct of
        (d, ct, IngestStale) \<Rightarrow> (d, ct, False)
      | (d, ct, _) \<Rightarrow> ingest_loop host name epoch raws d ct)"

text \<open>\<open>current\<close>: the host exists and the session is still its attached one.\<close>

definition ingest_raw_events :: "bool \<Rightarrow> string \<Rightarrow> string \<Rightarrow> u64 \<Rightarrow> string list \<Rightarrow> data_plane \<Rightarrow> child_table \<Rightarrow>
    data_plane \<times> child_table \<times> bool" where
  "ingest_raw_events current host name epoch raws d ct =
     (if \<not> current then (d, ct, False) else ingest_loop host name epoch raws d ct)"

section \<open>The buffer invariant\<close>

definition buf_sorted :: "event list \<Rightarrow> bool" where
  "buf_sorted buf \<longleftrightarrow> sorted (map ev_seq buf)"

definition buf_inv :: "data_plane \<Rightarrow> bool" where
  "buf_inv d \<longleftrightarrow> buf_sorted (dp_ev_buf d) \<and> dp_ev_buf_bytes d = events_bytes (dp_ev_buf d) \<and>
     length (dp_ev_buf d) \<le> ev_buf_high_water \<and> dp_ev_buf_bytes d \<le> ev_buf_byte_cap \<and>
     length (dp_fanout d) \<le> host_fanout_cap"

lemma buf_sorted_le:
  assumes "buf_sorted buf" and "k \<le> l" and "l < length buf"
  shows "ev_seq (buf ! k) \<le> ev_seq (buf ! l)"
  using sorted_nth_mono [of "map ev_seq buf" k l] assms by (simp add: buf_sorted_def)

lemma sorted_above:
  assumes "buf_sorted buf" and "k \<le> l" and "l < length buf" and "x < ev_seq (buf ! k)"
  shows "x < ev_seq (buf ! l)"
  using assms sorted_nth_mono [of "map ev_seq buf" k l] by (auto simp: buf_sorted_def)

text \<open>The predicate of the search, made total beyond the end of the buffer.\<close>

lemma sort_search_cong:
  assumes "\<And>k. k < n \<Longrightarrow> f k = g k"
  shows "sort_search n f = sort_search n g"
proof -
  have "search_loop f i j = search_loop g i j" if "j \<le> n" "\<And>k. k < n \<Longrightarrow> f k = g k" for i j
    using that
  proof (induction f i j rule: search_loop.induct)
    case (1 f i j)
    have h: "i < j \<Longrightarrow> f ((i + j) div 2) = g ((i + j) div 2)" using "1.prems" by (intro "1.prems"(2)) linarith
    show ?case
      by (subst (1 2) search_loop.simps) (use 1 h in \<open>auto simp: Let_def\<close>)
  qed
  then show ?thesis using assms by (simp add: sort_search_def)
qed

lemma buf_search:
  fixes x :: u64
  assumes "buf_sorted buf"
  defines "i \<equiv> sort_search (length buf) (\<lambda>i. x < ev_seq (buf ! i))"
  shows "i \<le> length buf" and "\<And>k. k < i \<Longrightarrow> ev_seq (buf ! k) \<le> x"
    and "\<And>k. i \<le> k \<Longrightarrow> k < length buf \<Longrightarrow> x < ev_seq (buf ! k)"
proof -
  let ?f = "\<lambda>k. length buf \<le> k \<or> x < ev_seq (buf ! k)"
  have i: "i = sort_search (length buf) ?f" unfolding i_def by (rule sort_search_cong) simp
  have mono: "?f l" if "k \<le> l" "?f k" for k l
    using that sorted_above [OF assms(1)] by (cases "l < length buf") auto
  have sp: "sort_search (length buf) ?f \<le> length buf" "\<And>k. k < sort_search (length buf) ?f \<Longrightarrow> \<not> ?f k"
    "\<And>k. k < length buf \<Longrightarrow> sort_search (length buf) ?f \<le> k \<Longrightarrow> ?f k"
    by (rule sort_search_spec; use mono in blast)+
  show "i \<le> length buf" using sp(1) by (simp only: i)
  show "ev_seq (buf ! k) \<le> x" if "k < i" for k using sp(2) [OF that [unfolded i]] by (simp add: not_less)
  show "x < ev_seq (buf ! k)" if "i \<le> k" "k < length buf" for k using sp(3) [OF that(2) that(1) [unfolded i]] that(2) by simp
qed

lemma events_bytes_append: "events_bytes (xs @ ys) = events_bytes xs + events_bytes ys"
  by (simp add: events_bytes_sum)

lemma events_bytes_Cons [simp]: "events_bytes (x # xs) = event_bytes x + events_bytes xs"
  by (simp add: events_bytes_sum)

lemma events_bytes_Nil [simp]: "events_bytes [] = 0"
  by (simp add: events_bytes_sum)

lemma events_bytes_nonneg: "0 \<le> events_bytes evs"
  by (induction evs) (simp_all add: event_bytes_nonneg)

lemma insert_event_spec:
  assumes "buf_sorted buf"
  shows "buf_sorted (insert_event ev buf) \<and> length (insert_event ev buf) = Suc (length buf) \<and>
    events_bytes (insert_event ev buf) = events_bytes buf + event_bytes ev \<and> mset (insert_event ev buf) = add_mset ev (mset buf)"
proof (cases "length buf = 0 \<or> ev_seq (buf ! (length buf - 1)) < ev_seq ev")
  case True
  have le: "ev_seq x \<le> ev_seq ev" if x: "x \<in> set buf" for x
  proof -
    obtain k where k: "k < length buf" "x = buf ! k" using x unfolding in_set_conv_nth by blast
    have "k \<le> length buf - 1" "length buf - 1 < length buf" using k(1) by linarith+
    then have "ev_seq (buf ! k) \<le> ev_seq (buf ! (length buf - 1))" by (rule buf_sorted_le [OF assms])
    also have "\<dots> < ev_seq ev" using True k(1) by linarith
    finally show ?thesis unfolding k(2) by (rule less_imp_le)
  qed
  have "buf_sorted (buf @ [ev])"
    unfolding buf_sorted_def map_append sorted_append using assms le by (simp add: buf_sorted_def)
  moreover have "insert_event ev buf = buf @ [ev]" using True unfolding insert_event_def Let_def by (rule if_P)
  ultimately show ?thesis by (simp add: events_bytes_append)
next
  case False
  define at where "at = sort_search (length buf) (\<lambda>i. ev_seq ev < ev_seq (buf ! i))"
  have eq: "insert_event ev buf = take at buf @ ev # drop at buf"
    using False unfolding insert_event_def Let_def at_def by (rule if_not_P)
  note sp = buf_search [OF assms, where x = "ev_seq ev", folded at_def]
  have lo: "\<forall>x \<in> set (take at buf). ev_seq x \<le> ev_seq ev"
  proof
    fix x
    assume "x \<in> set (take at buf)"
    then obtain i where "i < length (take at buf)" "take at buf ! i = x" unfolding in_set_conv_nth by blast
    then have "i < at" "x = buf ! i" by simp_all
    then show "ev_seq x \<le> ev_seq ev" using sp(2) [of i] by simp
  qed
  have hi: "\<forall>x \<in> set (drop at buf). ev_seq ev \<le> ev_seq x"
  proof
    fix x
    assume "x \<in> set (drop at buf)"
    then obtain i where "i < length (drop at buf)" "drop at buf ! i = x" unfolding in_set_conv_nth by blast
    then have "at + i < length buf" "x = buf ! (at + i)" by simp_all
    then show "ev_seq ev \<le> ev_seq x" using sp(3) [of "at + i"] by simp
  qed
  have "sorted (map ev_seq (take at buf @ drop at buf))" using assms by (simp add: buf_sorted_def)
  then have "buf_sorted (take at buf @ ev # drop at buf)"
    using lo hi unfolding buf_sorted_def map_append sorted_append by auto
  moreover have "events_bytes (take at buf @ drop at buf) = events_bytes buf" "mset (take at buf @ drop at buf) = mset buf"
    by simp_all
  ultimately show ?thesis using sp(1) unfolding eq by (simp add: events_bytes_append union_ac del: append_take_drop_id)
qed

lemma cut_loop_spec:
  assumes "cut_loop evs b = (keep, b')"
  shows "\<exists>cut. evs = cut @ keep \<and> b' = b - events_bytes cut \<and> (keep = [] \<or> b' \<le> ev_buf_byte_cap)"
  using assms
proof (induction evs arbitrary: b)
  case (Cons ev evs)
  show ?case
  proof (cases "b > ev_buf_byte_cap")
    case True
    then obtain cut where "evs = cut @ keep" "b' = b - event_bytes ev - events_bytes cut"
      "keep = [] \<or> b' \<le> ev_buf_byte_cap" using Cons by fastforce
    then show ?thesis by (intro exI [of _ "ev # cut"]) simp
  qed (use Cons.prems in auto)
qed simp

lemma buf_sorted_drop: "buf_sorted buf \<Longrightarrow> buf_sorted (drop n buf)"
  by (simp add: buf_sorted_def drop_map [symmetric] sorted_wrt_drop)

lemma buf_sorted_suffix: "buf_sorted (xs @ ys) \<Longrightarrow> buf_sorted ys"
  by (simp add: buf_sorted_def sorted_append)

text \<open>A buffered event: the invariant, and what remains is a suffix of the ordered insertion.\<close>

lemma buffer_event_spec:
  assumes "buf_inv d"
  shows "buf_inv (buffer_event ev d) \<and> dp_fanout (buffer_event ev d) = dp_fanout d \<and>
    dp_epoch (buffer_event ev d) = dp_epoch d \<and>
    (\<exists>old. insert_event ev (dp_ev_buf d) = old @ dp_ev_buf (buffer_event ev d) \<and>
       (old = [] \<or> length old = length (dp_ev_buf d) + 1 - event_buf_cap \<or> events_bytes (insert_event ev (dp_ev_buf d)) > ev_buf_byte_cap))"
proof -
  note ins = insert_event_spec [of "dp_ev_buf d" ev]
  have srt: "buf_sorted (dp_ev_buf d)" using assms by (simp add: buf_inv_def)
  let ?b = "insert_event ev (dp_ev_buf d)"
  define b1 where "b1 = (if length ?b > ev_buf_high_water then drop (length ?b - event_buf_cap) ?b else ?b)"
  define old1 where "old1 = (if length ?b > ev_buf_high_water then take (length ?b - event_buf_cap) ?b else [])"
  have split1: "?b = old1 @ b1" by (simp add: b1_def old1_def)
  have s1: "buf_sorted b1" using ins [OF srt] by (simp add: b1_def buf_sorted_drop)
  have len1: "length b1 \<le> ev_buf_high_water" by (simp add: b1_def ev_buf_high_water_def)
  define d1 where "d1 = d\<lparr>dp_ev_buf_bytes := events_bytes b1, dp_ev_buf := b1\<rparr>"
  have bytes: "dp_ev_buf_bytes d + event_bytes ev = events_bytes ?b"
    using ins [OF srt] assms by (simp add: buf_inv_def)
  have be: "buffer_event ev d = (if events_bytes b1 > ev_buf_byte_cap then
      d1\<lparr>dp_ev_buf := fst (cut_loop b1 (events_bytes b1)), dp_ev_buf_bytes := snd (cut_loop b1 (events_bytes b1)), dp_fuse_logged := True\<rparr>
      else d1)"
    unfolding buffer_event_def Let_def
    by (simp add: bytes b1_def d1_def split_beta)
  show ?thesis
  proof (cases "events_bytes b1 > ev_buf_byte_cap")
    case False
    have "length old1 = (if length ?b > ev_buf_high_water then length (dp_ev_buf d) + 1 - event_buf_cap else 0)"
      using ins [OF srt] by (simp add: old1_def)
    then show ?thesis using False be s1 len1 split1 assms by (auto simp: buf_inv_def d1_def split: if_splits)
  next
    case True
    obtain keep b' where c: "cut_loop b1 (events_bytes b1) = (keep, b')" by (cases "cut_loop b1 (events_bytes b1)")
    obtain cut where cut: "b1 = cut @ keep" "b' = events_bytes b1 - events_bytes cut" "keep = [] \<or> b' \<le> ev_buf_byte_cap"
      using cut_loop_spec [OF c] by blast
    have b': "b' = events_bytes keep" "b' \<le> ev_buf_byte_cap"
      using cut by (auto simp: events_bytes_append ev_buf_byte_cap_def)
    have "buf_sorted keep" "length keep \<le> ev_buf_high_water" using s1 len1 cut(1) buf_sorted_suffix by auto
    moreover have "events_bytes ?b > ev_buf_byte_cap"
      using True events_bytes_nonneg [of old1] unfolding split1 events_bytes_append by linarith
    ultimately show ?thesis using True be c split1 cut(1) b' assms by (auto simp: buf_inv_def d1_def)
  qed
qed

lemma buf_inv_enqueue: "buf_inv d \<Longrightarrow> buf_inv (enqueue_fanout h ev e d)"
  by (auto simp: buf_inv_def enqueue_fanout_def Let_def)

section \<open>Histories of the data plane\<close>

lemma ingest_one_inv:
  assumes "buf_inv d" and "ingest_one host name epoch raw d ct = (d', ct', res)"
  shows "buf_inv d' \<and> dp_epoch d' = dp_epoch d \<and> (children_inv ct \<longrightarrow> children_inv ct') \<and>
    (dp_epoch d \<noteq> epoch \<longrightarrow> d' = d \<and> ct' = ct \<and> res \<noteq> IngestDone)"
proof (cases "raw_to_event host name raw")
  case (Some p)
  obtain ev m where p: "p = (ev, m)" by (cases p)
  show ?thesis
  proof (cases "dp_epoch d = epoch")
    case True
    have "buf_inv (enqueue_fanout host ev epoch (buffer_event ev d))"
      using buffer_event_spec [OF assms(1)] buf_inv_enqueue by blast
    moreover have "dp_epoch (enqueue_fanout host ev epoch (buffer_event ev d)) = dp_epoch d"
      using buffer_event_spec [OF assms(1), of ev] by (simp add: enqueue_fanout_def Let_def)
    moreover have "children_inv ct \<longrightarrow> children_inv ct'"
      using assms(2) Some p True children_inv_sources(1) [of ct host "trim_right_ws raw"]
      by (auto simp: ingest_one_def Let_def split: if_splits)
    ultimately show ?thesis using assms(2) Some p True
      by (simp add: ingest_one_def Let_def split: if_splits)
  qed (use assms Some p in \<open>auto simp: ingest_one_def\<close>)
qed (use assms in \<open>auto simp: ingest_one_def\<close>)

lemma ingest_loop_inv:
  assumes "buf_inv d" and "ingest_loop host name epoch raws d ct = (d', ct', ok)"
  shows "buf_inv d' \<and> dp_epoch d' = dp_epoch d \<and> (children_inv ct \<longrightarrow> children_inv ct') \<and>
    (dp_epoch d \<noteq> epoch \<longrightarrow> d' = d \<and> ct' = ct)"
  using assms
proof (induction raws arbitrary: d ct)
  case (Cons raw raws)
  obtain d1 ct1 res where one: "ingest_one host name epoch raw d ct = (d1, ct1, res)"
    by (cases "ingest_one host name epoch raw d ct")
  note i = ingest_one_inv [OF Cons.prems(1) one]
  show ?case
  proof (cases "res = IngestStale")
    case True
    then show ?thesis using Cons.prems(2) one i by simp
  next
    case False
    then have "ingest_loop host name epoch raws d1 ct1 = (d', ct', ok)"
      using Cons.prems(2) one by (cases res) simp_all
    then show ?thesis using Cons.IH [of d1 ct1] i by auto
  qed
qed simp

fun fanout_drain :: "nat \<Rightarrow> data_plane \<times> fan_hub \<Rightarrow> data_plane \<times> fan_hub" where
  "fanout_drain 0 st = st"
| "fanout_drain (Suc n) (d, h) = (case fanout_take d h of None \<Rightarrow> (d, h) | Some st \<Rightarrow> fanout_drain n st)"

section \<open>Properties\<close>

text \<open>C31: The gap pull is exact. The binary search of \<open>EventsAfter\<close> returns what a scan of the buffer
  would: every buffered event above the watermark, in ascending order.\<close>

theorem events_after_is_filter:
  assumes "buf_inv d"
  shows "events_after after d = filter (\<lambda>ev. after < ev_seq ev) (dp_ev_buf d)"
proof -
  let ?b = "dp_ev_buf d"
  have srt: "buf_sorted ?b" using assms by (simp add: buf_inv_def)
  define i where "i = sort_search (length ?b) (\<lambda>i. after < ev_seq (?b ! i))"
  note sp = buf_search [OF srt, where x = after, folded i_def]
  have "filter (\<lambda>ev. after < ev_seq ev) (take i ?b) = []"
  proof (rule filter_False, rule ballI)
    fix x
    assume "x \<in> set (take i ?b)"
    then obtain k where "k < length (take i ?b)" "take i ?b ! k = x" unfolding in_set_conv_nth by blast
    then show "\<not> after < ev_seq x" using sp(2) [of k] by auto
  qed
  moreover have "filter (\<lambda>ev. after < ev_seq ev) (drop i ?b) = drop i ?b"
  proof (rule filter_True, rule ballI)
    fix x
    assume "x \<in> set (drop i ?b)"
    then obtain k where "k < length (drop i ?b)" "drop i ?b ! k = x" unfolding in_set_conv_nth by blast
    then show "after < ev_seq x" using sp(3) [of "i + k"] by auto
  qed
  ultimately have "filter (\<lambda>ev. after < ev_seq ev) (take i ?b @ drop i ?b) = drop i ?b" by (simp only: filter_append) simp
  then show ?thesis by (auto simp: events_after_def Let_def i_def)
qed

definition sample_plane :: data_plane where
  "sample_plane = (new_plane 7)\<lparr>dp_ev_buf := [[(''seq'', VU64 3)], [(''seq'', VU64 5)]],
     dp_ev_buf_bytes := events_bytes [[(''seq'', VU64 3)], [(''seq'', VU64 5)]]\<rparr>"

lemma sample_plane_inv: "buf_inv sample_plane"
proof -
  have "events_bytes [[(''seq'', VU64 3)], [(''seq'', VU64 5)]] = 18" by code_simp
  then show ?thesis
    by (simp add: buf_inv_def sample_plane_def new_plane_def buf_sorted_def ev_seq_def ev_buf_high_water_def
        event_buf_cap_def ev_buf_byte_cap_def)
qed

lemma events_after_is_filter_witness: "events_after 3 sample_plane = [[(''seq'', VU64 5)]]"
  using events_after_is_filter [OF sample_plane_inv, of 3] by (simp add: sample_plane_def ev_seq_def)

text \<open>C32: The data plane of a host is bounded, ordered and bound to its epoch. Whatever run of raw
  bodies a host uploads, the gap-pull buffer stays in ascending order, its byte counter is its
  weight, it holds at most 3000 events and 64 MiB and the pre-fan-out queue at most 2048 items; a
  session whose epoch was superseded changes neither the buffer nor the child table.\<close>

theorem ingest_bounded_and_gated:
  assumes "buf_inv d" and "ingest_raw_events current host name epoch raws d ct = (d', ct', ok)"
  shows "sorted (map ev_seq (dp_ev_buf d')) \<and> dp_ev_buf_bytes d' = events_bytes (dp_ev_buf d') \<and>
    length (dp_ev_buf d') \<le> 3000 \<and> dp_ev_buf_bytes d' \<le> 67108864 \<and> length (dp_fanout d') \<le> 2048 \<and>
    (dp_epoch d \<noteq> epoch \<longrightarrow> d' = d \<and> ct' = ct)"
proof -
  have "buf_inv d' \<and> (dp_epoch d \<noteq> epoch \<longrightarrow> d' = d \<and> ct' = ct)"
    using assms ingest_loop_inv [OF assms(1)] by (cases current) (auto simp: ingest_raw_events_def)
  then show ?thesis
    by (simp add: buf_inv_def buf_sorted_def ev_buf_high_water_def event_buf_cap_def ev_buf_byte_cap_def host_fanout_cap_def)
qed

lemma ingest_bounded_and_gated_witness:
  "fst (ingest_raw_events True ''h'' ''n'' 8 [enc_obj [(''seq'', ''6'')]] sample_plane no_children) = sample_plane"
  using ingest_bounded_and_gated [OF sample_plane_inv, of True "''h''" "''n''" 8 "[enc_obj [(''seq'', ''6'')]]" no_children]
  by (cases "ingest_raw_events True ''h'' ''n'' 8 [enc_obj [(''seq'', ''6'')]] sample_plane no_children")
    (auto simp: sample_plane_def new_plane_def)

text \<open>Fan-out delivers the live epoch and nothing else. Draining the pre-fan-out queue broadcasts
  exactly the items of the current epoch, in queue order; an item left over from a retired epoch
  reaches no page, so no stale sequence number arrives behind an epoch reset.\<close>

theorem fanout_delivers_current_epoch:
  "snd (fanout_drain (length (dp_fanout d)) (d, h)) =
     fold (\<lambda>item. broadcast_host (fi_host_id item) (fi_ev item))
       (filter (\<lambda>item. fi_epoch item = dp_epoch d) (dp_fanout d)) h"
proof (induction "dp_fanout d" arbitrary: d h)
  case (Cons item items)
  let ?d = "d\<lparr>dp_fanout := items\<rparr>"
  have "items = dp_fanout ?d" by simp
  note IH = Cons.hyps(1) [OF this]
  show ?case using IH Cons.hyps(2) [symmetric]
    by (simp add: fanout_take_def Let_def fanout_item_current_def)
qed (simp add: fanout_take_def)

text \<open>An accepted event can vanish. \<open>ValidateEvents\<close> reads only the sequence number, while the
  ingest skips, without an error, a body whose other header fields do not decode: the event counts
  as delivered for the watermark, yet no page and no gap pull ever sees it.\<close>

theorem accepted_event_skipped:
  "\<exists>raw. validate_events (zero_frame\<lparr>fr_seq := 6, fr_events := [raw]\<rparr>) = None \<and>
     ingest_raw_events True host name (dp_epoch d) [raw] d ct = (d, ct, True)"
proof -
  let ?raw = "enc_obj [(''seq'', ''6''), (''type'', ''7'')]"
  have "event_seq ?raw = Some 6" "not_object (trim_right_ws ?raw) = False" "unmarshal_meta (trim_right_ws ?raw) = None"
    by code_simp+
  then have "raw_to_event host name ?raw = None" by (simp add: raw_to_event_def)
  then show ?thesis using \<open>event_seq ?raw = Some 6\<close>
    by (intro exI [of _ ?raw]) (simp add: validate_events_def ingest_raw_events_def ingest_one_def zero_frame_def)
qed

end
