(* ===== verification/Prefs.thy ===== *)
theory Prefs
  imports Subscribers
begin

text \<open>
  Browser preferences (\<open>internal/hub/prefs.go\<close>, \<open>userprefs.go\<close> and the preferences part of
  \<open>hub.go\<close>): last-write-wins records with tombstones, the merge, the projection the pages render,
  and the two documents the hub keeps, the root's and one per user. A nil map or slice is the empty
  one. Marshalling the document cannot fail, so the write's error branch has no value here.
  The state record is extended by the user table and the host registry.
\<close>

record prefs_entry =
  pe_v :: string
  pe_at :: int
  pe_site :: string
  pe_del :: bool

type_synonym prefs_entries = "(string, prefs_entry) gomap"

record browser_prefs =
  bp_entries :: prefs_entries
  bp_workspaces :: "string list"
  bp_sessions :: "string list"
  bp_todos :: "(string, string) gomap"
  bp_fe :: "(string, any_val) gomap"

definition prefs_tombstone_horizon :: duration where
  "prefs_tombstone_horizon = 60 * 24 * 60 * minute"

definition prefs_legacy_site :: string where "prefs_legacy_site = ''hub-legacy''"

definition no_prefs :: browser_prefs where
  "no_prefs = \<lparr>bp_entries = [], bp_workspaces = [], bp_sessions = [], bp_todos = [], bp_fe = []\<rparr>"

section \<open>Records\<close>

definition prefs_entry_wins :: "prefs_entry \<Rightarrow> prefs_entry \<Rightarrow> bool" where
  "prefs_entry_wins a b =
     (if pe_at a \<noteq> pe_at b then pe_at a > pe_at b else pe_site a > pe_site b)"

definition put_entry :: "prefs_entries \<Rightarrow> string \<times> prefs_entry \<Rightarrow> prefs_entries" where
  "put_entry dst ke =
     (case ke of (k, e) \<Rightarrow>
        (case gm_get dst k of
           None \<Rightarrow> gm_set k e dst
         | Some cur \<Rightarrow> if prefs_entry_wins e cur then gm_set k e dst else dst))"

definition merge_prefs_entries :: "prefs_entries \<Rightarrow> prefs_entries \<Rightarrow> prefs_entries" where
  "merge_prefs_entries dst src = foldl put_entry dst src"

definition expired_tombstone :: "time \<Rightarrow> prefs_entry \<Rightarrow> bool" where
  "expired_tombstone now e \<longleftrightarrow> pe_del e \<and> pe_at e < unix_milli (now - prefs_tombstone_horizon)"

definition prune_prefs_tombstones :: "prefs_entries \<Rightarrow> time \<Rightarrow> prefs_entries" where
  "prune_prefs_tombstones entries now = filter (\<lambda>(k, e). \<not> expired_tombstone now e) entries"

definition after_prefix :: "string \<Rightarrow> string \<Rightarrow> string option" where
  "after_prefix p k =
     (if length k > length p \<and> take (length p) k = p then Some (drop (length p) k) else None)"

definition project_entry :: "string \<times> prefs_entry \<Rightarrow> browser_prefs \<Rightarrow> browser_prefs" where
  "project_entry ke p =
     (case ke of (k, e) \<Rightarrow>
        if pe_del e then p
        else case after_prefix ''ws:'' k of
               Some cwd \<Rightarrow> p\<lparr>bp_workspaces := bp_workspaces p @ [cwd]\<rparr>
             | None \<Rightarrow>
                 (case after_prefix ''se:'' k of
                    Some i \<Rightarrow> p\<lparr>bp_sessions := bp_sessions p @ [i]\<rparr>
                  | None \<Rightarrow>
                      (case after_prefix ''todo:'' k of
                         Some i \<Rightarrow> p\<lparr>bp_todos := gm_set i (pe_v e) (bp_todos p)\<rparr>
                       | None \<Rightarrow>
                           (case after_prefix ''fe:'' k of
                              Some fld \<Rightarrow> p\<lparr>bp_fe := gm_set fld (VBool (pe_v e = ''true'')) (bp_fe p)\<rparr>
                            | None \<Rightarrow> p))))"

text \<open>\<open>projectPrefsEntries\<close> with \<open>applyPrefsProjection\<close>: the snapshot fields are recomputed.\<close>

definition apply_prefs_projection :: "browser_prefs \<Rightarrow> browser_prefs" where
  "apply_prefs_projection p =
     (let q = fold project_entry (bp_entries p) (no_prefs\<lparr>bp_entries := bp_entries p\<rparr>)
      in q\<lparr>bp_workspaces := sort (bp_workspaces q), bp_sessions := sort (bp_sessions q)\<rparr>)"

definition bool_entry_value :: "bool \<Rightarrow> string" where
  "bool_entry_value b = (if b then ''true'' else ''false'')"

definition entries_from_snapshot :: "browser_prefs \<Rightarrow> int \<Rightarrow> prefs_entries" where
  "entries_from_snapshot p at =
     (let stamp = (\<lambda>key val. gm_set key \<lparr>pe_v = val, pe_at = at, pe_site = prefs_legacy_site, pe_del = False\<rparr>);
          out = fold (\<lambda>cwd. stamp (''ws:'' @ cwd) ''1'') (bp_workspaces p) [];
          out = fold (\<lambda>i. stamp (''se:'' @ i) ''1'') (bp_sessions p) out;
          out = fold (\<lambda>(i, status). stamp (''todo:'' @ i) status) (bp_todos p) out
      in fold (\<lambda>(fld, val). case val of VBool b \<Rightarrow> stamp (''fe:'' @ fld) (bool_entry_value b) | _ \<Rightarrow> id) (bp_fe p) out)"

text \<open>Indexing a Go map with an absent key yields the zero record.\<close>

definition zero_entry :: prefs_entry where
  "zero_entry = \<lparr>pe_v = [], pe_at = 0, pe_site = [], pe_del = False\<rparr>"

definition same_prefs_entries :: "prefs_entries \<Rightarrow> prefs_entries \<Rightarrow> bool" where
  "same_prefs_entries a b \<longleftrightarrow> length a = length b \<and>
     list_all (\<lambda>(k, e). (case gm_get b k of None \<Rightarrow> zero_entry | Some x \<Rightarrow> x) = e) a"

definition sanitize_prefs :: "browser_prefs \<Rightarrow> browser_prefs" where
  "sanitize_prefs p = p\<lparr>bp_entries := filter (\<lambda>(k, e). \<not> (k = [] \<or> pe_site e = [])) (bp_entries p)\<rparr>"

definition clone_prefs :: "browser_prefs \<Rightarrow> browser_prefs" where
  "clone_prefs p = sanitize_prefs p"

definition merge_prefs_doc :: "browser_prefs \<Rightarrow> u64 \<Rightarrow> browser_prefs \<Rightarrow> time \<Rightarrow> browser_prefs \<times> u64 \<times> bool" where
  "merge_prefs_doc current version incoming now =
     (let cp = clone_prefs incoming;
          nxt = merge_prefs_entries [] (bp_entries current);
          nxt = merge_prefs_entries nxt (bp_entries cp);
          nxt = prune_prefs_tombstones nxt now
      in if same_prefs_entries (bp_entries current) nxt then (clone_prefs current, version, False)
         else (apply_prefs_projection (cp\<lparr>bp_entries := nxt\<rparr>), version + 1, True))"

section \<open>The broadcast\<close>

definition enc_entry :: "prefs_entry \<Rightarrow> string" where
  "enc_entry e = enc_obj ([(''v'', enc_str (pe_v e)), (''at'', enc_int (pe_at e)), (''site'', enc_str (pe_site e))] @
     omit_if (\<not> pe_del e) ''d'' (enc_bool (pe_del e)))"

definition enc_map :: "('v \<Rightarrow> string) \<Rightarrow> (string, 'v) gomap \<Rightarrow> string" where
  "enc_map enc m = enc_obj (map (\<lambda>(k, v). (k, enc v)) (sort_key fst m))"

definition enc_prefs :: "browser_prefs \<Rightarrow> string" where
  "enc_prefs p = enc_obj (omit_if (bp_entries p = []) ''entries'' (enc_map enc_entry (bp_entries p)) @
     [(''pinnedWorkspaces'', enc_list (map enc_str (bp_workspaces p))),
      (''pinnedSessions'', enc_list (map enc_str (bp_sessions p)))] @
     omit_if (bp_todos p = []) ''todos'' (enc_map enc_str (bp_todos p)) @
     omit_if (bp_fe p = []) ''fePrefs'' (enc_map enc_any (bp_fe p)))"

definition prefs_changed :: "browser_prefs \<Rightarrow> u64 \<Rightarrow> event" where
  "prefs_changed p version =
     [(''type'', VStr ''prefs_changed''),
      (''params'', VJson (enc_obj [(''prefs'', enc_prefs p), (''version'', enc_u64 version)]))]"

section \<open>The hub's documents\<close>

record prefs_hub =
  ph_prefs :: browser_prefs
  ph_version :: u64
  ph_user_prefs :: "(string, browser_prefs \<times> u64) gomap"
  ph_prefs_file :: string
  ph_user_prefs_file :: string
  ph_disk_ok :: bool
  ph_disk :: "(browser_prefs \<times> u64) option"
  ph_user_disk :: "(string, browser_prefs \<times> u64) gomap option"
  ph_fan :: fan_hub

definition load_doc :: "browser_prefs \<Rightarrow> time \<Rightarrow> browser_prefs" where
  "load_doc p now =
     (let p = sanitize_prefs p
      in if bp_entries p = [] then p\<lparr>bp_entries := entries_from_snapshot p (unix_milli now)\<rparr> else p)"


definition load_user_prefs :: "(string, browser_prefs \<times> u64) gomap option \<Rightarrow> time \<Rightarrow>
    'a prefs_hub_scheme \<Rightarrow> 'a prefs_hub_scheme" where
  "load_user_prefs doc now h =
     (case doc of
        None \<Rightarrow> h
      | Some users \<Rightarrow>
          h\<lparr>ph_user_prefs := fold (\<lambda>(i, p, version). gm_set i (load_doc p now, version)) users (ph_user_prefs h)\<rparr>)"

definition persist_user_prefs_now :: "'a prefs_hub_scheme \<Rightarrow> 'a prefs_hub_scheme" where
  "persist_user_prefs_now h =
     (if ph_user_prefs_file h = [] \<or> \<not> ph_disk_ok h then h
      else h\<lparr>ph_user_disk := Some (map (\<lambda>(i, p, version). (i, clone_prefs p, version)) (ph_user_prefs h))\<rparr>)"

definition prefs :: "'a prefs_hub_scheme \<Rightarrow> browser_prefs \<times> u64" where
  "prefs h = (clone_prefs (ph_prefs h), ph_version h)"

text \<open>
  \<open>SetPrefs\<close> in its two parts: the commit under the lock, which also renders the payload, and the
  write of that payload, which happens after the lock is released.
\<close>

definition set_prefs_commit :: "browser_prefs \<Rightarrow> time \<Rightarrow> 'a prefs_hub_scheme \<Rightarrow>
    'a prefs_hub_scheme \<times> u64 \<times> (browser_prefs \<times> u64) option" where
  "set_prefs_commit p now h =
     (case merge_prefs_doc (ph_prefs h) (ph_version h) (clone_prefs p) now of
        (doc, version, changed) \<Rightarrow>
          if \<not> changed then (h, version, None)
          else let payload = (if ph_prefs_file h = [] then None else Some (doc, version));
                   h = h\<lparr>ph_version := version, ph_prefs := doc\<rparr>;
                   h = h\<lparr>ph_fan := broadcast_to_user ''root'' (prefs_changed (clone_prefs doc) version) (ph_fan h)\<rparr>
               in (h, version, payload))"

definition write_prefs :: "(browser_prefs \<times> u64) option \<Rightarrow> 'a prefs_hub_scheme \<Rightarrow> 'a prefs_hub_scheme" where
  "write_prefs payload h =
     (if payload = None \<or> \<not> ph_disk_ok h then h else h\<lparr>ph_disk := payload\<rparr>)"

definition set_prefs :: "browser_prefs \<Rightarrow> time \<Rightarrow> 'a prefs_hub_scheme \<Rightarrow> 'a prefs_hub_scheme \<times> u64" where
  "set_prefs p now h =
     (case set_prefs_commit p now h of (h, version, payload) \<Rightarrow> (write_prefs payload h, version))"

definition prefs_for :: "string \<Rightarrow> 'a prefs_hub_scheme \<Rightarrow> browser_prefs \<times> u64" where
  "prefs_for owner h =
     (if host_owner_or_default owner = ''root'' then prefs h
      else case gm_get (ph_user_prefs h) owner of
             None \<Rightarrow> (no_prefs, 0)
           | Some (p, version) \<Rightarrow> (clone_prefs p, version))"

definition set_prefs_for :: "string \<Rightarrow> browser_prefs \<Rightarrow> time \<Rightarrow> 'a prefs_hub_scheme \<Rightarrow> 'a prefs_hub_scheme \<times> u64" where
  "set_prefs_for owner p now h =
     (if host_owner_or_default owner = ''root'' then set_prefs p now h
      else case (case gm_get (ph_user_prefs h) owner of None \<Rightarrow> (no_prefs, 0) | Some st \<Rightarrow> st) of
             (cur, version) \<Rightarrow>
               (case merge_prefs_doc cur version p now of
                  (doc, version, changed) \<Rightarrow>
                    if \<not> changed then (h, version)
                    else let h = h\<lparr>ph_user_prefs := gm_set owner (doc, version) (ph_user_prefs h)\<rparr>;
                             h = h\<lparr>ph_fan := broadcast_to_user owner (prefs_changed (clone_prefs doc) version) (ph_fan h)\<rparr>
                         in (persist_user_prefs_now h, version)))"

section \<open>The order of records\<close>

lemma wins_irrefl [simp]: "\<not> prefs_entry_wins e e"
  by (simp add: prefs_entry_wins_def)

lemma wins_asym: "prefs_entry_wins a b \<Longrightarrow> \<not> prefs_entry_wins b a"
  by (auto simp: prefs_entry_wins_def split: if_splits)

lemma wins_trans: "prefs_entry_wins a b \<Longrightarrow> prefs_entry_wins b c \<Longrightarrow> prefs_entry_wins a c"
  by (auto simp: prefs_entry_wins_def split: if_splits)

lemma not_wins_trans: "\<not> prefs_entry_wins a b \<Longrightarrow> \<not> prefs_entry_wins b c \<Longrightarrow> \<not> prefs_entry_wins a c"
  by (auto simp: prefs_entry_wins_def split: if_splits)

lemma wins_stamp: "\<not> prefs_entry_wins a b \<Longrightarrow> \<not> prefs_entry_wins b a \<Longrightarrow> pe_at a = pe_at b \<and> pe_site a = pe_site b"
  by (auto simp: prefs_entry_wins_def split: if_splits)

definition pick :: "prefs_entry option \<Rightarrow> prefs_entry option \<Rightarrow> prefs_entry option" where
  "pick cur new =
     (case new of
        None \<Rightarrow> cur
      | Some e \<Rightarrow> (case cur of None \<Rightarrow> Some e | Some c \<Rightarrow> if prefs_entry_wins e c then Some e else Some c))"

lemma pick_simps [simp]: "pick cur None = cur" "pick None new = new"
  by (simp_all add: pick_def split: option.split)

lemma get_put_entry:
  "gm_get (put_entry dst (k, e)) k' = (if k' = k then pick (gm_get dst k) (Some e) else gm_get dst k')"
  by (auto simp: put_entry_def pick_def gm_get_set split: option.split)

lemma gm_ok_merge [simp, intro]: "gm_ok dst \<Longrightarrow> gm_ok (merge_prefs_entries dst src)"
  unfolding merge_prefs_entries_def
proof (induction src arbitrary: dst)
  case (Cons ke src)
  have "gm_ok (put_entry dst ke)" using Cons.prems by (simp add: put_entry_def split: prod.split option.split)
  from Cons.IH [OF this] show ?case by simp
qed simp

lemma get_merge: "gm_ok src \<Longrightarrow> gm_get (merge_prefs_entries dst src) k = pick (gm_get dst k) (gm_get src k)"
proof (induction src arbitrary: dst)
  case (Cons ke src)
  obtain k' e where ke: "ke = (k', e)" by (cases ke)
  have new: "gm_get src k' = None" "gm_ok src" using Cons.prems by (simp_all add: ke gm_ok_Cons)
  have "gm_get (merge_prefs_entries dst (ke # src)) k = gm_get (merge_prefs_entries (put_entry dst ke) src) k"
    by (simp add: merge_prefs_entries_def)
  also have "\<dots> = pick (gm_get (put_entry dst ke) k) (gm_get src k)" by (rule Cons.IH [OF new(2)])
  finally show ?case using new(1) by (auto simp: ke get_put_entry)
qed (simp add: merge_prefs_entries_def)

lemma gm_ok_prune [simp, intro]: "gm_ok m \<Longrightarrow> gm_ok (prune_prefs_tombstones m now)"
  by (simp add: prune_prefs_tombstones_def)

lemma gm_get_filter:
  "gm_ok m \<Longrightarrow> gm_get (filter (\<lambda>(k, e). P k e) m) k =
     (case gm_get m k of None \<Rightarrow> None | Some e \<Rightarrow> if P k e then Some e else None)"
proof (induction m)
  case (Cons ke m)
  obtain k' e where ke: "ke = (k', e)" by (cases ke)
  have new: "gm_get m k' = None" "gm_ok m" using Cons.prems by (simp_all add: ke gm_ok_Cons)
  show ?case using Cons.IH [OF new(2)] new(1) by (cases "k = k'") (simp_all add: ke split: option.splits)
qed simp

lemma get_prune:
  "gm_ok m \<Longrightarrow> gm_get (prune_prefs_tombstones m now) k =
     (case gm_get m k of None \<Rightarrow> None | Some e \<Rightarrow> if expired_tombstone now e then None else Some e)"
  by (simp add: prune_prefs_tombstones_def gm_get_filter split: option.split)

text \<open>A record that reaches the hub names its key and its writer.\<close>

definition entries_ok :: "prefs_entries \<Rightarrow> bool" where
  "entries_ok m \<longleftrightarrow> gm_ok m \<and> (\<forall>(k, e) \<in> set m. k \<noteq> [] \<and> pe_site e \<noteq> [])"

lemma entries_ok_sanitize: "gm_ok (bp_entries p) \<Longrightarrow> entries_ok (bp_entries (sanitize_prefs p))"
  by (auto simp: entries_ok_def sanitize_prefs_def)


lemma clone_clone [simp]: "clone_prefs (clone_prefs p) = clone_prefs p"
  by (simp add: clone_prefs_def sanitize_prefs_def)

lemma entries_ok_iff:
  "entries_ok m \<longleftrightarrow> gm_ok m \<and> (\<forall>k e. gm_get m k = Some e \<longrightarrow> k \<noteq> [] \<and> pe_site e \<noteq> [])"
proof
  show "gm_ok m \<and> (\<forall>k e. gm_get m k = Some e \<longrightarrow> k \<noteq> [] \<and> pe_site e \<noteq> [])" if "entries_ok m"
    using that by (auto simp: entries_ok_def dest!: gm_get_in)
  show "entries_ok m" if "gm_ok m \<and> (\<forall>k e. gm_get m k = Some e \<longrightarrow> k \<noteq> [] \<and> pe_site e \<noteq> [])"
    unfolding entries_ok_def using that gm_in_get [of m] by blast
qed

lemma pick_cases: "pick a b = Some e \<Longrightarrow> a = Some e \<or> b = Some e"
  by (auto simp: pick_def split: option.splits if_splits)

lemma entries_ok_merge: "entries_ok a \<Longrightarrow> entries_ok b \<Longrightarrow> entries_ok (merge_prefs_entries a b)"
  unfolding entries_ok_iff by (auto simp: get_merge dest!: pick_cases)

lemma entries_ok_prune: "entries_ok m \<Longrightarrow> entries_ok (prune_prefs_tombstones m now)"
  unfolding entries_ok_iff by (auto simp: get_prune split: option.splits if_splits)

lemma entries_ok_Nil [simp]: "entries_ok []" by (simp add: entries_ok_def)

lemma same_entries_iff:
  assumes a: "entries_ok a" and b: "gm_ok b"
  shows "same_prefs_entries a b \<longleftrightarrow> (\<forall>k. gm_get a k = gm_get b k)"
proof
  assume same: "same_prefs_entries a b"
  have hit: "gm_get b k = Some e" if "gm_get a k = Some e" for k e
  proof -
    have "(k, e) \<in> set a" using that by (rule gm_get_in)
    then have "(case gm_get b k of None \<Rightarrow> zero_entry | Some x \<Rightarrow> x) = e" "pe_site e \<noteq> []"
      using same a by (auto simp: same_prefs_entries_def list_all_iff entries_ok_def)
    then show ?thesis by (auto simp: zero_entry_def split: option.splits)
  qed
  have "gm_keys a \<subseteq> gm_keys b"
  proof
    fix k assume "k \<in> gm_keys a"
    then obtain e where "gm_get a k = Some e" unfolding gm_keys_iff by blast
    from hit [OF this] show "k \<in> gm_keys b" unfolding gm_keys_iff by simp
  qed
  moreover have "card (gm_keys a) = card (gm_keys b)"
    using same a b by (simp add: gm_length_keys same_prefs_entries_def entries_ok_def)
  ultimately have keys: "gm_keys a = gm_keys b" by (intro card_subset_eq) simp_all
  show "\<forall>k. gm_get a k = gm_get b k"
  proof
    fix k show "gm_get a k = gm_get b k"
    proof (cases "gm_get a k")
      case None
      then have "k \<notin> gm_keys b" by (simp add: gm_keys_iff flip: keys)
      then show ?thesis using None by (simp only: gm_keys_iff not_not)
    qed (use hit in simp)
  qed
next
  assume eq: "\<forall>k. gm_get a k = gm_get b k"
  have "gm_keys a = gm_keys b" by (rule set_eqI) (simp only: gm_keys_iff eq)
  then have "length a = length b" using gm_length_keys [of a] gm_length_keys [OF b] a by (simp add: entries_ok_def)
  moreover have "gm_get b k = Some e" if "(k, e) \<in> set a" for k e
    using gm_in_get [OF _ that] eq a by (simp add: entries_ok_def)
  ultimately show "same_prefs_entries a b" by (auto simp: same_prefs_entries_def list_all_iff)
qed

section \<open>Convergence\<close>

lemma fold_merge_newest:
  assumes "\<forall>m \<in> set ws. gm_ok m"
  shows "(gm_get (foldl merge_prefs_entries [] ws) k = None \<longleftrightarrow> (\<forall>m \<in> set ws. gm_get m k = None)) \<and>
    (\<forall>e. gm_get (foldl merge_prefs_entries [] ws) k = Some e \<longrightarrow>
       (\<exists>m \<in> set ws. gm_get m k = Some e) \<and> (\<forall>m \<in> set ws. \<forall>e'. gm_get m k = Some e' \<longrightarrow> \<not> prefs_entry_wins e' e))"
  using assms
proof (induction ws rule: rev_induct)
  case (snoc m ws)
  let ?acc = "gm_get (foldl merge_prefs_entries [] ws) k"
  have IH: "?acc = None \<longleftrightarrow> (\<forall>m \<in> set ws. gm_get m k = None)"
    "\<And>e. ?acc = Some e \<Longrightarrow> (\<exists>m \<in> set ws. gm_get m k = Some e) \<and>
       (\<forall>m \<in> set ws. \<forall>e'. gm_get m k = Some e' \<longrightarrow> \<not> prefs_entry_wins e' e)"
    using snoc by auto
  have step: "gm_get (foldl merge_prefs_entries [] (ws @ [m])) k = pick ?acc (gm_get m k)"
    using snoc.prems by (simp add: get_merge)
  show ?case
  proof (cases "gm_get m k")
    case None
    then show ?thesis using IH step by auto
  next
    case (Some e)
    show ?thesis
    proof (cases ?acc)
      case None
      then show ?thesis using IH(1) step Some by (auto simp: pick_def)
    next
      case acc: (Some c)
      note c = IH(2) [OF acc]
      show ?thesis
      proof (cases "prefs_entry_wins e c")
        case True
        then have "\<not> prefs_entry_wins e' e" if "\<not> prefs_entry_wins e' c" for e'
          using wins_asym [OF True] not_wins_trans that by blast
        then show ?thesis using step acc Some c True by (auto simp: pick_def)
      next
        case False
        then show ?thesis using step acc Some c by (auto simp: pick_def)
      qed
    qed
  qed
qed simp

text \<open>The merge alone: the order and the number of the writes do not matter.\<close>

lemma merges_converge:
  assumes "set ws = set ws'" and "\<forall>m \<in> set ws. gm_ok m"
    and "\<forall>m \<in> set ws. \<forall>m' \<in> set ws. \<forall>e e'. gm_get m k = Some e \<and> gm_get m' k = Some e' \<and>
       pe_at e = pe_at e' \<and> pe_site e = pe_site e' \<longrightarrow> e = e'"
  shows "gm_get (foldl merge_prefs_entries [] ws) k = gm_get (foldl merge_prefs_entries [] ws') k"
proof (cases "gm_get (foldl merge_prefs_entries [] ws) k")
  case None
  then show ?thesis using fold_merge_newest [of ws k] fold_merge_newest [of ws' k] assms(1,2) by simp
next
  case (Some e)
  note n = fold_merge_newest [OF assms(2), of k]
  have ok': "\<forall>m \<in> set ws'. gm_ok m" using assms(1,2) by simp
  note n' = fold_merge_newest [OF ok', of k]
  obtain m where m: "m \<in> set ws" "gm_get m k = Some e"
    and top: "\<And>m' e'. m' \<in> set ws \<Longrightarrow> gm_get m' k = Some e' \<Longrightarrow> \<not> prefs_entry_wins e' e" using n Some by blast
  have "gm_get (foldl merge_prefs_entries [] ws') k \<noteq> None" using n' m assms(1) by force
  then obtain e' where e': "gm_get (foldl merge_prefs_entries [] ws') k = Some e'" by blast
  obtain m' where m': "m' \<in> set ws'" "gm_get m' k = Some e'"
    and top': "\<And>m e. m \<in> set ws' \<Longrightarrow> gm_get m k = Some e \<Longrightarrow> \<not> prefs_entry_wins e e'" using n' e' by blast
  have in': "m' \<in> set ws" "m \<in> set ws'" using m(1) m'(1) assms(1) by simp_all
  have "pe_at e = pe_at e' \<and> pe_site e = pe_site e'"
    by (rule wins_stamp [OF top' [OF in'(2) m(2)] top [OF in'(1) m'(2)]])
  then have "e = e'" using assms(3) m m'(2) in'(1) by blast
  then show ?thesis using Some e' by simp
qed

definition sample_entry :: "string \<Rightarrow> int \<Rightarrow> bool \<Rightarrow> prefs_entry" where
  "sample_entry site at del = \<lparr>pe_v = ''1'', pe_at = at, pe_site = site, pe_del = del\<rparr>"

text \<open>Ties break convergence. Two different records of one key with the same time and site, as one
  browser writes when it toggles an item twice in a millisecond, leave each replica with the record
  it saw first, so the merge is not commutative.\<close>

theorem prefs_tie_not_commutative:
  "\<exists>a b. gm_ok a \<and> gm_ok b \<and> entries_ok a \<and> entries_ok b \<and>
     gm_get (merge_prefs_entries a b) ''se:a'' = Some (sample_entry ''x'' 1 False) \<and>
     gm_get (merge_prefs_entries b a) ''se:a'' = Some (sample_entry ''x'' 1 True)"
  by (rule exI [of _ "[(''se:a'', sample_entry ''x'' 1 False)]"], rule exI [of _ "[(''se:a'', sample_entry ''x'' 1 True)]"])
    (simp add: entries_ok_def gm_ok_def get_merge pick_def prefs_entry_wins_def sample_entry_def)

section \<open>Writes of the document\<close>

definition doc_next :: "prefs_entries \<Rightarrow> browser_prefs \<Rightarrow> time \<Rightarrow> prefs_entries" where
  "doc_next cur p now =
     prune_prefs_tombstones (merge_prefs_entries (merge_prefs_entries [] cur) (bp_entries (clone_prefs p))) now"

lemma project_entries [simp]: "bp_entries (project_entry ke p) = bp_entries p"
  by (simp add: project_entry_def split: prod.split option.split)

lemma projection_entries [simp]: "bp_entries (apply_prefs_projection p) = bp_entries p"
proof -
  have "bp_entries (fold project_entry kes q) = bp_entries q" for kes q
    by (induction kes arbitrary: q) simp_all
  then show ?thesis by (simp add: apply_prefs_projection_def Let_def)
qed

lemma merge_prefs_doc_cases:
  assumes "merge_prefs_doc cur version p now = (doc, v, changed)"
  obtains (Same) "same_prefs_entries (bp_entries cur) (doc_next (bp_entries cur) p now)" "v = version" "\<not> changed"
  | (Changed) "\<not> same_prefs_entries (bp_entries cur) (doc_next (bp_entries cur) p now)" "v = version + 1" "changed"
      "bp_entries doc = doc_next (bp_entries cur) p now"
  using assms by (auto simp: merge_prefs_doc_def Let_def doc_next_def split: if_splits)

lemma get_doc_next:
  assumes "entries_ok cur" and "gm_ok (bp_entries p)"
  shows "gm_get (doc_next cur p now) k =
    (case pick (gm_get cur k) (gm_get (bp_entries (clone_prefs p)) k) of
       None \<Rightarrow> None | Some e \<Rightarrow> if expired_tombstone now e then None else Some e)"
    and "entries_ok (doc_next cur p now)"
proof -
  have src: "entries_ok (bp_entries (clone_prefs p))"
    using assms(2) by (simp add: clone_prefs_def entries_ok_sanitize)
  then have ok: "gm_ok cur" "gm_ok (bp_entries (clone_prefs p))" using assms(1) by (simp_all add: entries_ok_def)
  then show "gm_get (doc_next cur p now) k =
    (case pick (gm_get cur k) (gm_get (bp_entries (clone_prefs p)) k) of
       None \<Rightarrow> None | Some e \<Rightarrow> if expired_tombstone now e then None else Some e)"
    by (simp add: doc_next_def get_prune get_merge)
  show "entries_ok (doc_next cur p now)"
    unfolding doc_next_def by (intro entries_ok_prune entries_ok_merge entries_ok_Nil assms(1) src)
qed

lemma doc_next_settled:
  assumes "entries_ok cur" and "gm_ok (bp_entries p)"
    and "\<forall>k e. gm_get cur k = Some e \<longrightarrow> \<not> expired_tombstone now e"
  shows "gm_get (doc_next (doc_next cur p now) p now) k = gm_get (doc_next cur p now) k"
proof -
  have le: "\<not> prefs_entry_wins e e" for e by simp
  show ?thesis
    using assms(3) unfolding get_doc_next(1) [OF get_doc_next(2) [OF assms(1,2)] assms(2)] get_doc_next(1) [OF assms(1,2)]
    by (cases "gm_get cur k"; cases "gm_get (bp_entries (clone_prefs p)) k") (auto simp: pick_def)
qed

lemma set_prefs_cases:
  assumes "set_prefs p now h = (h1, v1)"
  obtains (Same) "same_prefs_entries (bp_entries (ph_prefs h)) (doc_next (bp_entries (ph_prefs h)) p now)" "h1 = h" "v1 = ph_version h"
  | (Changed) "\<not> same_prefs_entries (bp_entries (ph_prefs h)) (doc_next (bp_entries (ph_prefs h)) p now)"
      "v1 = ph_version h + 1" "ph_version h1 = v1"
      "bp_entries (ph_prefs h1) = doc_next (bp_entries (ph_prefs h)) p now"
      "ph_prefs_file h \<noteq> [] \<and> ph_disk_ok h \<longrightarrow> ph_disk h1 = Some (ph_prefs h1, v1)"
      "ph_user_prefs h1 = ph_user_prefs h"
proof -
  obtain doc v changed where m: "merge_prefs_doc (ph_prefs h) (ph_version h) (clone_prefs p) now = (doc, v, changed)"
    by (cases "merge_prefs_doc (ph_prefs h) (ph_version h) (clone_prefs p) now")
  have nx: "doc_next cur (clone_prefs p) now = doc_next cur p now" for cur by (simp add: doc_next_def)
  from m show thesis
  proof (cases rule: merge_prefs_doc_cases)
    case 1: Same
    show thesis by (rule Same) (use assms m 1 in \<open>auto simp: set_prefs_def set_prefs_commit_def write_prefs_def nx\<close>)
  next
    case 2: Changed
    show thesis by (rule Changed) (use assms m 2 in \<open>auto simp: set_prefs_def set_prefs_commit_def write_prefs_def nx Let_def\<close>)
  qed
qed


definition outlived :: "time \<Rightarrow> prefs_entry \<Rightarrow> bool" where
  "outlived now e \<longleftrightarrow> pe_del e \<and> pe_at e < unix_milli now - 60 * 24 * 60 * 60 * 1000"


lemma expired_outlived: "expired_tombstone now e \<longleftrightarrow> outlived now e"
proof -
  have "now - prefs_tombstone_horizon = now + (- (60 * 24 * 60 * 60 * 1000)) * millisecond"
    by (simp add: prefs_tombstone_horizon_def minute_def second_def millisecond_def)
  then have "unix_milli (now - prefs_tombstone_horizon) = unix_milli now - 60 * 24 * 60 * 60 * 1000"
    by (simp only: unix_milli_def) (simp add: millisecond_def)
  then show ?thesis by (simp add: expired_tombstone_def outlived_def)
qed


definition named_entry :: "browser_prefs \<Rightarrow> string \<Rightarrow> prefs_entry option" where
  "named_entry p k = (case gm_get (bp_entries p) k of None \<Rightarrow> None | Some e \<Rightarrow> if k \<noteq> [] \<and> pe_site e \<noteq> [] then Some e else None)"

lemma get_clone: "gm_ok (bp_entries p) \<Longrightarrow> gm_get (bp_entries (clone_prefs p)) k = named_entry p k"
  by (simp add: clone_prefs_def sanitize_prefs_def gm_get_filter named_entry_def split: option.split)




definition sample_prefs_hub :: prefs_hub where
  "sample_prefs_hub = \<lparr>ph_prefs = no_prefs, ph_version = 0, ph_user_prefs = [], ph_prefs_file = ''prefs.json'',
     ph_user_prefs_file = [], ph_disk_ok = True, ph_disk = None, ph_user_disk = None, ph_fan = new_fan_hub\<rparr>"

definition pin_doc :: "string \<Rightarrow> int \<Rightarrow> browser_prefs" where
  "pin_doc k at = no_prefs\<lparr>bp_entries := [(k, sample_entry ''x'' at False)]\<rparr>"


section \<open>Convergence of hubs\<close>

definition set_prefs_run :: "(time \<times> browser_prefs) list \<Rightarrow> 'a prefs_hub_scheme \<Rightarrow> 'a prefs_hub_scheme" where
  "set_prefs_run ws h = foldl (\<lambda>h (now, p). fst (set_prefs p now h)) h ws"

lemma set_prefs_get:
  assumes "entries_ok (bp_entries (ph_prefs h))" and "gm_ok (bp_entries p)"
  shows "gm_get (bp_entries (ph_prefs (fst (set_prefs p now h)))) k = gm_get (doc_next (bp_entries (ph_prefs h)) p now) k"
    and "entries_ok (bp_entries (ph_prefs (fst (set_prefs p now h))))"
proof -
  obtain h1 v1 where w: "set_prefs p now h = (h1, v1)" by (cases "set_prefs p now h")
  note ok = get_doc_next(2) [OF assms, of now]
  have "gm_get (bp_entries (ph_prefs h1)) k = gm_get (doc_next (bp_entries (ph_prefs h)) p now) k \<and> entries_ok (bp_entries (ph_prefs h1))"
    using w
  proof (cases rule: set_prefs_cases)
    case Same
    then show ?thesis using same_entries_iff [OF assms(1)] ok assms(1) by (simp add: entries_ok_def)
  qed (use ok in simp)
  then show "gm_get (bp_entries (ph_prefs (fst (set_prefs p now h)))) k = gm_get (doc_next (bp_entries (ph_prefs h)) p now) k"
    "entries_ok (bp_entries (ph_prefs (fst (set_prefs p now h))))" using w by simp_all
qed

text \<open>While no deletion is outlived, a hub's document is the merge of what was written.\<close>

lemma run_is_merge:
  assumes "bp_entries (ph_prefs h) = []" and "\<forall>w \<in> set ws. gm_ok (bp_entries (snd w))"
    and "\<And>w w' k e. w \<in> set ws \<Longrightarrow> w' \<in> set ws \<Longrightarrow> gm_get (bp_entries (snd w)) k = Some e \<Longrightarrow> \<not> outlived (fst w') e"
  shows "entries_ok (bp_entries (ph_prefs (set_prefs_run ws h))) \<and>
    (\<forall>k. gm_get (bp_entries (ph_prefs (set_prefs_run ws h))) k =
       gm_get (foldl merge_prefs_entries [] (map (\<lambda>w. bp_entries (clone_prefs (snd w))) ws)) k)"
  using assms(2,3)
proof (induction ws rule: rev_induct)
  case Nil
  then show ?case using assms(1) by (simp add: set_prefs_run_def)
next
  case (snoc w ws)
  obtain now p where w: "w = (now, p)" by (cases w)
  let ?h = "set_prefs_run ws h" and ?m = "\<lambda>ws. foldl merge_prefs_entries [] (map (\<lambda>w. bp_entries (clone_prefs (snd w))) ws)"
  have IH: "entries_ok (bp_entries (ph_prefs ?h))" "\<And>k. gm_get (bp_entries (ph_prefs ?h)) k = gm_get (?m ws) k"
  proof -
    have "entries_ok (bp_entries (ph_prefs ?h)) \<and> (\<forall>k. gm_get (bp_entries (ph_prefs ?h)) k = gm_get (?m ws) k)"
    proof (rule snoc.IH)
      show "\<not> outlived (fst w2) e" if "w1 \<in> set ws" "w2 \<in> set ws" "gm_get (bp_entries (snd w1)) k = Some e" for w1 w2 k e
        by (rule snoc.prems(2) [of w1 w2 k]) (use that in simp_all)
    qed (use snoc.prems(1) in simp)
    then show "entries_ok (bp_entries (ph_prefs ?h))" "\<And>k. gm_get (bp_entries (ph_prefs ?h)) k = gm_get (?m ws) k" by simp_all
  qed
  have p: "gm_ok (bp_entries p)" using snoc.prems(1) w by simp
  have ok: "\<forall>m \<in> set (map (\<lambda>w. bp_entries (clone_prefs (snd w))) (ws @ [w])). gm_ok m"
    using snoc.prems(1) by (auto simp: clone_prefs_def sanitize_prefs_def)
  have fresh: "\<not> expired_tombstone now e" if e: "gm_get (?m (ws @ [w])) k = Some e" for k e
  proof -
    have "\<exists>m \<in> set (map (\<lambda>w. bp_entries (clone_prefs (snd w))) (ws @ [w])). gm_get m k = Some e"
      using fold_merge_newest [OF ok, of k] e by blast
    then obtain w' where "w' \<in> set (ws @ [w])" "gm_get (bp_entries (clone_prefs (snd w'))) k = Some e"
      unfolding set_map by blast
    then have "gm_get (bp_entries (snd w')) k = Some e" "w' \<in> set (ws @ [w])"
      using snoc.prems(1) by (auto simp: get_clone named_entry_def split: option.splits if_splits)
    then show ?thesis using snoc.prems(2) [of w' w] w by (simp add: expired_outlived)
  qed
  have m: "gm_get (?m (ws @ [w])) k = pick (gm_get (?m ws) k) (gm_get (bp_entries (clone_prefs p)) k)" for k
    using ok w by (simp add: get_merge)
  have "gm_get (doc_next (bp_entries (ph_prefs ?h)) p now) k = gm_get (?m (ws @ [w])) k" for k
    using fresh [of k] unfolding get_doc_next(1) [OF IH(1) p] IH(2) m by (auto split: option.splits)
  then show ?case using set_prefs_get [OF IH(1) p] w by (simp add: set_prefs_run_def)
qed

text \<open>C21: Preferences converge. Two hubs that took in the same documents, in any order, at any times and
  however often each was repeated, hold the same record for every key, as long as no two different
  records of a key share their stamp (time and site) and no deletion among them outlives its 60 days
  at a write, when a hub forgets it.\<close>

theorem prefs_converge:
  assumes "bp_entries (ph_prefs h) = []" and "bp_entries (ph_prefs h') = []" and "snd ` set ws = snd ` set ws'"
    and "\<forall>p \<in> snd ` set ws. gm_ok (bp_entries p) \<and>
       (\<forall>k e. gm_get (bp_entries p) k = Some e \<longrightarrow> (\<forall>now \<in> fst ` set (ws @ ws'). \<not> outlived now e))"
    and "\<forall>p \<in> snd ` set ws. \<forall>p' \<in> snd ` set ws. \<forall>e e'. gm_get (bp_entries p) k = Some e \<and> gm_get (bp_entries p') k = Some e' \<and>
       pe_at e = pe_at e' \<and> pe_site e = pe_site e' \<longrightarrow> e = e'"
  shows "gm_get (bp_entries (ph_prefs (set_prefs_run ws h))) k = gm_get (bp_entries (ph_prefs (set_prefs_run ws' h'))) k"
proof -
  let ?c = "\<lambda>w :: time \<times> browser_prefs. bp_entries (clone_prefs (snd w))"
  have doc: "snd w \<in> snd ` set ws" if "w \<in> set ws \<or> w \<in> set ws'" for w using that assms(3) by auto
  have good: "\<forall>w \<in> set us. gm_ok (bp_entries (snd w))" if "us = ws \<or> us = ws'" for us
    using that assms(4) doc by blast
  have live: "\<not> outlived (fst w') e" if "us = ws \<or> us = ws'" "w \<in> set us" "w' \<in> set us" "gm_get (bp_entries (snd w)) k = Some e" for us w w' k e
  proof -
    have "snd w \<in> snd ` set ws" using that(1,2) doc by metis
    moreover have "fst w' \<in> fst ` set (ws @ ws')" using that(1,3) by auto
    ultimately show ?thesis using assms(4) that(4) by blast
  qed
  have stamp: "e = e'" if e: "gm_get (?c w) k = Some e" "gm_get (?c w') k = Some e'" "pe_at e = pe_at e'" "pe_site e = pe_site e'"
    and w: "w \<in> set ws" "w' \<in> set ws" for w w' e e'
  proof -
    have "gm_ok (bp_entries (snd w))" "gm_ok (bp_entries (snd w'))" using good [of ws] w by simp_all
    then have "gm_get (bp_entries (snd w)) k = Some e" "gm_get (bp_entries (snd w')) k = Some e'"
      using e(1,2) by (auto simp: get_clone named_entry_def split: option.splits if_splits)
    then show ?thesis using assms(5) e(3,4) w by blast
  qed
  have "gm_get (foldl merge_prefs_entries [] (map ?c ws)) k = gm_get (foldl merge_prefs_entries [] (map ?c ws')) k"
  proof (rule merges_converge)
    have "?c ` set us = (\<lambda>p. bp_entries (clone_prefs p)) ` snd ` set us" for us by (simp only: image_image)
    then show "set (map ?c ws) = set (map ?c ws')" using assms(3) by (simp only: list.set_map)
    show "\<forall>m \<in> set (map ?c ws). gm_ok m" using good [of ws] by (auto simp: clone_prefs_def sanitize_prefs_def)
  qed (use stamp in auto)
  then show ?thesis using run_is_merge [OF assms(1) good live [of ws]] run_is_merge [OF assms(2) good live [of ws']] by simp
qed

lemma prefs_converge_witness:
  "gm_get (bp_entries (ph_prefs (set_prefs_run [(1, pin_doc ''se:a'' 5), (2, pin_doc ''se:a'' 6)] sample_prefs_hub))) ''se:a'' =
   gm_get (bp_entries (ph_prefs (set_prefs_run [(3, pin_doc ''se:a'' 6), (4, pin_doc ''se:a'' 5), (5, pin_doc ''se:a'' 6)] sample_prefs_hub))) ''se:a''"
  by (rule prefs_converge) (auto simp: sample_prefs_hub_def no_prefs_def pin_doc_def sample_entry_def gm_ok_def outlived_def)

section \<open>The file\<close>



end
