(* ===== verification/Users.thy ===== *)
theory Users
  imports Prefs Guests
begin

text \<open>
  The user table (\<open>internal/hub/users.go\<close>): accounts known by the hash of their token, every write
  with its persistence, and the per-user pairing codes that live in memory beside it. The digest
  \<open>crypto/sha256.Sum256\<close> is the parameter \<open>sha\<close>; the random source is the list of its draws.
\<close>

record user =
  us_id :: string
  us_label :: string
  us_token_hash :: string
  us_created_at :: int
  us_last_used_at :: int

record user_pair_code =
  uc_owner_id :: string
  uc_expires :: time

record user_hub = prefs_hub +
  uh_users :: "user list"
  uh_users_file :: string
  uh_persisted_at :: time
  uh_users_disk :: "user list option"
  uh_pair_codes :: "(string, user_pair_code) gomap"
  uh_code_by_owner :: "(string, string) gomap"

definition max_users :: nat where "max_users = 256"

datatype user_error = ErrUserUnknown | ErrUserLimit | ErrUserTokenWeak | ErrUserTokenTaken

section \<open>Persistence\<close>

definition load_users :: "user list option \<Rightarrow> 'a user_hub_scheme \<Rightarrow> 'a user_hub_scheme" where
  "load_users doc h =
     (case doc of
        None \<Rightarrow> h
      | Some us \<Rightarrow> h\<lparr>uh_users := filter (\<lambda>u. \<not> (us_id u = [] \<or> us_token_hash u = [])) us\<rparr>)"

definition persist_users_now :: "time \<Rightarrow> 'a user_hub_scheme \<Rightarrow> 'a user_hub_scheme" where
  "persist_users_now now h =
     (if uh_users_file h = [] then h
      else let h = h\<lparr>uh_persisted_at := now\<rparr>
           in if ph_disk_ok h then h\<lparr>uh_users_disk := Some (uh_users h)\<rparr> else h)"

section \<open>Ids and tokens\<close>

definition new_user_id :: "bytes \<Rightarrow> string" where
  "new_user_id b = ''u_'' @ take 6 (hex_encode b)"

definition new_user_token :: "bytes \<Rightarrow> string" where
  "new_user_token b = ''u_'' @ base64_raw_url b"

definition hash_user_token :: "(string \<Rightarrow> bytes) \<Rightarrow> string \<Rightarrow> string" where
  "hash_user_token sha token = hex_encode (sha token)"

definition normalize_user_token :: "string \<Rightarrow> user_error + string" where
  "normalize_user_token token =
     (let token = trim_space token
      in if length token < 16 \<or> length token > 256 then Inl ErrUserTokenWeak
         else if list_ex is_ws token then Inl ErrUserTokenWeak
         else Inr token)"

text \<open>The loop that draws until the candidate is free; \<open>None\<close> when the draws run out.\<close>

fun draw_fresh :: "('b \<Rightarrow> 'c) \<Rightarrow> ('c \<Rightarrow> bool) \<Rightarrow> 'b list \<Rightarrow> 'c option" where
  "draw_fresh mk taken [] = None"
| "draw_fresh mk taken (b # bs) = (if taken (mk b) then draw_fresh mk taken bs else Some (mk b))"

section \<open>Lookups\<close>

definition users :: "'a user_hub_scheme \<Rightarrow> user list" where
  "users h = sort_key (\<lambda>u. (us_created_at u, us_id u)) (uh_users h)"

definition user_by_id :: "string \<Rightarrow> 'a user_hub_scheme \<Rightarrow> user option" where
  "user_by_id i h = find_by us_id i (uh_users h)"

definition user_by_token :: "(string \<Rightarrow> bytes) \<Rightarrow> string \<Rightarrow> time \<Rightarrow> 'a user_hub_scheme \<Rightarrow> 'a user_hub_scheme \<times> user option" where
  "user_by_token sha token now h =
     (let token = trim_space token
      in if token = [] then (h, None)
         else let hash = hash_user_token sha token
              in case find_by us_token_hash hash (uh_users h) of
                   None \<Rightarrow> (h, None)
                 | Some hit \<Rightarrow>
                     let touch = (\<lambda>u. u\<lparr>us_last_used_at := unix_seconds now\<rparr>);
                         due = (now - uh_persisted_at h \<ge> minute);
                         h = h\<lparr>uh_users := update_first (\<lambda>u. us_token_hash u = hash) touch (uh_users h)\<rparr>
                     in (if due then persist_users_now now h else h, Some (touch hit)))"

definition user_id_taken :: "string \<Rightarrow> user list \<Rightarrow> bool" where
  "user_id_taken i us \<longleftrightarrow> list_ex (\<lambda>u. us_id u = i) us"

definition user_exists :: "string \<Rightarrow> user list \<Rightarrow> bool" where
  "user_exists i us \<longleftrightarrow> list_ex (\<lambda>u. us_id u = i) us"

definition token_hash_taken :: "string \<Rightarrow> string \<Rightarrow> user list \<Rightarrow> bool" where
  "token_hash_taken hash except us \<longleftrightarrow> list_ex (\<lambda>u. us_id u \<noteq> except \<and> us_token_hash u = hash) us"

section \<open>Write operations\<close>

definition default_user_label :: string where
  "default_user_label = [CHR 0xE7, CHR 0x94, CHR 0xA8, CHR 0xE6, CHR 0x88, CHR 0xB7]"

definition create_user :: "(string \<Rightarrow> bytes) \<Rightarrow> string \<Rightarrow> time \<Rightarrow> bytes list \<Rightarrow> bytes list \<Rightarrow> 'a user_hub_scheme \<Rightarrow>
    ('a user_hub_scheme \<times> (user_error + user \<times> string)) option" where
  "create_user sha label now token_draws id_draws h =
     (let label = (if trim_space label = [] then default_user_label else trim_space label)
      in if length (uh_users h) \<ge> max_users then Some (h, Inl ErrUserLimit)
         else case draw_fresh new_user_token (\<lambda>t. token_hash_taken (hash_user_token sha t) [] (uh_users h)) token_draws of
                None \<Rightarrow> None
              | Some token \<Rightarrow>
                  (case draw_fresh new_user_id (\<lambda>i. user_id_taken i (uh_users h)) id_draws of
                     None \<Rightarrow> None
                   | Some i \<Rightarrow>
                       let u = \<lparr>us_id = i, us_label = label, us_token_hash = hash_user_token sha token,
                                us_created_at = unix_seconds now, us_last_used_at = 0\<rparr>;
                           h = h\<lparr>uh_users := uh_users h @ [u]\<rparr>
                       in Some (persist_users_now now h, Inr (u, token))))"

definition put_token_hash :: "string \<Rightarrow> string \<Rightarrow> time \<Rightarrow> 'a user_hub_scheme \<Rightarrow> 'a user_hub_scheme" where
  "put_token_hash i hash now h =
     persist_users_now now
       (h\<lparr>uh_users := update_first (\<lambda>u. us_id u = i) (\<lambda>u. u\<lparr>us_token_hash := hash\<rparr>) (uh_users h)\<rparr>)"

definition reset_user_token :: "(string \<Rightarrow> bytes) \<Rightarrow> string \<Rightarrow> time \<Rightarrow> bytes list \<Rightarrow> 'a user_hub_scheme \<Rightarrow>
    ('a user_hub_scheme \<times> (user_error + user \<times> string)) option" where
  "reset_user_token sha i now token_draws h =
     (case user_by_id i h of
        None \<Rightarrow> Some (h, Inl ErrUserUnknown)
      | Some hit \<Rightarrow>
          (case draw_fresh new_user_token (\<lambda>t. token_hash_taken (hash_user_token sha t) i (uh_users h)) token_draws of
             None \<Rightarrow> None
           | Some token \<Rightarrow>
               let hash = hash_user_token sha token
               in Some (put_token_hash i hash now h, Inr (hit\<lparr>us_token_hash := hash\<rparr>, token))))"

definition set_user_token :: "(string \<Rightarrow> bytes) \<Rightarrow> string \<Rightarrow> string \<Rightarrow> time \<Rightarrow> 'a user_hub_scheme \<Rightarrow>
    'a user_hub_scheme \<times> (user_error + user)" where
  "set_user_token sha i token now h =
     (case normalize_user_token token of
        Inl e \<Rightarrow> (h, Inl e)
      | Inr token \<Rightarrow>
          (case user_by_id i h of
             None \<Rightarrow> (h, Inl ErrUserUnknown)
           | Some hit \<Rightarrow>
               let hash = hash_user_token sha token
               in if token_hash_taken hash i (uh_users h) then (h, Inl ErrUserTokenTaken)
                  else (put_token_hash i hash now h, Inr (hit\<lparr>us_token_hash := hash\<rparr>))))"

definition drop_owner_code :: "string \<Rightarrow> 'a user_hub_scheme \<Rightarrow> 'a user_hub_scheme" where
  "drop_owner_code owner h =
     (case gm_get (uh_code_by_owner h) owner of
        None \<Rightarrow> h
      | Some c \<Rightarrow>
          if c = [] then h
          else h\<lparr>uh_pair_codes := gm_del c (uh_pair_codes h), uh_code_by_owner := gm_del owner (uh_code_by_owner h)\<rparr>)"

definition delete_user :: "string \<Rightarrow> time \<Rightarrow> 'a user_hub_scheme \<Rightarrow> 'a user_hub_scheme \<times> user_error option" where
  "delete_user i now h =
     (case user_by_id i h of
        None \<Rightarrow> (h, Some ErrUserUnknown)
      | Some _ \<Rightarrow>
          let h = h\<lparr>uh_users := remove_first (\<lambda>u. us_id u = i) (uh_users h)\<rparr>;
              h = h\<lparr>ph_user_prefs := gm_del i (ph_user_prefs h)\<rparr>;
              h = drop_owner_code i h;
              h = persist_users_now now h;
              h = persist_user_prefs_now h
          in (h\<lparr>ph_fan := drop_user_subscribers i (ph_fan h)\<rparr>, None))"

section \<open>The table is a keyed table\<close>

definition modify_user :: "string \<Rightarrow> (user \<Rightarrow> user) \<Rightarrow> user list \<Rightarrow> user list" where
  "modify_user i f us = update_first (\<lambda>u. us_id u = i) f us"

definition append_user :: "user \<Rightarrow> user list \<Rightarrow> user list" where
  "append_user u us = us @ [u]"

definition cut_user :: "string \<Rightarrow> user list \<Rightarrow> user list" where
  "cut_user i us = remove_first (\<lambda>u. us_id u = i) us"

definition user_ids_ok :: "user list \<Rightarrow> bool" where
  "user_ids_ok us \<longleftrightarrow> distinct (map us_id us)"

interpretation user_table: keyed_table us_id "find_by us_id" modify_user append_user cut_user user_ids_ok
proof -
  have eqs: "modify_user = (\<lambda>k. update_first (\<lambda>r. us_id r = k))" "append_user = (\<lambda>r rs. rs @ [r])"
    "cut_user = (\<lambda>k. remove_first (\<lambda>r. us_id r = k))" "user_ids_ok = (\<lambda>rs. distinct (map us_id rs))"
    by (simp_all add: modify_user_def append_user_def cut_user_def user_ids_ok_def fun_eq_iff)
  show "keyed_table us_id (find_by us_id) modify_user append_user cut_user user_ids_ok"
    unfolding eqs by (rule slice_keyed_table)
qed

section \<open>The table through its operations\<close>

definition unseen :: "user \<Rightarrow> user" where
  "unseen u = u\<lparr>us_last_used_at := 0\<rparr>"

definition users_on_disk :: "'a user_hub_scheme \<Rightarrow> bool" where
  "users_on_disk h \<longleftrightarrow> uh_users_file h \<noteq> [] \<and> ph_disk_ok h \<longrightarrow>
     map_option (map unseen) (uh_users_disk h) = Some (map unseen (uh_users h))"

definition users_ok :: "user list \<Rightarrow> bool" where
  "users_ok us \<longleftrightarrow> user_ids_ok us \<and> distinct (map us_token_hash us) \<and> length us \<le> max_users \<and>
     (\<forall>u \<in> set us. us_id u \<noteq> [])"

definition users_inv :: "'a user_hub_scheme \<Rightarrow> bool" where
  "users_inv h \<longleftrightarrow> users_ok (uh_users h) \<and> users_on_disk h"

lemma persist_users_frame [simp]:
  "uh_users (persist_users_now now h) = uh_users h" "uh_pair_codes (persist_users_now now h) = uh_pair_codes h"
  "uh_code_by_owner (persist_users_now now h) = uh_code_by_owner h" "ph_fan (persist_users_now now h) = ph_fan h"
  "ph_user_prefs (persist_users_now now h) = ph_user_prefs h" "uh_users_file (persist_users_now now h) = uh_users_file h"
  "ph_disk_ok (persist_users_now now h) = ph_disk_ok h" "user_hub.more (persist_users_now now h) = user_hub.more h"
  by (simp_all add: persist_users_now_def Let_def)

lemma persist_user_prefs_frame [simp]:
  "uh_users (persist_user_prefs_now h) = uh_users h" "uh_pair_codes (persist_user_prefs_now h) = uh_pair_codes h"
  "uh_code_by_owner (persist_user_prefs_now h) = uh_code_by_owner h" "ph_fan (persist_user_prefs_now h) = ph_fan h"
  "ph_user_prefs (persist_user_prefs_now h) = ph_user_prefs h" "uh_users_file (persist_user_prefs_now h) = uh_users_file h"
  "ph_disk_ok (persist_user_prefs_now h) = ph_disk_ok h" "uh_users_disk (persist_user_prefs_now h) = uh_users_disk h"
  "user_hub.more (persist_user_prefs_now h) = user_hub.more h"
  by (simp_all add: persist_user_prefs_now_def)

lemma drop_owner_code_frame [simp]:
  "uh_users (drop_owner_code i h) = uh_users h" "ph_fan (drop_owner_code i h) = ph_fan h"
  "ph_user_prefs (drop_owner_code i h) = ph_user_prefs h" "uh_users_file (drop_owner_code i h) = uh_users_file h"
  "ph_disk_ok (drop_owner_code i h) = ph_disk_ok h" "user_hub.more (drop_owner_code i h) = user_hub.more h"
  by (simp_all add: drop_owner_code_def split: option.split)

lemma on_disk_persisted: "uh_users h' = uh_users (persist_users_now now h) \<Longrightarrow>
    uh_users_disk h' = uh_users_disk (persist_users_now now h) \<Longrightarrow> uh_users_file h' = uh_users_file h \<Longrightarrow>
    ph_disk_ok h' = ph_disk_ok h \<Longrightarrow> users_on_disk h'"
  by (auto simp: users_on_disk_def persist_users_now_def Let_def)

lemma draw_fresh_free: "draw_fresh mk taken bs = Some x \<Longrightarrow> \<not> taken x \<and> (\<exists>b \<in> set bs. x = mk b)"
  by (induction bs) (auto split: if_splits)

lemma hash_free:
  "\<not> token_hash_taken hash except us \<longleftrightarrow> (\<forall>u \<in> set us. us_token_hash u = hash \<longrightarrow> us_id u = except)"
  by (auto simp: token_hash_taken_def list_ex_iff)

lemma create_user_cases:
  assumes "create_user sha label now ts ds h = Some (h', res)"
  obtains (Full) "length (uh_users h) \<ge> max_users" "h' = h" "res = Inl ErrUserLimit"
  | (Created) u token where "res = Inr (u, token)" "length (uh_users h) < max_users"
      "uh_users h' = append_user u (uh_users h)" "find_by us_id (us_id u) (uh_users h) = None"
      "us_token_hash u = hash_user_token sha token" "token_hash_taken (us_token_hash u) [] (uh_users h) = False"
      "users_on_disk h'" "\<exists>b. token = new_user_token b" "\<exists>b. us_id u = new_user_id b"
proof (cases "length (uh_users h) \<ge> max_users")
  case True
  then show thesis using assms by (intro Full) (auto simp: create_user_def Let_def)
next
  case False
  let ?label = "if trim_space label = [] then default_user_label else trim_space label"
  obtain token where tok: "draw_fresh new_user_token (\<lambda>t. token_hash_taken (hash_user_token sha t) [] (uh_users h)) ts = Some token"
    using assms False by (auto simp: create_user_def Let_def split: option.splits)
  obtain i where i: "draw_fresh new_user_id (\<lambda>i. user_id_taken i (uh_users h)) ds = Some i"
    using assms False tok by (auto simp: create_user_def Let_def split: option.splits)
  define u where "u = \<lparr>us_id = i, us_label = ?label, us_token_hash = hash_user_token sha token,
    us_created_at = unix_seconds now, us_last_used_at = 0\<rparr>"
  have eq: "h' = persist_users_now now (h\<lparr>uh_users := uh_users h @ [u]\<rparr>)" "res = Inr (u, token)"
    using assms False tok i by (simp_all add: create_user_def Let_def u_def)
  show thesis
    by (rule Created [OF eq(2)])
      (use False draw_fresh_free [OF tok] draw_fresh_free [OF i] in
        \<open>auto simp: eq(1) u_def append_user_def find_by_None user_id_taken_def list_ex_iff intro: on_disk_persisted\<close>)
qed

lemma put_token_hash_facts:
  "uh_users (put_token_hash i hash now h) = modify_user i (\<lambda>u. u\<lparr>us_token_hash := hash\<rparr>) (uh_users h)"
  "users_on_disk (put_token_hash i hash now h)"
  by (auto simp: put_token_hash_def modify_user_def intro: on_disk_persisted)

lemma reset_user_token_cases:
  assumes "reset_user_token sha i now ts h = Some (h', res)"
  obtains (Unknown) "user_by_id i h = None" "h' = h" "res = Inl ErrUserUnknown"
  | (Put) hit token where "user_by_id i h = Some hit" "h' = put_token_hash i (hash_user_token sha token) now h"
      "res = Inr (hit\<lparr>us_token_hash := hash_user_token sha token\<rparr>, token)"
      "\<not> token_hash_taken (hash_user_token sha token) i (uh_users h)" "\<exists>b. token = new_user_token b"
  using assms by (auto simp: reset_user_token_def Let_def dest!: draw_fresh_free split: option.splits)

lemma set_user_token_cases:
  assumes "set_user_token sha i token now h = (h', res)"
  obtains (Refused) e where "h' = h" "res = Inl e"
  | (Put) hit where "user_by_id i h = Some hit" "h' = put_token_hash i (hash_user_token sha (trim_space token)) now h"
      "res = Inr (hit\<lparr>us_token_hash := hash_user_token sha (trim_space token)\<rparr>)"
      "\<not> token_hash_taken (hash_user_token sha (trim_space token)) i (uh_users h)"
      "16 \<le> length (trim_space token)" "length (trim_space token) \<le> 256"
proof (cases "\<exists>e. h' = h \<and> res = Inl e")
  case True
  then show thesis using Refused by blast
next
  case False
  obtain tok where tok: "normalize_user_token token = Inr tok"
    using assms False by (cases "normalize_user_token token") (auto simp: set_user_token_def)
  then have tok': "tok = trim_space token" "16 \<le> length tok" "length tok \<le> 256"
    by (auto simp: normalize_user_token_def Let_def split: if_splits)
  obtain hit where hit: "user_by_id i h = Some hit"
    using assms False tok by (cases "user_by_id i h") (auto simp: set_user_token_def)
  have "\<not> token_hash_taken (hash_user_token sha tok) i (uh_users h)"
    using assms False tok hit by (auto simp: set_user_token_def Let_def)
  then show thesis
    using assms tok tok' hit by (intro Put [OF hit]) (simp_all add: set_user_token_def Let_def)
qed

lemma delete_user_cases:
  assumes "delete_user i now h = (h', err)"
  obtains (Unknown) "user_by_id i h = None" "h' = h" "err = Some ErrUserUnknown"
  | (Deleted) hit where "user_by_id i h = Some hit" "err = None" "uh_users h' = cut_user i (uh_users h)"
      "users_on_disk h'" "ph_fan h' = drop_user_subscribers i (ph_fan h)" "ph_user_prefs h' = gm_del i (ph_user_prefs h)"
      "uh_pair_codes h' = uh_pair_codes (drop_owner_code i h)" "uh_code_by_owner h' = uh_code_by_owner (drop_owner_code i h)"
proof (cases "user_by_id i h")
  case None
  then show thesis using assms by (intro Unknown) (simp_all add: delete_user_def)
next
  case (Some hit)
  let ?h = "h\<lparr>uh_users := remove_first (\<lambda>u. us_id u = i) (uh_users h)\<rparr>"
  let ?h = "?h\<lparr>ph_user_prefs := gm_del i (ph_user_prefs ?h)\<rparr>"
  have "h' = (persist_user_prefs_now (persist_users_now now (drop_owner_code i ?h)))
      \<lparr>ph_fan := drop_user_subscribers i (ph_fan h)\<rparr>" "err = None"
    using assms Some by (simp_all add: delete_user_def Let_def)
  moreover have "users_on_disk (persist_users_now now k)" for k :: "'a user_hub_scheme"
    by (simp add: users_on_disk_def persist_users_now_def Let_def)
  then have "users_on_disk (persist_user_prefs_now (persist_users_now now k)\<lparr>ph_fan := f\<rparr>)" for k :: "'a user_hub_scheme" and f
    by (simp add: users_on_disk_def)
  moreover have "uh_pair_codes (drop_owner_code i ?h) = uh_pair_codes (drop_owner_code i h)"
    "uh_code_by_owner (drop_owner_code i ?h) = uh_code_by_owner (drop_owner_code i h)"
    by (simp_all add: drop_owner_code_def split: option.split)
  ultimately show thesis by (intro Deleted [OF Some]) (simp_all add: cut_user_def)
qed

lemma user_by_token_cases:
  assumes "user_by_token sha token now h = (h', res)"
  obtains (Miss) "h' = h" "res = None"
  | (Hit) hit where "find_by us_token_hash (hash_user_token sha (trim_space token)) (uh_users h) = Some hit"
      "trim_space token \<noteq> []" "res = Some (hit\<lparr>us_last_used_at := unix_seconds now\<rparr>)"
      "uh_users h' = update_first (\<lambda>u. us_token_hash u = hash_user_token sha (trim_space token))
         (\<lambda>u. u\<lparr>us_last_used_at := unix_seconds now\<rparr>) (uh_users h)"
      "uh_users_file h' = uh_users_file h" "ph_disk_ok h' = ph_disk_ok h" "uh_users_disk h' = uh_users_disk h \<or> users_on_disk h'"
proof (cases "trim_space token = [] \<or> find_by us_token_hash (hash_user_token sha (trim_space token)) (uh_users h) = None")
  case True
  then have "user_by_token sha token now h = (h, None)" by (elim disjE) (simp_all add: user_by_token_def Let_def)
  then show thesis using assms by (intro Miss) simp_all
next
  case False
  let ?hash = "hash_user_token sha (trim_space token)" and ?touch = "\<lambda>u. u\<lparr>us_last_used_at := unix_seconds now\<rparr>"
  let ?h = "h\<lparr>uh_users := update_first (\<lambda>u. us_token_hash u = ?hash) ?touch (uh_users h)\<rparr>"
  from False obtain hit where hit: "find_by us_token_hash ?hash (uh_users h) = Some hit" by blast
  have eq: "h' = (if now - uh_persisted_at h \<ge> minute then persist_users_now now ?h else ?h)" "res = Some (?touch hit)"
    using assms False hit by (simp_all add: user_by_token_def Let_def)
  show thesis
    by (rule Hit [OF hit _ eq(2)]) (use False in \<open>auto simp: eq(1) intro: on_disk_persisted\<close>)
qed

section \<open>Histories of the table\<close>

datatype user_op =
    UCreate string "bytes list" "bytes list"
  | UReset string "bytes list"
  | USet string string
  | UDelete string
  | ULookup string

definition or_stay :: "'h \<Rightarrow> ('h \<times> 'r) option \<Rightarrow> 'h" where
  "or_stay h r = (case r of None \<Rightarrow> h | Some (h', _) \<Rightarrow> h')"

fun user_apply :: "(string \<Rightarrow> bytes) \<Rightarrow> time \<times> user_op \<Rightarrow> 'a user_hub_scheme \<Rightarrow> 'a user_hub_scheme" where
  "user_apply sha (now, UCreate label ts ds) h = or_stay h (create_user sha label now ts ds h)"
| "user_apply sha (now, UReset i ts) h = or_stay h (reset_user_token sha i now ts h)"
| "user_apply sha (now, USet i token) h = fst (set_user_token sha i token now h)"
| "user_apply sha (now, UDelete i) h = fst (delete_user i now h)"
| "user_apply sha (now, ULookup token) h = fst (user_by_token sha token now h)"

definition user_run :: "(string \<Rightarrow> bytes) \<Rightarrow> (time \<times> user_op) list \<Rightarrow> 'a user_hub_scheme \<Rightarrow> 'a user_hub_scheme" where
  "user_run sha ops h = fold (user_apply sha) ops h"

lemma users_ok_hash:
  assumes "users_ok us" and "\<not> token_hash_taken hash i us"
  shows "users_ok (modify_user i (\<lambda>u. u\<lparr>us_token_hash := hash\<rparr>) us)"
proof -
  let ?f = "\<lambda>u. u\<lparr>us_token_hash := hash\<rparr>"
  have ids: "distinct (map us_id us)" using assms(1) by (simp add: users_ok_def user_ids_ok_def)
  have eq: "modify_user i ?f us = map (\<lambda>u. if us_id u = i then ?f u else u) us"
    unfolding modify_user_def by (rule update_first_key [OF ids])
  have inj: "inj_on us_id (set us)" using ids by (simp add: distinct_map)
  have "inj_on us_token_hash (set us)" "distinct us" using assms(1) by (simp_all add: users_ok_def distinct_map)
  then have "inj_on (\<lambda>u. us_token_hash (if us_id u = i then ?f u else u)) (set us)"
    using assms(2) inj unfolding inj_on_def hash_free by (auto split: if_splits)
  then have "distinct (map us_token_hash (modify_user i ?f us))"
    using \<open>distinct us\<close> by (simp add: eq distinct_map comp_def)
  moreover have "user_ids_ok (modify_user i ?f us)" using user_table.ok_modify [of us ?f i] assms(1) by (simp add: users_ok_def)
  moreover have "length (modify_user i ?f us) = length us" by (simp add: eq)
  ultimately show ?thesis using assms(1) by (auto simp: users_ok_def eq)
qed

lemma users_ok_append:
  assumes "users_ok us" and "length us < max_users" and "find_by us_id (us_id u) us = None"
    and "\<not> token_hash_taken (us_token_hash u) [] us" and "us_id u \<noteq> []"
  shows "users_ok (append_user u us)"
  using assms by (fastforce simp: users_ok_def user_ids_ok_def append_user_def find_by_None hash_free)

lemma users_ok_cut: "users_ok us \<Longrightarrow> users_ok (cut_user i us)"
proof -
  assume ok: "users_ok us"
  have "set (cut_user i us) \<subseteq> set us" unfolding cut_user_def by (rule set_remove_first)
  moreover have "length (cut_user i us) \<le> length us" unfolding cut_user_def by (induction us) auto
  ultimately show ?thesis
    using ok user_table.ok_cut [of us i] distinct_map_remove_first [of us_token_hash us "\<lambda>u. us_id u = i"]
    by (auto simp: users_ok_def cut_user_def)
qed

lemma touch_map:
  assumes "\<And>u. g (f u) = g u" shows "map g (update_first P f us) = map g us"
  using assms by (rule map_update_first)

lemma users_ok_touch:
  assumes "users_ok us" shows "users_ok (update_first P (\<lambda>u. u\<lparr>us_last_used_at := t\<rparr>) us)"
proof -
  let ?us = "update_first P (\<lambda>u. u\<lparr>us_last_used_at := t\<rparr>) us"
  have "map us_id ?us = map us_id us" "map us_token_hash ?us = map us_token_hash us" by (simp_all add: map_update_first)
  moreover from this(1) have "us_id ` set ?us = us_id ` set us" "length ?us = length us"
    by (metis list.set_map, metis length_map)
  ultimately show ?thesis using assms unfolding users_ok_def user_ids_ok_def by (metis image_iff)
qed

lemma users_inv_lookup:
  assumes "users_inv h" and "user_by_token sha token now h = (h', res)" shows "users_inv h'"
  using assms(2)
proof (cases rule: user_by_token_cases)
  case (Hit hit)
  have "map unseen (uh_users h') = map unseen (uh_users h)"
    unfolding Hit(4) by (rule map_update_first) (simp add: unseen_def)
  then have "uh_users_disk h' = uh_users_disk h \<Longrightarrow> users_on_disk h'"
    using assms(1) Hit(5,6) by (simp add: users_inv_def users_on_disk_def)
  then show ?thesis using Hit(4,7) users_ok_touch assms(1) by (auto simp: users_inv_def)
qed (use assms in simp)

lemma users_inv_put: "users_inv h \<Longrightarrow> \<not> token_hash_taken hash i (uh_users h) \<Longrightarrow> users_inv (put_token_hash i hash now h)"
  by (simp add: users_inv_def put_token_hash_facts users_ok_hash)

lemma users_inv_create:
  assumes "users_inv h" and "create_user sha label now ts ds h = Some (h', res)" shows "users_inv h'"
  using assms(2)
proof (cases rule: create_user_cases)
  case (Created u token)
  have "us_id u \<noteq> []" using Created(8,9) by (auto simp: new_user_id_def)
  then show ?thesis using assms(1) Created users_ok_append [of "uh_users h" u] by (simp add: users_inv_def)
qed (use assms in simp)

lemma users_inv_reset:
  assumes "users_inv h" and "reset_user_token sha i now ts h = Some (h', res)" shows "users_inv h'"
  using assms(2) by (cases rule: reset_user_token_cases) (use assms(1) users_inv_put in auto)

lemma users_inv_set:
  assumes "users_inv h" and "set_user_token sha i token now h = (h', res)" shows "users_inv h'"
  using assms(2) by (cases rule: set_user_token_cases) (use assms(1) users_inv_put in auto)

lemma users_inv_delete:
  assumes "users_inv h" and "delete_user i now h = (h', err)" shows "users_inv h'"
  using assms(2) by (cases rule: delete_user_cases) (use assms(1) users_ok_cut in \<open>auto simp: users_inv_def\<close>)

lemma users_inv_apply: "users_inv h \<Longrightarrow> users_inv (user_apply sha op h)"
  by (induction sha op h rule: user_apply.induct)
    (auto simp: or_stay_def split: option.split intro: users_inv_create users_inv_reset
      users_inv_set [OF _ prod.collapse [symmetric]] users_inv_delete [OF _ prod.collapse [symmetric]]
      users_inv_lookup [OF _ prod.collapse [symmetric]])

lemma users_inv_run: "users_inv h \<Longrightarrow> users_inv (user_run sha ops h)"
  unfolding user_run_def by (induction ops arbitrary: h) (auto intro: users_inv_apply)

text \<open>C15: The user table stays sound over every history of creations, resets, token changes, deletions
  and logins, whatever is drawn: ids and token digests are unique, so a secret names at most one
  account, there are at most 256 accounts, and the file holds the table up to times of last use.\<close>

theorem user_table_sound:
  assumes "users_inv h" and "h' = user_run sha ops h"
  shows "distinct (map us_id (uh_users h')) \<and> distinct (map us_token_hash (uh_users h')) \<and>
    length (uh_users h') \<le> 256 \<and>
    (uh_users_file h' \<noteq> [] \<and> ph_disk_ok h' \<longrightarrow>
       map_option (map unseen) (uh_users_disk h') = Some (map unseen (uh_users h')))"
  using users_inv_run [OF assms(1), of sha ops] assms(2)
  by (simp add: users_inv_def users_ok_def user_ids_ok_def users_on_disk_def max_users_def)

definition sample_user_hub :: user_hub where
  "sample_user_hub = prefs_hub.extend sample_prefs_hub
     \<lparr>uh_users = [\<lparr>us_id = ''u_1'', us_label = ''A'', us_token_hash = ''0102'', us_created_at = 0, us_last_used_at = 0\<rparr>],
      uh_users_file = ''users.json'', uh_persisted_at = 0,
      uh_users_disk = Some [\<lparr>us_id = ''u_1'', us_label = ''A'', us_token_hash = ''0102'', us_created_at = 0, us_last_used_at = 0\<rparr>],
      uh_pair_codes = [], uh_code_by_owner = []\<rparr>"

lemma sample_user_hub_inv: "users_inv sample_user_hub"
  by (simp add: users_inv_def users_ok_def user_ids_ok_def users_on_disk_def sample_user_hub_def prefs_hub.defs max_users_def)

lemma user_table_sound_witness:
  "distinct (map us_id (uh_users (user_run (\<lambda>t. [1, 2]) [(1, UCreate ''B'' [[3]] [[4, 5, 6, 7]]), (2, UDelete ''u_1'')] sample_user_hub)))"
  using user_table_sound [OF sample_user_hub_inv refl] by blast

section \<open>Credentials after a change\<close>

lemma login_after_put:
  assumes "users_inv h" and "user_by_id i h = Some hit" and "\<not> token_hash_taken hash i (uh_users h)"
  shows "find_by us_token_hash hash' (uh_users (put_token_hash i hash now h)) = Some u \<Longrightarrow> us_id u = i \<longleftrightarrow> hash' = hash"
    and "\<exists>u. find_by us_token_hash hash (uh_users (put_token_hash i hash now h)) = Some u \<and> us_id u = i"
proof -
  let ?us = "uh_users (put_token_hash i hash now h)" and ?f = "\<lambda>u. u\<lparr>us_token_hash := hash\<rparr>"
  have ok: "users_ok ?us" using users_inv_put [OF assms(1,3)] by (simp add: users_inv_def)
  have hit: "find_by us_id i ?us = Some (?f hit)"
    using user_table.modify_hit [of ?f i "uh_users h" hit] assms(2) by (simp add: put_token_hash_facts user_by_id_def)
  note mem = find_by_Some [OF hit]
  then show there: "\<exists>u. find_by us_token_hash hash ?us = Some u \<and> us_id u = i"
    using find_by_in [of us_token_hash ?us "?f hit"] ok by (auto simp: users_ok_def)
  show "us_id u = i \<longleftrightarrow> hash' = hash" if u: "find_by us_token_hash hash' ?us = Some u"
  proof
    assume "us_id u = i"
    then have "find_by us_id i ?us = Some u"
      using find_by_in [of us_id ?us u] ok find_by_Some [OF u] by (simp add: users_ok_def user_ids_ok_def)
    then show "hash' = hash" using hit find_by_Some [OF u] by auto
  next
    assume "hash' = hash" then show "us_id u = i" using there u by auto
  qed
qed

text \<open>C17: Changing a token replaces the credential. After an account's token is set or reset, exactly the
  secrets whose digest is that of the new token log in as the account, the new token among them when
  it is presented as it was given; every other account keeps its record.\<close>

theorem token_change_replaces_credential:
  assumes "users_inv h"
    and "(\<exists>u. set_user_token sha i token now h = (h', Inr u)) \<or>
         (\<exists>u ts. reset_user_token sha i now ts h = Some (h', Inr (u, token)) \<and> trim_space token = token)"
  shows "(\<forall>secret t u. snd (user_by_token sha secret t h') = Some u \<longrightarrow>
      (us_id u = i \<longleftrightarrow> hash_user_token sha (trim_space secret) = hash_user_token sha (trim_space token))) \<and>
    (\<exists>u. snd (user_by_token sha token t h') = Some u \<and> us_id u = i) \<and>
    (\<forall>j. j \<noteq> i \<longrightarrow> user_by_id j h' = user_by_id j h)"
proof -
  let ?hash = "hash_user_token sha (trim_space token)"
  obtain hit where put: "user_by_id i h = Some hit" "h' = put_token_hash i ?hash now h" "\<not> token_hash_taken ?hash i (uh_users h)"
    and ne: "trim_space token \<noteq> []"
    using assms(2)
  proof
    assume "\<exists>u. set_user_token sha i token now h = (h', Inr u)"
    then obtain u where "set_user_token sha i token now h = (h', Inr u)" ..
    then show thesis
    proof (cases rule: set_user_token_cases)
      case (Put hit)
      then have "trim_space token \<noteq> []" by auto
      then show thesis using Put that by simp
    qed simp
  next
    assume "\<exists>u ts. reset_user_token sha i now ts h = Some (h', Inr (u, token)) \<and> trim_space token = token"
    then obtain u ts where r: "reset_user_token sha i now ts h = Some (h', Inr (u, token))" "trim_space token = token" by blast
    from r(1) show thesis by (cases rule: reset_user_token_cases) (use that r(2) in \<open>auto simp: new_user_token_def\<close>)
  qed
  note login = login_after_put [OF assms(1) put(1,3), where now = now, folded put(2)]
  have "us_id u = i \<longleftrightarrow> hash_user_token sha (trim_space secret) = ?hash"
    if found: "snd (user_by_token sha secret t h') = Some u" for secret t u
  proof -
    obtain h2 where "user_by_token sha secret t h' = (h2, Some u)" using found by (cases "user_by_token sha secret t h'") simp
    then show ?thesis
    proof (cases rule: user_by_token_cases)
      case (Hit v)
      then show ?thesis using login(1) [OF Hit(1)] by auto
    qed simp
  qed
  moreover have "\<exists>u. snd (user_by_token sha token t h') = Some u \<and> us_id u = i"
    using login(2) ne by (auto simp: user_by_token_def Let_def)
  moreover have "user_by_id j h' = user_by_id j h" if "j \<noteq> i" for j
    using user_table.modify_others [of "\<lambda>u. u\<lparr>us_token_hash := ?hash\<rparr>" j i] that
    by (simp add: put(2) put_token_hash_facts user_by_id_def)
  ultimately show ?thesis by blast
qed

definition sample_sha :: "string \<Rightarrow> bytes" where
  "sample_sha t = (if t = ''first-token-here'' then [1, 2] else [9])"

lemma token_change_replaces_credential_witness:
  "case set_user_token sample_sha ''u_1'' ''second-token-here'' 7 sample_user_hub of (h', _) \<Rightarrow>
     snd (user_by_token sample_sha ''first-token-here'' 8 h') = None \<and>
     map_option us_id (snd (user_by_token sample_sha ''second-token-here'' 8 h')) = Some ''u_1''"
proof -
  obtain h' res where s: "set_user_token sample_sha ''u_1'' ''second-token-here'' 7 sample_user_hub = (h', res)"
    by (cases "set_user_token sample_sha ''u_1'' ''second-token-here'' 7 sample_user_hub")
  have "\<not> isl (snd (set_user_token sample_sha ''u_1'' ''second-token-here'' 7 sample_user_hub))" by code_simp
  then obtain u where s': "set_user_token sample_sha ''u_1'' ''second-token-here'' 7 sample_user_hub = (h', Inr u)"
    using s by (cases res) auto
  have "\<exists>u. set_user_token sample_sha ''u_1'' ''second-token-here'' 7 sample_user_hub = (h', Inr u)" using s' by blast
  note new = token_change_replaces_credential [OF sample_user_hub_inv disjI1 [OF this], of 8]
  have "fst (set_user_token sample_sha ''u_1'' ''second-token-here'' 7 sample_user_hub) = h'" using s' by simp
  moreover have "snd (user_by_token sample_sha ''first-token-here'' 8 (fst (set_user_token sample_sha ''u_1'' ''second-token-here'' 7 sample_user_hub))) = None"
    by code_simp
  ultimately show ?thesis using new s' by auto
qed

end
