(* ===== verification/SessionProto.thy ===== *)
theory SessionProto
  imports Sender Receiver Frame
begin

text \<open>
  The protocol state of one (host, epoch), \<open>sessionProto\<close> of \<open>internal/hub/session.go\<close>: the up
  receiver, the down log, the requests whose frame is not acknowledged yet and the one absolute
  audience frame, which is replaced in place while it is unacknowledged. A payload on the wire is
  the encoded frame as bytes. The limits and the time scale are the defaults the hub advertises.
\<close>

definition to_bytes :: "string \<Rightarrow> bytes" where "to_bytes s = map of_char s"
definition of_bytes :: "bytes \<Rightarrow> string" where "of_bytes b = map (\<lambda>w. char_of (unat w)) b"

record req_ack =
  ra_req_id :: string
  ra_window :: duration
  ra_deadline :: time

record session_proto =
  sp_epoch :: u64
  sp_up :: receiver
  sp_down :: sender
  sp_req_acks :: "(u64, req_ack) gomap"
  sp_req_ack_deadline :: duration
  sp_aud_seq :: u64
  sp_aud_gen :: u64
  sp_aud_sent_gen :: u64
  sp_aud_latest :: audience
  sp_aud_resend :: "audience option"

datatype proto_error = PEncode frame_error | PDrift | PDownOverflow

definition request_ack_deadline :: duration where
  "request_ack_deadline = 3 * lv_keepalive default_liveness * second"

definition down_inflight_cap :: int where
  "down_inflight_cap = 2 * lm_max_relay_body default_limits"

definition new_session_proto :: "u64 \<Rightarrow> u64 \<Rightarrow> int \<Rightarrow> session_proto" where
  "new_session_proto epoch up_acked window =
     \<lparr>sp_epoch = epoch, sp_up = new_receiver_window up_acked window, sp_down = new_sender 0, sp_req_acks = [],
      sp_req_ack_deadline = request_ack_deadline, sp_aud_seq = 0, sp_aud_gen = 0, sp_aud_sent_gen = 0,
      sp_aud_latest = zero_audience, sp_aud_resend = None\<rparr>"

definition proto_up_acked :: "session_proto \<Rightarrow> u64" where "proto_up_acked p = recv_acked (sp_up p)"
definition proto_down_acked :: "session_proto \<Rightarrow> u64" where "proto_down_acked p = sender_acked (sp_down p)"

definition proto_accept :: "u64 \<Rightarrow> bytes \<Rightarrow> session_proto \<Rightarrow> session_proto \<times> bytes list \<times> u64 \<times> recv_error option" where
  "proto_accept seq payload p =
     (case recv_accept (sp_up p) seq payload of (r, ready, acked, err) \<Rightarrow> (p\<lparr>sp_up := r\<rparr>, ready, acked, err))"

definition clear_audience :: "session_proto \<Rightarrow> session_proto" where
  "clear_audience p = p\<lparr>sp_aud_seq := 0, sp_aud_gen := 0, sp_aud_sent_gen := 0\<rparr>"

definition ack_down :: "u64 \<Rightarrow> session_proto \<Rightarrow> session_proto \<times> u64" where
  "ack_down n p =
     (let p = p\<lparr>sp_down := sender_ack (sp_down p) n\<rparr>;
          applied = sender_acked (sp_down p);
          p = p\<lparr>sp_req_acks := filter (\<lambda>(seq, ra). \<not> seq \<le> applied) (sp_req_acks p)\<rparr>
      in if sp_aud_seq p \<noteq> 0 \<and> sp_aud_seq p \<le> applied
         then (clear_audience (if sp_aud_sent_gen p < sp_aud_gen p then p\<lparr>sp_aud_resend := Some (sp_aud_latest p)\<rparr> else p), applied)
         else (p, applied))"

definition take_audience_resend :: "session_proto \<Rightarrow> session_proto \<times> audience option" where
  "take_audience_resend p =
     (case sp_aud_resend p of None \<Rightarrow> (p, None) | Some a \<Rightarrow> (p\<lparr>sp_aud_resend := None\<rparr>, Some a))"

text \<open>Encode the frame built for the next number and log it; shared by the three writers.\<close>

definition log_frame :: "(u64 \<Rightarrow> u64 \<Rightarrow> frame) \<Rightarrow> (u64 \<Rightarrow> session_proto \<Rightarrow> session_proto) \<Rightarrow> session_proto \<Rightarrow>
    session_proto \<times> (proto_error + u64)" where
  "log_frame build mark p =
     (let seq = sender_next (sp_down p) + 1
      in case frame_encode (build seq (recv_acked (sp_up p))) of
           Inl e \<Rightarrow> (p, Inl (PEncode e))
         | Inr payload \<Rightarrow>
             (case sender_append (sp_down p) (to_bytes payload) of
                (down, got) \<Rightarrow>
                  let p = p\<lparr>sp_down := down\<rparr>
                  in if got \<noteq> seq then (p, Inl PDrift)
                     else let p = mark seq p
                          in if sender_bytes (sp_down p) > down_inflight_cap then (p, Inl PDownOverflow) else (p, Inr seq)))"

definition append_reliable :: "(u64 \<Rightarrow> u64 \<Rightarrow> frame) \<Rightarrow> session_proto \<Rightarrow> session_proto \<times> (proto_error + u64)" where
  "append_reliable build p = log_frame build (\<lambda>seq p. p) p"

definition dispatch_request :: "string \<Rightarrow> frame \<Rightarrow> duration \<Rightarrow> session_proto \<Rightarrow> session_proto \<times> (proto_error + u64)" where
  "dispatch_request req_id f window p =
     log_frame (\<lambda>seq ack. f\<lparr>fr_seq := seq, fr_ack := ack\<rparr>)
       (\<lambda>seq p. p\<lparr>sp_req_acks := gm_set seq \<lparr>ra_req_id = req_id, ra_window = window, ra_deadline = 0\<rparr> (sp_req_acks p)\<rparr>) p"

definition note_written :: "time \<Rightarrow> u64 \<Rightarrow> bytes \<Rightarrow> session_proto \<Rightarrow> session_proto" where
  "note_written now seq payload p =
     (let p = (if seq \<noteq> 0 \<and> seq = sp_aud_seq p
               then case frame_decode (of_bytes payload) of
                      Inl _ \<Rightarrow> p
                    | Inr f \<Rightarrow> if fr_type f = type_audience \<and> fr_gen f > sp_aud_sent_gen p
                              then p\<lparr>sp_aud_sent_gen := fr_gen f\<rparr> else p
               else p)
      in case gm_get (sp_req_acks p) seq of
           None \<Rightarrow> p
         | Some ra \<Rightarrow>
             if is_zero_time (ra_deadline ra) \<or> \<not> now < ra_deadline ra
             then let window = (if ra_window ra \<le> 0 then sp_req_ack_deadline p else ra_window ra)
                  in p\<lparr>sp_req_acks := gm_set seq (ra\<lparr>ra_deadline := now + window\<rparr>) (sp_req_acks p)\<rparr>
             else p)"

definition push_audience :: "audience \<Rightarrow> session_proto \<Rightarrow> session_proto \<times> (proto_error + u64 \<times> bool)" where
  "push_audience a p =
     (if au_gen a < au_gen (sp_aud_latest p) then (p, Inr (0, False))
      else
        let p = p\<lparr>sp_aud_latest := a, sp_aud_resend := None\<rparr>;
            p = (if sp_aud_seq p \<noteq> 0 \<and> sp_aud_seq p \<le> sender_acked (sp_down p) then clear_audience p else p);
            append = (\<lambda>p. case log_frame (\<lambda>seq ack. new_audience seq ack a)
                             (\<lambda>seq p. p\<lparr>sp_aud_seq := seq, sp_aud_gen := au_gen a, sp_aud_sent_gen := 0\<rparr>) p of
                            (p, Inl e) \<Rightarrow> (p, Inl e) | (p, Inr seq) \<Rightarrow> (p, Inr (seq, False)))
        in if sp_aud_seq p \<noteq> 0
           then if au_gen a \<le> sp_aud_gen p then (p, Inr (sp_aud_seq p, False))
                else let seq = sp_aud_seq p
                     in case frame_encode (new_audience seq (recv_acked (sp_up p)) a) of
                          Inl e \<Rightarrow> (p, Inl (PEncode e))
                        | Inr payload \<Rightarrow>
                            (case sender_elide (sp_down p) seq (to_bytes payload) of
                               (down, None) \<Rightarrow>
                                 let p = p\<lparr>sp_down := down, sp_aud_gen := au_gen a\<rparr>
                                 in if sender_bytes down > down_inflight_cap then (p, Inl PDownOverflow)
                                    else (p, Inr (seq, True))
                             | (_, Some _) \<Rightarrow> append (clear_audience p))
           else append p)"

section \<open>Readers of the down log\<close>

definition entries_after :: "u64 \<Rightarrow> session_proto \<Rightarrow> log_entry list" where
  "entries_after seq p = filter (\<lambda>e. le_seq e > seq) (sender_entries (sp_down p))"

definition proto_entry :: "u64 \<Rightarrow> session_proto \<Rightarrow> log_entry option" where
  "proto_entry seq p = sender_entry (sp_down p) seq"

definition proto_entries :: "session_proto \<Rightarrow> log_entry list" where
  "proto_entries p = sender_entries (sp_down p)"

definition down_len :: "session_proto \<Rightarrow> nat" where "down_len p = sender_len (sp_down p)"
definition has_unacked :: "session_proto \<Rightarrow> bool" where "has_unacked p \<longleftrightarrow> sender_len (sp_down p) > 0"

definition next_request_deadline :: "session_proto \<Rightarrow> time option" where
  "next_request_deadline p =
     (let out = foldl (\<lambda>out (seq, ra). if is_zero_time (ra_deadline ra) then out
                          else if is_zero_time out \<or> ra_deadline ra < out then ra_deadline ra else out) 0 (sp_req_acks p)
      in if is_zero_time out then None else Some out)"

definition request_expired :: "time \<Rightarrow> req_ack \<Rightarrow> bool" where
  "request_expired now ra \<longleftrightarrow> \<not> (is_zero_time (ra_deadline ra) \<or> now < ra_deadline ra)"

definition expire_requests :: "time \<Rightarrow> session_proto \<Rightarrow> session_proto \<times> string list" where
  "expire_requests now p =
     (p\<lparr>sp_req_acks := filter (\<lambda>(seq, ra). \<not> request_expired now ra) (sp_req_acks p)\<rparr>,
      map (\<lambda>(seq, ra). ra_req_id ra) (filter (\<lambda>(seq, ra). request_expired now ra) (sp_req_acks p)))"

fun oldest_loop :: "u64 \<Rightarrow> int \<Rightarrow> int \<Rightarrow> log_entry list \<Rightarrow> log_entry list \<Rightarrow> int \<Rightarrow> log_entry list" where
  "oldest_loop acked maxn max_bytes [] out n = out"
| "oldest_loop acked maxn max_bytes (e # es) out n =
     (if le_seq e \<le> acked then oldest_loop acked maxn max_bytes es out n
      else if int (length out) \<ge> maxn \<or> (out \<noteq> [] \<and> n + int (length (le_payload e)) > max_bytes) then out
      else oldest_loop acked maxn max_bytes es (out @ [e]) (n + int (length (le_payload e))))"

definition oldest_unacked :: "int \<Rightarrow> int \<Rightarrow> session_proto \<Rightarrow> log_entry list" where
  "oldest_unacked maxn max_bytes p =
     oldest_loop (sender_acked (sp_down p)) maxn max_bytes (sender_entries (sp_down p)) [] 0"

section \<open>The down log and what hangs on it\<close>

definition frame_bytes :: "frame \<Rightarrow> bytes" where
  "frame_bytes f = (case frame_encode f of Inl _ \<Rightarrow> [] | Inr s \<Rightarrow> to_bytes s)"

lemma encode_audience:
  "audience_validate a = None \<Longrightarrow> seq \<noteq> 0 \<Longrightarrow> \<exists>s. frame_encode (new_audience seq ack a) = Inr s"
  by (cases a) (simp add: frame_encode_def frame_validate_def new_audience_def set_audience_state_def zero_frame_def
      known_type_def reliable_def validate_body_def protocol_if_def audience_state_def raw_ok_def frame_types
      validate_relay_acks_iff)

text \<open>The unacknowledged log carries a frame of the newest generation under the number on record.\<close>

definition carries :: "session_proto \<Rightarrow> bool" where
  "carries p \<longleftrightarrow> (\<exists>a ack. au_gen a = au_gen (sp_aud_latest p) \<and>
     \<lparr>le_seq = sp_aud_seq p, le_payload = frame_bytes (new_audience (sp_aud_seq p) ack a)\<rparr> \<in> set (sender_entries (sp_down p)))"

definition proto_ok :: "session_proto \<Rightarrow> bool" where
  "proto_ok p \<longleftrightarrow> sender_full (sp_down p) \<and> gm_ok (sp_req_acks p) \<and>
     (\<forall>seq \<in> gm_keys (sp_req_acks p). sender_acked (sp_down p) < seq \<and> seq \<le> sender_next (sp_down p)) \<and>
     (sp_aud_seq p \<noteq> 0 \<longrightarrow> sender_acked (sp_down p) < sp_aud_seq p \<and> sp_aud_seq p \<le> sender_next (sp_down p) \<and>
        sp_aud_gen p = au_gen (sp_aud_latest p) \<and> sp_aud_resend p = None \<and> carries p)"

lemma proto_ok_new [simp]: "proto_ok (new_session_proto epoch up window)"
  by (simp add: proto_ok_def new_session_proto_def)

lemma log_frame_cases:
  assumes "log_frame build mark p = (p', res)" and "sender_full (sp_down p)" and "unat (sn_next (sp_down p)) < 2 ^ 64 - 1"
  obtains (Bad) e where "p' = p" "res = Inl (PEncode e)" "frame_encode (build (sn_next (sp_down p) + 1) (recv_acked (sp_up p))) = Inl e"
  | (Logged) s down where "frame_encode (build (sn_next (sp_down p) + 1) (recv_acked (sp_up p))) = Inr s"
      "sender_append (sp_down p) (to_bytes s) = (down, sn_next (sp_down p) + 1)"
      "p' = mark (sn_next (sp_down p) + 1) (p\<lparr>sp_down := down\<rparr>)" "res = Inl PDownOverflow \<or> res = Inr (sn_next (sp_down p) + 1)"
proof (cases "frame_encode (build (sn_next (sp_down p) + 1) (recv_acked (sp_up p)))")
  case (Inl e)
  then show thesis using assms(1) by (intro Bad [OF _ _ Inl]) (simp_all add: log_frame_def sender_next_def)
next
  case (Inr s)
  obtain down got where d: "sender_append (sp_down p) (to_bytes s) = (down, got)" by (cases "sender_append (sp_down p) (to_bytes s)")
  then have "got = sn_next (sp_down p) + 1" by (simp add: sender_append_def Let_def)
  then show thesis using assms(1) Inr d
    by (intro Logged [OF Inr]) (auto simp: log_frame_def sender_next_def Let_def split: if_splits)
qed

lemma append_facts:
  assumes "sender_full s" and "unat (sn_next s) < 2 ^ 64 - 1" and "sender_append s b = (s', seq)"
  shows "sender_full s'" "sn_next s' = sn_next s + 1" "sn_acked s' = sn_acked s" "seq = sn_next s + 1"
    "sn_log s' = sn_log s @ [\<lparr>le_seq = seq, le_payload = b\<rparr>]" "sn_next s < sn_next s + 1" "sn_acked s \<le> sn_next s"
    "unat (sn_next s') = Suc (unat (sn_next s))"
proof -
  note inv = sender_append_inv [OF sender_full_inv [OF assms(1)] assms(2,3)]
  show "sender_full s'" using sender_full_append [OF assms(1,2), of b] assms(3) by simp
  show "seq = sn_next s + 1" using assms(3) by (simp add: sender_append_def Let_def)
  then show "sn_next s' = sn_next s + 1" "sn_acked s' = sn_acked s"
    "sn_log s' = sn_log s @ [\<lparr>le_seq = seq, le_payload = b\<rparr>]" "unat (sn_next s') = Suc (unat (sn_next s))"
    "sn_next s < sn_next s + 1"
    using inv by (simp_all add: word_less_nat_alt)
  show "sn_acked s \<le> sn_next s" using assms(1) by (simp add: sender_full_def sender_inv_def)
qed

lemma carries_append:
  "carries p \<Longrightarrow> sn_log down = sn_log (sp_down p) @ es \<Longrightarrow> carries (p\<lparr>sp_down := down, sp_req_acks := m\<rparr>)"
  by (auto simp: carries_def sender_entries_def)

text \<open>The number of frames logged so far bounds the next number.\<close>

definition room :: "session_proto \<Rightarrow> bool" where
  "room p \<longleftrightarrow> unat (sn_next (sp_down p)) < 2 ^ 64 - 1"

lemma proto_ok_dispatch:
  assumes "proto_ok p" and "room p" and "dispatch_request r f w p = (p', res)"
  shows "proto_ok p'" and "unat (sn_next (sp_down p')) \<le> Suc (unat (sn_next (sp_down p)))"
    and "sp_aud_seq p' = sp_aud_seq p \<and> sp_aud_resend p' = sp_aud_resend p \<and> sp_aud_latest p' = sp_aud_latest p \<and>
      sp_aud_sent_gen p' = sp_aud_sent_gen p"
proof -
  have full: "sender_full (sp_down p)" using assms(1) by (simp add: proto_ok_def)
  have "proto_ok p' \<and> unat (sn_next (sp_down p')) \<le> Suc (unat (sn_next (sp_down p))) \<and>
    sp_aud_seq p' = sp_aud_seq p \<and> sp_aud_resend p' = sp_aud_resend p \<and> sp_aud_latest p' = sp_aud_latest p \<and>
      sp_aud_sent_gen p' = sp_aud_sent_gen p"
  proof (cases rule: log_frame_cases [OF assms(3) [unfolded dispatch_request_def] full assms(2) [unfolded room_def],
      case_names Bad Logged])
    case (Logged s down)
    note a = append_facts [OF full assms(2) [unfolded room_def] Logged(2)]
    have "carries p \<Longrightarrow> carries p'" unfolding Logged(3) using a(5) carries_append [of p down] by simp
    moreover have "sp_aud_seq p \<le> sn_next (sp_down p) + 1" if "sp_aud_seq p \<le> sn_next (sp_down p)"
      using that a(6) by (rule order_trans [OF _ less_imp_le])
    moreover have "seq \<le> sn_next (sp_down p) + 1" if "seq \<le> sn_next (sp_down p)" for seq
      using that a(6) by (rule order_trans [OF _ less_imp_le])
    moreover have "sn_acked (sp_down p) < sn_next (sp_down p) + 1" using a(7,6) by (rule le_less_trans)
    ultimately show ?thesis
      using assms(1) Logged(3) a by (auto simp: proto_ok_def sender_acked_def sender_next_def)
  qed (use assms(1) in simp)
  then show "proto_ok p'" "unat (sn_next (sp_down p')) \<le> Suc (unat (sn_next (sp_down p)))"
    "sp_aud_seq p' = sp_aud_seq p \<and> sp_aud_resend p' = sp_aud_resend p \<and> sp_aud_latest p' = sp_aud_latest p \<and>
      sp_aud_sent_gen p' = sp_aud_sent_gen p" by blast+
qed

lemma ack_down_cases:
  assumes "proto_ok p" and "ack_down n p = (p', applied)"
  obtains (Covered) "sp_aud_seq p \<noteq> 0" "sp_aud_seq p \<le> applied" "sp_aud_seq p' = 0" "sp_aud_sent_gen p' = 0"
      "sp_aud_resend p' = (if sp_aud_sent_gen p < sp_aud_gen p then Some (sp_aud_latest p) else sp_aud_resend p)"
  | (Uncovered) "sp_aud_seq p = 0 \<or> \<not> sp_aud_seq p \<le> applied" "sp_aud_seq p' = sp_aud_seq p" "sp_aud_sent_gen p' = sp_aud_sent_gen p"
      "sp_aud_gen p' = sp_aud_gen p" "sp_aud_resend p' = sp_aud_resend p"
proof (cases "sp_aud_seq p \<noteq> 0 \<and> sp_aud_seq p \<le> sender_acked (sender_ack (sp_down p) n)")
  case True
  then show thesis using assms(2) by (intro Covered) (auto simp: ack_down_def Let_def clear_audience_def)
next
  case False
  then have "applied = sender_acked (sender_ack (sp_down p) n)" using assms(2) by (auto simp: ack_down_def Let_def split: if_splits)
  then show thesis using assms(2) False by (intro Uncovered) (auto simp: ack_down_def Let_def)
qed

lemma ack_down_frame:
  assumes "proto_ok p" and "ack_down n p = (p', applied)"
  shows "sp_down p' = sender_ack (sp_down p) n" "applied = sender_acked (sp_down p')" "sp_aud_latest p' = sp_aud_latest p"
    "sp_req_acks p' = filter (\<lambda>(seq, ra). \<not> seq \<le> applied) (sp_req_acks p)" "sp_up p' = sp_up p"
  using assms(2) by (auto simp: ack_down_def Let_def clear_audience_def split: if_splits)

lemma proto_ok_ack:
  assumes "proto_ok p" and "ack_down n p = (p', applied)"
  shows "proto_ok p'" and "sn_next (sp_down p') = sn_next (sp_down p)"
proof -
  have full: "sender_full (sp_down p)" using assms(1) by (simp add: proto_ok_def)
  note fr = ack_down_frame [OF assms]
  note ack = sender_ack_inv [OF sender_full_inv [OF full], of n]
  show next': "sn_next (sp_down p') = sn_next (sp_down p)" by (simp add: fr(1) ack(3))
  have app: "applied = ack_target (sp_down p) n" using ack(2) by (simp add: fr(1,2) sender_acked_def)
  have full': "sender_full (sp_down p')" using sender_full_ack [OF full] by (simp add: fr(1))
  have reqs: "gm_ok (sp_req_acks p')" "\<forall>seq \<in> gm_keys (sp_req_acks p'). sender_acked (sp_down p') < seq \<and> seq \<le> sender_next (sp_down p')"
    using assms(1) by (auto simp: proto_ok_def fr(4) sender_next_def next' simp flip: fr(2))
  show "proto_ok p'"
    using assms
  proof (cases rule: ack_down_cases)
    case Covered
    then show ?thesis using full' reqs by (simp add: proto_ok_def)
  next
    case Uncovered
    have "carries p'" if "carries p" "applied < sp_aud_seq p"
      using that ack(4) unfolding carries_def fr(1,3) Uncovered(2) sender_entries_def app by auto
    then show ?thesis using full' reqs assms(1) Uncovered fr(2,3)
      by (auto simp: proto_ok_def sender_next_def next')
  qed
qed

lemma elide_hit:
  assumes "sender_full s" and "sn_acked s < seq" and "seq \<le> sn_next s" and "sender_elide s seq b = (s', err)"
  shows "err = None" "sender_full s'" "sn_next s' = sn_next s" "sn_acked s' = sn_acked s"
    "\<lparr>le_seq = seq, le_payload = b\<rparr> \<in> set (sn_log s')"
proof -
  obtain s1 res where e: "sender_elide_from s 0 seq b = (s1, res)" by (cases "sender_elide_from s 0 seq b")
  have "Suc (unat (sn_next s)) - length (sn_log s) = Suc (unat (sn_acked s))"
    using assms(1-3) by (auto simp: sender_full_def sender_inv_def word_le_nat_alt word_less_nat_alt)
  then have run: "map (unat \<circ> le_seq) (sn_log s) = [Suc (unat (sn_acked s))..<Suc (unat (sn_next s))]"
    using assms(1) by (simp add: sender_full_def sender_inv_def)
  have "unat seq \<in> set (map (unat \<circ> le_seq) (sn_log s))"
    unfolding run using assms(2,3) by (auto simp: word_le_nat_alt word_less_nat_alt)
  then have mem: "seq \<in> le_seq ` set (sn_log s)" by (auto dest!: unat_eq_D)
  from elide_from_shape [OF e] mem obtain i where i: "res = Inr i" "i < length (sn_log s)"
    "s1 = s\<lparr>sn_log := (sn_log s)[i := \<lparr>le_seq = seq, le_payload = b\<rparr>],
             sn_bytes := sn_bytes s + (int (length b) - int (length (le_payload (sn_log s ! i))))\<rparr>" by auto
  have s': "s' = s1" "err = None" using assms(4) e i(1) by (simp_all add: sender_elide_def)
  show "err = None" by (rule s')
  show "sender_full s'" using sender_full_elide [OF assms(1), of seq b] assms(4) by simp
  show "sn_next s' = sn_next s" "sn_acked s' = sn_acked s" using i(3) s' by simp_all
  show "\<lparr>le_seq = seq, le_payload = b\<rparr> \<in> set (sn_log s')" using i(2,3) s' by (simp add: set_update_memI)
qed

lemma elide_others:
  assumes "sender_elide s seq b = (s', err)"
  shows "\<forall>e \<in> set (sn_log s). le_seq e \<noteq> seq \<longrightarrow> e \<in> set (sn_log s')"
proof -
  obtain s1 res where e: "sender_elide_from s 0 seq b = (s1, res)" by (cases "sender_elide_from s 0 seq b")
  have s': "s' = s1" using assms e by (auto simp: sender_elide_def split: sum.splits)
  have "e \<in> set ((sn_log s)[i := x])" if m: "e \<in> set (sn_log s)" and i: "le_seq (sn_log s ! i) = seq" and n: "le_seq e \<noteq> seq" for e i x
  proof -
    obtain j where j: "j < length (sn_log s)" "sn_log s ! j = e" using m by (auto simp: in_set_conv_nth)
    then have "j \<noteq> i" using i n by auto
    then have "(sn_log s)[i := x] ! j = e" using j by simp
    then show ?thesis using j(1) by (metis length_list_update nth_mem)
  qed
  then show ?thesis using elide_from_shape [OF e] s' by auto
qed

lemma frame_bytes_encode: "frame_encode f = Inr s \<Longrightarrow> frame_bytes f = to_bytes s"
  by (simp add: frame_bytes_def)

lemma push_append_ok:
  assumes "sender_full (sp_down p)" and "room p" and "gm_ok (sp_req_acks p)" and "audience_validate a = None"
    and "\<forall>seq \<in> gm_keys (sp_req_acks p). sn_acked (sp_down p) < seq \<and> seq \<le> sn_next (sp_down p)"
    and "sp_aud_latest p = a" and "sp_aud_resend p = None"
    and "log_frame (\<lambda>seq ack. new_audience seq ack a)
        (\<lambda>seq p. p\<lparr>sp_aud_seq := seq, sp_aud_gen := au_gen a, sp_aud_sent_gen := 0\<rparr>) p = (p', res)"
  shows "proto_ok p' \<and> sp_aud_seq p' \<noteq> 0 \<and> sp_aud_latest p' = a \<and> sp_aud_sent_gen p' = 0 \<and>
    unat (sn_next (sp_down p')) \<le> Suc (unat (sn_next (sp_down p)))"
proof (cases rule: log_frame_cases [OF assms(8,1) assms(2) [unfolded room_def], case_names Bad Logged])
  case (Bad e)
  have "sn_next (sp_down p) + 1 \<noteq> 0"
    using assms(2) by (simp add: room_def word_Suc_less unat_word_ariths word_unat_eq_iff)
  from encode_audience [OF assms(4) this, of "recv_acked (sp_up p)"] Bad(3) show ?thesis by auto
next
  case (Logged s down)
  note a = append_facts [OF assms(1) assms(2) [unfolded room_def] Logged(2)]
  let ?seq = "sn_next (sp_down p) + 1"
  have ne: "?seq \<noteq> 0" using a(6) by auto
  have "carries p'" unfolding carries_def Logged(3)
    by (rule exI [of _ a], rule exI [of _ "recv_acked (sp_up p)"])
      (simp add: assms(6) sender_entries_def a(5) frame_bytes_encode [OF Logged(1)])
  moreover have "seq \<le> ?seq" if "seq \<le> sn_next (sp_down p)" for seq
    using that a(6) by (rule order_trans [OF _ less_imp_le])
  moreover have "sn_acked (sp_down p) < ?seq" using a(7,6) by (rule le_less_trans)
  ultimately show ?thesis
    using assms(3,5,6,7) Logged(3) a ne by (auto simp: proto_ok_def sender_acked_def sender_next_def)
qed

lemma proto_ok_push:
  assumes "proto_ok p" and "room p" and "audience_validate a = None" and "push_audience a p = (p', res)"
  shows "proto_ok p' \<and> unat (sn_next (sp_down p')) \<le> Suc (unat (sn_next (sp_down p))) \<and>
    (p' = p \<or> sp_aud_seq p' \<noteq> 0) \<and> (sp_aud_seq p' = sp_aud_seq p \<and> sp_aud_sent_gen p' = sp_aud_sent_gen p \<or> sp_aud_sent_gen p' = 0)"
proof (cases "au_gen a < au_gen (sp_aud_latest p)")
  case True
  then show ?thesis using assms(1,4) by (simp add: push_audience_def)
next
  case newer: False
  let ?q = "p\<lparr>sp_aud_latest := a, sp_aud_resend := None\<rparr>"
  have full: "sender_full (sp_down p)" using assms(1) by (simp add: proto_ok_def)
  show ?thesis
  proof (cases "sp_aud_seq p = 0")
    case True
    obtain p2 r2 where l: "log_frame (\<lambda>seq ack. new_audience seq ack a)
        (\<lambda>seq p. p\<lparr>sp_aud_seq := seq, sp_aud_gen := au_gen a, sp_aud_sent_gen := 0\<rparr>) ?q = (p2, r2)"
      by (cases "log_frame (\<lambda>seq ack. new_audience seq ack a)
        (\<lambda>seq p. p\<lparr>sp_aud_seq := seq, sp_aud_gen := au_gen a, sp_aud_sent_gen := 0\<rparr>) ?q")
    have "p' = p2" using assms(4) newer True l by (auto simp: push_audience_def Let_def split: sum.splits)
    then show ?thesis
      using push_append_ok [OF _ _ _ assms(3) _ _ _ l] assms(1,2)
      by (simp add: proto_ok_def room_def sender_acked_def sender_next_def)
  next
    case live: False
    have aud: "sn_acked (sp_down p) < sp_aud_seq p" "sp_aud_seq p \<le> sn_next (sp_down p)" "sp_aud_gen p = au_gen (sp_aud_latest p)"
      using assms(1) live by (simp_all add: proto_ok_def sender_acked_def sender_next_def)
    then have ahead: "\<not> sp_aud_seq p \<le> sn_acked (sp_down p)" by simp
    show ?thesis
    proof (cases "au_gen a \<le> sp_aud_gen p")
      case True
      then have gen: "au_gen a = sp_aud_gen p" using newer aud(3) by simp
      have "p' = ?q" using assms(4) newer live True ahead by (simp add: push_audience_def Let_def sender_acked_def)
      moreover have "carries ?q" using assms(1) live gen aud(3) by (simp add: proto_ok_def carries_def)
      ultimately show ?thesis using assms(1) live gen by (simp add: proto_ok_def)
    next
      case more: False
      obtain s where s: "frame_encode (new_audience (sp_aud_seq p) (recv_acked (sp_up p)) a) = Inr s"
        using encode_audience [OF assms(3) live] by blast
      obtain down err where e: "sender_elide (sp_down p) (sp_aud_seq p) (to_bytes s) = (down, err)"
        by (cases "sender_elide (sp_down p) (sp_aud_seq p) (to_bytes s)")
      note el = elide_hit [OF full aud(1,2) e]
      have p': "p' = ?q\<lparr>sp_down := down, sp_aud_gen := au_gen a\<rparr>"
        using assms(4) newer live more ahead s e el(1)
        by (simp add: push_audience_def Let_def sender_acked_def split: if_splits)
      have "carries p'" unfolding carries_def p'
        by (rule exI [of _ a], rule exI [of _ "recv_acked (sp_up p)"])
          (use el(5) frame_bytes_encode [OF s] in \<open>simp add: sender_entries_def\<close>)
      then show ?thesis using assms(1) live el p' by (auto simp: proto_ok_def sender_acked_def sender_next_def)
    qed
  qed
qed

section \<open>Histories\<close>

datatype proto_op =
    PAccept u64 bytes
  | PAck u64
  | PTake
  | PDispatch string frame duration
  | PWritten time u64 bytes
  | PPush audience
  | PExpire time

text \<open>The snapshots a caller took from the resend slot are collected beside the state.\<close>

fun proto_step :: "proto_op \<Rightarrow> session_proto \<times> audience list \<Rightarrow> session_proto \<times> audience list" where
  "proto_step (PAccept seq b) (p, t) = (fst (proto_accept seq b p), t)"
| "proto_step (PAck n) (p, t) = (fst (ack_down n p), t)"
| "proto_step PTake (p, t) = (case take_audience_resend p of (p, None) \<Rightarrow> (p, t) | (p, Some a) \<Rightarrow> (p, t @ [a]))"
| "proto_step (PDispatch r f w) (p, t) = (fst (dispatch_request r f w p), t)"
| "proto_step (PWritten now seq b) (p, t) = (note_written now seq b p, t)"
| "proto_step (PPush a) (p, t) = (fst (push_audience a p), t)"
| "proto_step (PExpire now) (p, t) = (fst (expire_requests now p), t)"

definition proto_run :: "proto_op list \<Rightarrow> session_proto \<times> audience list \<Rightarrow> session_proto \<times> audience list" where
  "proto_run ops st = fold proto_step ops st"

definition valid_push :: "proto_op \<Rightarrow> bool" where
  "valid_push op = (case op of PPush a \<Rightarrow> audience_validate a = None | _ \<Rightarrow> True)"

text \<open>The generation a written payload carries when it is an audience frame.\<close>

definition written_gen :: "proto_op \<Rightarrow> u64" where
  "written_gen op =
     (case op of
        PWritten now seq b \<Rightarrow>
          (case frame_decode (of_bytes b) of Inl _ \<Rightarrow> 0 | Inr f \<Rightarrow> if fr_type f = type_audience then fr_gen f else 0)
      | _ \<Rightarrow> 0)"

definition audience_safe :: "proto_op list \<Rightarrow> session_proto \<Rightarrow> audience list \<Rightarrow> bool" where
  "audience_safe ops p taken \<longleftrightarrow>
     au_gen (sp_aud_latest p) = 0 \<or>
     sp_aud_seq p \<noteq> 0 \<and> carries p \<or>
     sp_aud_resend p = Some (sp_aud_latest p) \<or>
     (\<exists>op \<in> set ops. au_gen (sp_aud_latest p) \<le> written_gen op) \<or>
     (\<exists>a \<in> set taken. au_gen a = au_gen (sp_aud_latest p))"

definition hist_ok :: "proto_op list \<Rightarrow> session_proto \<Rightarrow> audience list \<Rightarrow> bool" where
  "hist_ok ops p taken \<longleftrightarrow> proto_ok p \<and> unat (sn_next (sp_down p)) \<le> length ops \<and> audience_safe ops p taken \<and>
     (sp_aud_sent_gen p \<noteq> 0 \<longrightarrow> (\<exists>op \<in> set ops. written_gen op = sp_aud_sent_gen p))"

lemma written_facts:
  fixes p now seq b defines "q \<equiv> note_written now seq b p"
  shows "sp_down q = sp_down p" "sp_aud_seq q = sp_aud_seq p" "sp_aud_latest q = sp_aud_latest p"
    "sp_aud_resend q = sp_aud_resend p" "sp_aud_gen q = sp_aud_gen p" "gm_ok (sp_req_acks p) \<Longrightarrow> gm_ok (sp_req_acks q)"
    "gm_keys (sp_req_acks q) = gm_keys (sp_req_acks p)"
    "sp_aud_sent_gen q = sp_aud_sent_gen p \<or> sp_aud_sent_gen q = written_gen (PWritten now seq b)"
proof -
  obtain g where g: "(if seq \<noteq> 0 \<and> seq = sp_aud_seq p
               then case frame_decode (of_bytes b) of
                      Inl _ \<Rightarrow> p
                    | Inr f \<Rightarrow> if fr_type f = type_audience \<and> fr_gen f > sp_aud_sent_gen p
                              then p\<lparr>sp_aud_sent_gen := fr_gen f\<rparr> else p
               else p) = p\<lparr>sp_aud_sent_gen := g\<rparr>"
    and gen: "g = sp_aud_sent_gen p \<or> g = written_gen (PWritten now seq b)"
  proof (cases "seq \<noteq> 0 \<and> seq = sp_aud_seq p \<and> (\<exists>f. frame_decode (of_bytes b) = Inr f \<and> fr_type f = type_audience \<and> fr_gen f > sp_aud_sent_gen p)")
    case True
    then obtain f where "frame_decode (of_bytes b) = Inr f" "fr_type f = type_audience" "fr_gen f > sp_aud_sent_gen p" by blast
    then show thesis using True by (intro that [of "fr_gen f"]) (auto simp: written_gen_def)
  next
    case False
    then show thesis by (intro that [of "sp_aud_sent_gen p"]) (auto split: sum.split)
  qed
  have q: "q = p\<lparr>sp_aud_sent_gen := g\<rparr> \<or>
      (\<exists>ra. gm_get (sp_req_acks p) seq \<noteq> None \<and> q = p\<lparr>sp_aud_sent_gen := g, sp_req_acks := gm_set seq ra (sp_req_acks p)\<rparr>)"
    unfolding q_def note_written_def g by (auto simp: Let_def split: option.split)
  then show "sp_down q = sp_down p" "sp_aud_seq q = sp_aud_seq p" "sp_aud_latest q = sp_aud_latest p"
    "sp_aud_resend q = sp_aud_resend p" "sp_aud_gen q = sp_aud_gen p" "gm_ok (sp_req_acks p) \<Longrightarrow> gm_ok (sp_req_acks q)"
    "sp_aud_sent_gen q = sp_aud_sent_gen p \<or> sp_aud_sent_gen q = written_gen (PWritten now seq b)"
    using gen by auto
  show "gm_keys (sp_req_acks q) = gm_keys (sp_req_acks p)"
    using q
  proof
    assume "\<exists>ra. gm_get (sp_req_acks p) seq \<noteq> None \<and> q = p\<lparr>sp_aud_sent_gen := g, sp_req_acks := gm_set seq ra (sp_req_acks p)\<rparr>"
    then obtain ra where "seq \<in> gm_keys (sp_req_acks p)" "q = p\<lparr>sp_aud_sent_gen := g, sp_req_acks := gm_set seq ra (sp_req_acks p)\<rparr>"
      unfolding gm_keys_iff by blast
    then show ?thesis by (simp add: insert_absorb)
  qed simp
qed

lemma hist_ok_step:
  assumes "hist_ok ops p t" and "valid_push op" and "length ops < 2 ^ 64 - 1" and "proto_step op (p, t) = (p', t')"
  shows "hist_ok (ops @ [op]) p' t'"
proof -
  have ok: "proto_ok p" and len: "unat (sn_next (sp_down p)) \<le> length ops" and safe: "audience_safe ops p t"
    and sent: "sp_aud_sent_gen p \<noteq> 0 \<longrightarrow> (\<exists>op \<in> set ops. written_gen op = sp_aud_sent_gen p)"
    using assms(1) by (simp_all add: hist_ok_def)
  have room: "room p" using len assms(3) by (simp add: room_def)
  show ?thesis
  proof (cases op)
    case (PAccept seq b)
    have "p' = p\<lparr>sp_up := sp_up p'\<rparr>" "t' = t"
      using assms(4) PAccept by (auto simp: proto_accept_def split: prod.splits)
    then obtain r where "p' = p\<lparr>sp_up := r\<rparr>" "t' = t" by metis
    then show ?thesis using ok len safe sent by (auto simp: hist_ok_def proto_ok_def carries_def audience_safe_def)
  next
    case (PAck n)
    obtain q applied where q: "ack_down n p = (q, applied)" by (cases "ack_down n p")
    then have p': "p' = q" "t' = t" using assms(4) PAck by simp_all
    note ok' = proto_ok_ack [OF ok q] and fr = ack_down_frame [OF ok q]
    have "audience_safe (ops @ [op]) q t \<and> (sp_aud_sent_gen q \<noteq> 0 \<longrightarrow> (\<exists>op \<in> set ops. written_gen op = sp_aud_sent_gen q))"
      using ok q
    proof (cases rule: ack_down_cases)
      case Covered
      have gen: "sp_aud_gen p = au_gen (sp_aud_latest p)" "sp_aud_resend p = None" using ok Covered(1) by (simp_all add: proto_ok_def)
      show ?thesis
      proof (cases "sp_aud_sent_gen p < sp_aud_gen p \<or> au_gen (sp_aud_latest p) = 0")
        case True
        then show ?thesis using Covered fr(3) by (auto simp: audience_safe_def)
      next
        case False
        then have "sp_aud_sent_gen p \<noteq> 0" "au_gen (sp_aud_latest p) \<le> sp_aud_sent_gen p" using gen(1) by (auto simp: not_less)
        then show ?thesis using sent Covered fr(3) by (fastforce simp: audience_safe_def)
      qed
    next
      case Uncovered
      have "sp_aud_seq q \<noteq> 0 \<Longrightarrow> carries q" using ok'(1) by (simp add: proto_ok_def)
      then show ?thesis using safe sent Uncovered fr(3) by (auto simp: audience_safe_def)
    qed
    then show ?thesis using ok' len p' by (auto simp: hist_ok_def)
  next
    case PTake
    show ?thesis
    proof (cases "sp_aud_resend p")
      case None
      then have "p' = p" "t' = t" using assms(4) PTake by (simp_all add: take_audience_resend_def)
      then show ?thesis using ok len safe sent by (auto simp: hist_ok_def audience_safe_def)
    next
      case (Some a)
      then have p': "p' = p\<lparr>sp_aud_resend := None\<rparr>" "t' = t @ [a]" using assms(4) PTake by (simp_all add: take_audience_resend_def)
      have "sp_aud_seq p = 0" using ok Some by (auto simp: proto_ok_def)
      moreover from this have "proto_ok p'" using ok p' by (simp add: proto_ok_def)
      ultimately show ?thesis using len safe sent Some p' by (auto simp: hist_ok_def audience_safe_def)
    qed
  next
    case (PDispatch r f w)
    obtain res where d: "dispatch_request r f w p = (p', res)" "t' = t"
      using assms(4) PDispatch by (cases "dispatch_request r f w p") simp
    note ok' = proto_ok_dispatch [OF ok room d(1)]
    have "sp_aud_seq p' \<noteq> 0 \<Longrightarrow> carries p'" using ok'(1) by (simp add: proto_ok_def)
    then show ?thesis using ok' len safe sent d(2) by (auto simp: hist_ok_def audience_safe_def)
  next
    case (PWritten now seq b)
    then have p': "p' = note_written now seq b p" "t' = t" using assms(4) by simp_all
    note w = written_facts [where p = p and now = now and seq = seq and b = b, folded p'(1)]
    have "carries p' = carries p" by (simp add: carries_def w)
    then show ?thesis using ok len safe sent p'(2) PWritten w(8)
      by (auto simp: hist_ok_def proto_ok_def audience_safe_def w(1-7))
  next
    case (PPush a)
    obtain res where d: "push_audience a p = (p', res)" "t' = t"
      using assms(4) PPush by (cases "push_audience a p") simp
    have "audience_validate a = None" using assms(2) PPush by (simp add: valid_push_def)
    note ok' = proto_ok_push [OF ok room this d(1)]
    have "sp_aud_seq p' \<noteq> 0 \<Longrightarrow> carries p'" using ok' by (simp add: proto_ok_def)
    then have "audience_safe (ops @ [op]) p' t'" using ok' safe d(2) by (auto simp: audience_safe_def)
    then show ?thesis using ok' len sent by (auto simp: hist_ok_def)
  next
    case (PExpire now)
    have "p' = p\<lparr>sp_req_acks := filter (\<lambda>(seq, ra). \<not> request_expired now ra) (sp_req_acks p)\<rparr>" "t' = t"
      using assms(4) PExpire by (simp_all add: expire_requests_def)
    then show ?thesis using ok len safe sent by (auto simp: hist_ok_def proto_ok_def carries_def audience_safe_def)
  qed
qed

lemma hist_ok_run:
  "list_all valid_push ops \<Longrightarrow> length ops < 2 ^ 64 \<Longrightarrow>
     proto_run ops (new_session_proto epoch up window, []) = (p, t) \<Longrightarrow> hist_ok ops p t"
proof (induction ops arbitrary: p t rule: rev_induct)
  case Nil
  then have "p = new_session_proto epoch up window" "t = []" by (simp_all add: proto_run_def)
  then show ?case
    by (simp add: hist_ok_def audience_safe_def) (simp add: new_session_proto_def zero_audience_def)
next
  case (snoc op ops)
  obtain q u where q: "proto_run ops (new_session_proto epoch up window, []) = (q, u)"
    by (cases "proto_run ops (new_session_proto epoch up window, [])")
  have "proto_step op (q, u) = (p, t)" using snoc.prems(3) q by (simp add: proto_run_def)
  with snoc.IH [OF _ _ q] snoc.prems(1,2) show ?case by (intro hist_ok_step) auto
qed

section \<open>What the log and the slot hold was pushed or dispatched\<close>

definition in_log :: "session_proto \<Rightarrow> u64 \<Rightarrow> frame \<Rightarrow> bool" where
  "in_log p seq f \<longleftrightarrow> (\<exists>s. frame_encode f = Inr s \<and> \<lparr>le_seq = seq, le_payload = to_bytes s\<rparr> \<in> set (sender_entries (sp_down p)))"

definition pushes_ok :: "proto_op set \<Rightarrow> session_proto \<Rightarrow> audience list \<Rightarrow> bool" where
  "pushes_ok ops p taken \<longleftrightarrow>
     (\<forall>a. PPush a \<in> ops \<longrightarrow> au_gen a \<le> au_gen (sp_aud_latest p)) \<and>
     (au_gen (sp_aud_latest p) = 0 \<or> PPush (sp_aud_latest p) \<in> ops) \<and>
     (\<forall>b. sp_aud_resend p = Some b \<longrightarrow> PPush b \<in> ops) \<and> (\<forall>b \<in> set taken. PPush b \<in> ops) \<and>
     (sp_aud_seq p \<noteq> 0 \<longrightarrow> (\<exists>b ack. PPush b \<in> ops \<and> au_gen b = au_gen (sp_aud_latest p) \<and>
        in_log p (sp_aud_seq p) (new_audience (sp_aud_seq p) ack b)))"

definition tracks_ok :: "proto_op set \<Rightarrow> session_proto \<Rightarrow> bool" where
  "tracks_ok ops p \<longleftrightarrow> sp_aud_seq p \<notin> gm_keys (sp_req_acks p) \<and>
     (\<forall>(seq, ra) \<in> set (sp_req_acks p). \<exists>f ack. PDispatch (ra_req_id ra) f (ra_window ra) \<in> ops \<and>
        in_log p seq (f\<lparr>fr_seq := seq, fr_ack := ack\<rparr>))"

lemma in_log_mono:
  assumes "in_log p seq f" and "\<And>e. e \<in> set (sn_log (sp_down p)) \<Longrightarrow> le_seq e = seq \<Longrightarrow> e \<in> set (sn_log (sp_down p'))"
  shows "in_log p' seq f"
  using assms unfolding in_log_def sender_entries_def by fastforce

lemma pushes_ok_mono:
  assumes "pushes_ok A p t" and "A \<subseteq> B" and "\<forall>a. PPush a \<in> B \<longrightarrow> PPush a \<in> A"
    and "sp_aud_latest p' = sp_aud_latest p" and "set t' \<subseteq> set t \<union> {b. sp_aud_resend p = Some b}"
    and "\<And>b. sp_aud_resend p' = Some b \<Longrightarrow> sp_aud_resend p = Some b \<or> au_gen (sp_aud_latest p) \<noteq> 0 \<and> b = sp_aud_latest p"
    and "sp_aud_seq p' = 0 \<or> sp_aud_seq p' = sp_aud_seq p \<and>
      (\<forall>e \<in> set (sn_log (sp_down p)). le_seq e = sp_aud_seq p \<longrightarrow> e \<in> set (sn_log (sp_down p')))"
  shows "pushes_ok B p' t'"
proof -
  have "\<exists>b ack. PPush b \<in> B \<and> au_gen b = au_gen (sp_aud_latest p') \<and>
      in_log p' (sp_aud_seq p') (new_audience (sp_aud_seq p') ack b)" if "sp_aud_seq p' \<noteq> 0"
  proof -
    have eq: "sp_aud_seq p' = sp_aud_seq p"
      and keep: "\<And>e. e \<in> set (sn_log (sp_down p)) \<Longrightarrow> le_seq e = sp_aud_seq p \<Longrightarrow> e \<in> set (sn_log (sp_down p'))"
      using assms(7) that by auto
    have "sp_aud_seq p \<noteq> 0" using that by (simp add: eq)
    then obtain b ack where b: "PPush b \<in> A" "au_gen b = au_gen (sp_aud_latest p)"
      and l: "in_log p (sp_aud_seq p) (new_audience (sp_aud_seq p) ack b)"
      using assms(1) unfolding pushes_ok_def by blast
    have "in_log p' (sp_aud_seq p') (new_audience (sp_aud_seq p') ack b)"
      using in_log_mono [OF l keep] by (simp add: eq)
    then show ?thesis using assms(2,4) b by auto
  qed
  moreover have "\<forall>a. PPush a \<in> B \<longrightarrow> au_gen a \<le> au_gen (sp_aud_latest p')"
    using assms(1,3,4) unfolding pushes_ok_def by simp
  moreover have "au_gen (sp_aud_latest p') = 0 \<or> PPush (sp_aud_latest p') \<in> B"
    using assms(1,2,4) unfolding pushes_ok_def by auto
  moreover have "\<forall>b. sp_aud_resend p' = Some b \<longrightarrow> PPush b \<in> B"
    using assms(1,2,6) unfolding pushes_ok_def by blast
  moreover have "\<forall>b \<in> set t'. PPush b \<in> B" using assms(1,2,5) unfolding pushes_ok_def by blast
  ultimately show ?thesis unfolding pushes_ok_def by blast
qed

lemma tracks_ok_mono:
  assumes "tracks_ok A p" and "A \<subseteq> B" and "sp_aud_seq p' \<notin> gm_keys (sp_req_acks p')"
    and "\<And>seq ra'. (seq, ra') \<in> set (sp_req_acks p') \<Longrightarrow>
      \<exists>ra. (seq, ra) \<in> set (sp_req_acks p) \<and> ra_req_id ra' = ra_req_id ra \<and> ra_window ra' = ra_window ra \<and>
        (\<forall>e \<in> set (sn_log (sp_down p)). le_seq e = seq \<longrightarrow> e \<in> set (sn_log (sp_down p')))"
  shows "tracks_ok B p'"
proof -
  have "\<exists>f ack. PDispatch (ra_req_id ra') f (ra_window ra') \<in> B \<and> in_log p' seq (f\<lparr>fr_seq := seq, fr_ack := ack\<rparr>)"
    if m: "(seq, ra') \<in> set (sp_req_acks p')" for seq ra'
  proof -
    from assms(4) [OF m] obtain ra where ra: "(seq, ra) \<in> set (sp_req_acks p)" "ra_req_id ra' = ra_req_id ra"
      "ra_window ra' = ra_window ra"
      and keep: "\<And>e. e \<in> set (sn_log (sp_down p)) \<Longrightarrow> le_seq e = seq \<Longrightarrow> e \<in> set (sn_log (sp_down p'))" by blast
    from assms(1) ra(1) obtain f ack where f: "PDispatch (ra_req_id ra) f (ra_window ra) \<in> A"
      and l: "in_log p seq (f\<lparr>fr_seq := seq, fr_ack := ack\<rparr>)" unfolding tracks_ok_def by blast
    have "in_log p' seq (f\<lparr>fr_seq := seq, fr_ack := ack\<rparr>)" by (rule in_log_mono [OF l keep])
    then show ?thesis using f ra(2,3) assms(2) by auto
  qed
  then show ?thesis using assms(3) unfolding tracks_ok_def by blast
qed

lemma push_audience_cases:
  assumes "proto_ok p" and "room p" and "audience_validate a = None" and "push_audience a p = (p', res)"
  obtains (Old) "au_gen a < au_gen (sp_aud_latest p)" "p' = p"
  | (Fresh) s ack where "au_gen (sp_aud_latest p) \<le> au_gen a" "sp_aud_seq p = 0" "sp_aud_latest p' = a" "sp_aud_resend p' = None"
      "sp_req_acks p' = sp_req_acks p" "sp_aud_seq p' = sn_next (sp_down p) + 1"
      "frame_encode (new_audience (sp_aud_seq p') ack a) = Inr s"
      "sn_log (sp_down p') = sn_log (sp_down p) @ [\<lparr>le_seq = sp_aud_seq p', le_payload = to_bytes s\<rparr>]"
  | (Same) "sp_aud_seq p \<noteq> 0" "au_gen a = au_gen (sp_aud_latest p)" "p' = p\<lparr>sp_aud_latest := a, sp_aud_resend := None\<rparr>"
  | (Replaced) s ack where "au_gen (sp_aud_latest p) \<le> au_gen a" "sp_aud_seq p \<noteq> 0" "sp_aud_latest p' = a" "sp_aud_resend p' = None"
      "sp_req_acks p' = sp_req_acks p" "sp_aud_seq p' = sp_aud_seq p"
      "frame_encode (new_audience (sp_aud_seq p) ack a) = Inr s"
      "\<lparr>le_seq = sp_aud_seq p, le_payload = to_bytes s\<rparr> \<in> set (sn_log (sp_down p'))"
      "\<forall>e \<in> set (sn_log (sp_down p)). le_seq e \<noteq> sp_aud_seq p \<longrightarrow> e \<in> set (sn_log (sp_down p'))"
proof (cases "au_gen a < au_gen (sp_aud_latest p)")
  case True
  then show thesis using assms(4) by (intro Old) (simp_all add: push_audience_def)
next
  case newer: False
  let ?q = "p\<lparr>sp_aud_latest := a, sp_aud_resend := None\<rparr>"
  let ?b = "\<lambda>seq ack. new_audience seq ack a"
  let ?m = "\<lambda>seq p. p\<lparr>sp_aud_seq := seq, sp_aud_gen := au_gen a, sp_aud_sent_gen := 0\<rparr>"
  have full: "sender_full (sp_down p)" using assms(1) by (simp add: proto_ok_def)
  show thesis
  proof (cases "sp_aud_seq p = 0")
    case True
    obtain p2 r2 where l: "log_frame ?b ?m ?q = (p2, r2)" by (cases "log_frame ?b ?m ?q")
    have p2: "p' = p2" using assms(4) newer True l by (auto simp: push_audience_def Let_def split: sum.splits)
    have fq: "sender_full (sp_down ?q)" "unat (sn_next (sp_down ?q)) < 2 ^ 64 - 1" using full assms(2) by (simp_all add: room_def)
    from l fq show thesis
    proof (cases rule: log_frame_cases)
      case (Bad e)
      have "sn_next (sp_down p) + 1 \<noteq> 0"
        using assms(2) by (simp add: room_def word_Suc_less unat_word_ariths word_unat_eq_iff)
      from encode_audience [OF assms(3) this, of "recv_acked (sp_up p)"] Bad(3) show ?thesis by auto
    next
      case (Logged s down)
      note lg = append_facts [OF fq Logged(2)]
      show ?thesis
        by (rule Fresh [of "recv_acked (sp_up p)" s]) (use newer True Logged lg in \<open>simp_all add: p2\<close>)
    qed
  next
    case live: False
    have aud: "sn_acked (sp_down p) < sp_aud_seq p" "sp_aud_seq p \<le> sn_next (sp_down p)" "sp_aud_gen p = au_gen (sp_aud_latest p)"
      using assms(1) live by (simp_all add: proto_ok_def sender_acked_def sender_next_def)
    then have ahead: "\<not> sp_aud_seq p \<le> sn_acked (sp_down p)" by simp
    show thesis
    proof (cases "au_gen a \<le> sp_aud_gen p")
      case True
      show thesis
      proof (rule Same [OF live])
        show "au_gen a = au_gen (sp_aud_latest p)" using newer True aud(3) by simp
        show "p' = ?q" using assms(4) newer live True ahead by (simp add: push_audience_def Let_def sender_acked_def)
      qed
    next
      case more: False
      obtain s where s: "frame_encode (new_audience (sp_aud_seq p) (recv_acked (sp_up p)) a) = Inr s"
        using encode_audience [OF assms(3) live] by blast
      obtain down err where e: "sender_elide (sp_down p) (sp_aud_seq p) (to_bytes s) = (down, err)"
        by (cases "sender_elide (sp_down p) (sp_aud_seq p) (to_bytes s)")
      note el = elide_hit [OF full aud(1,2) e]
      have p': "p' = ?q\<lparr>sp_down := down, sp_aud_gen := au_gen a\<rparr>"
        using assms(4) newer live more ahead s e el(1)
        by (simp add: push_audience_def Let_def sender_acked_def split: if_splits)
      have others: "\<forall>x \<in> set (sn_log (sp_down p)). le_seq x \<noteq> sp_aud_seq p \<longrightarrow> x \<in> set (sn_log down)"
        by (rule elide_others [OF e])
      show thesis
        by (rule Replaced [of "recv_acked (sp_up p)" s]) (use newer live s el(5) others in \<open>simp_all add: p'\<close>)
    qed
  qed
qed

lemma gm_set_in:
  assumes "gm_ok m" and "(k', v') \<in> set (gm_set k v m)"
  shows "(k', v') = (k, v) \<or> k' \<noteq> k \<and> (k', v') \<in> set m"
proof -
  have "gm_ok (gm_set k v m)" using assms(1) by simp
  from gm_in_get [OF this assms(2)] show ?thesis by (auto simp: gm_get_set gm_get_in split: if_splits)
qed

lemma trace_push:
  assumes ok: "proto_ok p" and room: "room p" and v: "audience_validate a = None" and st: "push_audience a p = (p', res)"
    and tr: "pushes_ok A p t" "tracks_ok A p"
  shows "pushes_ok (insert (PPush a) A) p' t \<and> tracks_ok (insert (PPush a) A) p'"
  using ok room v st
proof (cases rule: push_audience_cases)
  case Old
  have "pushes_ok (insert (PPush a) A) p t" using tr(1) Old(1) unfolding pushes_ok_def by fastforce
  moreover have "tracks_ok (insert (PPush a) A) p"
    by (rule tracks_ok_mono [OF tr(2)]) (use tr(2) in \<open>auto simp: tracks_ok_def\<close>)
  ultimately show ?thesis using Old(2) by simp
next
  case (Fresh s ack)
  have full: "sender_full (sp_down p)" using ok by (simp add: proto_ok_def)
  have next': "sn_next (sp_down p) < sn_next (sp_down p) + 1"
    by (rule append_facts(6) [OF full room [unfolded room_def] surjective_pairing])
  have keys: "\<forall>k \<in> gm_keys (sp_req_acks p). k \<le> sn_next (sp_down p)" using ok by (simp add: proto_ok_def sender_next_def)
  then have "sp_aud_seq p' \<notin> gm_keys (sp_req_acks p')" unfolding Fresh(5,6) using next' by (meson not_le)
  then have "tracks_ok (insert (PPush a) A) p'"
    by (rule tracks_ok_mono [OF tr(2) subset_insertI]) (use Fresh(5,8) in auto)
  moreover have "in_log p' (sp_aud_seq p') (new_audience (sp_aud_seq p') ack a)"
    using Fresh(7,8) by (auto simp: in_log_def sender_entries_def)
  then have "pushes_ok (insert (PPush a) A) p' t"
    using tr(1) Fresh(1,3,4) unfolding pushes_ok_def by fastforce
  ultimately show ?thesis by simp
next
  case Same
  have "tracks_ok (insert (PPush a) A) p'"
    by (rule tracks_ok_mono [OF tr(2) subset_insertI]) (use tr(2) Same(3) in \<open>auto simp: tracks_ok_def\<close>)
  moreover have "pushes_ok (insert (PPush a) A) p' t"
    using tr(1) Same unfolding pushes_ok_def in_log_def by fastforce
  ultimately show ?thesis by simp
next
  case (Replaced s ack)
  have "sp_aud_seq p' \<notin> gm_keys (sp_req_acks p')" using tr(2) Replaced(5,6) by (simp add: tracks_ok_def)
  then have "tracks_ok (insert (PPush a) A) p'"
  proof (rule tracks_ok_mono [OF tr(2) subset_insertI])
    fix seq ra
    assume m: "(seq, ra) \<in> set (sp_req_acks p')"
    then have "seq \<in> gm_keys (sp_req_acks p)" by (force simp: Replaced(5))
    moreover have "sp_aud_seq p \<notin> gm_keys (sp_req_acks p)" using tr(2) unfolding tracks_ok_def by blast
    ultimately have "seq \<noteq> sp_aud_seq p" by blast
    then show "\<exists>ra'. (seq, ra') \<in> set (sp_req_acks p) \<and> ra_req_id ra = ra_req_id ra' \<and> ra_window ra = ra_window ra' \<and>
        (\<forall>e \<in> set (sn_log (sp_down p)). le_seq e = seq \<longrightarrow> e \<in> set (sn_log (sp_down p')))"
      using m Replaced(5,9) by (intro exI [of _ ra]) auto
  qed
  moreover have "in_log p' (sp_aud_seq p') (new_audience (sp_aud_seq p') ack a)"
    using Replaced(6-8) by (auto simp: in_log_def sender_entries_def)
  then have "pushes_ok (insert (PPush a) A) p' t"
    using tr(1) Replaced(1,3,4) unfolding pushes_ok_def by fastforce
  ultimately show ?thesis by simp
qed

lemma trace_dispatch:
  assumes ok: "proto_ok p" and room: "room p" and st: "dispatch_request r f w p = (p', res)"
    and tr: "pushes_ok A p t" "tracks_ok A p"
  shows "pushes_ok (insert (PDispatch r f w) A) p' t \<and> tracks_ok (insert (PDispatch r f w) A) p'"
proof -
  have full: "sender_full (sp_down p)" and gm: "gm_ok (sp_req_acks p)" using ok by (simp_all add: proto_ok_def)
  let ?B = "insert (PDispatch r f w) A"
  show ?thesis
  proof (cases rule: log_frame_cases [OF st [unfolded dispatch_request_def] full room [unfolded room_def],
      case_names Bad Logged])
    case (Bad e)
    have "pushes_ok ?B p t" by (rule pushes_ok_mono [OF tr(1) subset_insertI]) auto
    moreover have "tracks_ok ?B p" by (rule tracks_ok_mono [OF tr(2) subset_insertI]) (use tr(2) in \<open>auto simp: tracks_ok_def\<close>)
    ultimately show ?thesis using Bad(1) by simp
  next
    case (Logged s down)
    note a = append_facts [OF full room [unfolded room_def] Logged(2)]
    let ?seq = "sn_next (sp_down p) + 1"
    let ?ra = "\<lparr>ra_req_id = r, ra_window = w, ra_deadline = 0\<rparr>"
    have p': "sp_down p' = down" "sp_req_acks p' = gm_set ?seq ?ra (sp_req_acks p)" "sp_aud_seq p' = sp_aud_seq p"
      "sp_aud_latest p' = sp_aud_latest p" "sp_aud_resend p' = sp_aud_resend p" using Logged(3) by simp_all
    have keep: "e \<in> set (sn_log (sp_down p'))" if "e \<in> set (sn_log (sp_down p))" for e using that a(5) by (simp add: p'(1))
    have "pushes_ok ?B p' t" by (rule pushes_ok_mono [OF tr(1) subset_insertI]) (use keep p' in auto)
    moreover have "sp_aud_seq p \<le> sn_next (sp_down p)"
      using ok by (cases "sp_aud_seq p = 0") (simp_all add: proto_ok_def sender_next_def)
    then have "sp_aud_seq p \<noteq> ?seq" using a(6) by auto
    then have fresh: "sp_aud_seq p' \<notin> gm_keys (sp_req_acks p')" using tr(2) by (simp add: p' tracks_ok_def)
    have logged: "in_log p' ?seq (f\<lparr>fr_seq := ?seq, fr_ack := recv_acked (sp_up p)\<rparr>)"
      using Logged(1) a(5) by (simp add: in_log_def sender_entries_def p'(1))
    have "\<exists>g ack. PDispatch (ra_req_id ra) g (ra_window ra) \<in> ?B \<and> in_log p' seq (g\<lparr>fr_seq := seq, fr_ack := ack\<rparr>)"
      if m: "(seq, ra) \<in> set (sp_req_acks p')" for seq ra
      using gm_set_in [OF gm m [unfolded p'(2)]]
    proof
      assume "(seq, ra) = (?seq, ?ra)"
      then show ?thesis using logged by auto
    next
      assume "seq \<noteq> ?seq \<and> (seq, ra) \<in> set (sp_req_acks p)"
      then obtain g ack where g: "PDispatch (ra_req_id ra) g (ra_window ra) \<in> A"
        and l: "in_log p seq (g\<lparr>fr_seq := seq, fr_ack := ack\<rparr>)" using tr(2) unfolding tracks_ok_def by blast
      have "in_log p' seq (g\<lparr>fr_seq := seq, fr_ack := ack\<rparr>)" by (rule in_log_mono [OF l keep])
      then show ?thesis using g by blast
    qed
    then have "tracks_ok ?B p'" using fresh unfolding tracks_ok_def by blast
    ultimately show ?thesis by simp
  qed
qed

lemma trace_ack:
  assumes ok: "proto_ok p" and st: "ack_down n p = (p', applied)" and tr: "pushes_ok A p t" "tracks_ok A p" and sub: "A \<subseteq> B"
    and pb: "\<forall>a. PPush a \<in> B \<longrightarrow> PPush a \<in> A"
  shows "pushes_ok B p' t \<and> tracks_ok B p'"
proof -
  have full: "sender_full (sp_down p)" using ok by (simp add: proto_ok_def)
  note fr = ack_down_frame [OF ok st] and ok' = proto_ok_ack [OF ok st] and ack = sender_ack_inv [OF sender_full_inv [OF full], of n]
  have app: "applied = ack_target (sp_down p) n" using ack(2) by (simp add: fr(1,2) sender_acked_def)
  have keep: "e \<in> set (sn_log (sp_down p'))" if "e \<in> set (sn_log (sp_down p))" "applied < le_seq e" for e
    using that ack(4) by (simp add: fr(1) app)
  have aud: "sp_aud_seq p' = 0 \<or> sp_aud_seq p' = sp_aud_seq p \<and> applied < sp_aud_seq p'"
    using ok st
  proof (cases rule: ack_down_cases)
    case Uncovered
    then show ?thesis by (cases "sp_aud_seq p = 0") auto
  qed simp
  have "pushes_ok B p' t"
  proof (rule pushes_ok_mono [OF tr(1) sub pb fr(3)])
    show "sp_aud_resend p = Some b \<or> au_gen (sp_aud_latest p) \<noteq> 0 \<and> b = sp_aud_latest p" if "sp_aud_resend p' = Some b" for b
      using ok st
    proof (cases rule: ack_down_cases)
      case Covered
      then show ?thesis using that ok by (auto simp: proto_ok_def split: if_splits)
    qed (use that in simp)
    show "sp_aud_seq p' = 0 \<or> sp_aud_seq p' = sp_aud_seq p \<and>
        (\<forall>e \<in> set (sn_log (sp_down p)). le_seq e = sp_aud_seq p \<longrightarrow> e \<in> set (sn_log (sp_down p')))"
      using aud keep by auto
  qed simp
  moreover have "sp_aud_seq p' \<notin> gm_keys (sp_req_acks p')"
  proof (cases "sp_aud_seq p' = 0")
    case True
    have "\<forall>k \<in> gm_keys (sp_req_acks p'). sender_acked (sp_down p') < k" using ok'(1) by (simp add: proto_ok_def)
    then show ?thesis using True by fastforce
  next
    case False
    then show ?thesis using aud tr(2) by (auto simp: fr(4) tracks_ok_def)
  qed
  then have "tracks_ok B p'"
    by (rule tracks_ok_mono [OF tr(2) sub]) (use keep in \<open>auto simp: fr(4) not_le\<close>)
  ultimately show ?thesis by simp
qed

lemma written_reqs:
  assumes "gm_ok (sp_req_acks p)" and "(k, ra') \<in> set (sp_req_acks (note_written now seq b p))"
  shows "\<exists>ra. (k, ra) \<in> set (sp_req_acks p) \<and> ra_req_id ra' = ra_req_id ra \<and> ra_window ra' = ra_window ra"
proof -
  define q where "q = (if seq \<noteq> 0 \<and> seq = sp_aud_seq p
               then case frame_decode (of_bytes b) of
                      Inl _ \<Rightarrow> p
                    | Inr f \<Rightarrow> if fr_type f = type_audience \<and> fr_gen f > sp_aud_sent_gen p
                              then p\<lparr>sp_aud_sent_gen := fr_gen f\<rparr> else p
               else p)"
  have q: "sp_req_acks q = sp_req_acks p" by (simp add: q_def split: sum.split)
  have "(k, ra') \<in> set (sp_req_acks p) \<or> (\<exists>ra d. gm_get (sp_req_acks p) seq = Some ra \<and>
      (k, ra') \<in> set (gm_set seq (ra\<lparr>ra_deadline := d\<rparr>) (sp_req_acks p)))"
    using assms(2) unfolding note_written_def Let_def q_def [symmetric] q
    by (auto simp: q split: option.splits if_splits)
  then show ?thesis
  proof (elim disjE exE conjE)
    fix ra d
    assume g: "gm_get (sp_req_acks p) seq = Some ra"
      and m: "(k, ra') \<in> set (gm_set seq (ra\<lparr>ra_deadline := d\<rparr>) (sp_req_acks p))"
    show ?thesis using gm_set_in [OF assms(1) m] gm_get_in [OF g] by auto
  qed auto
qed

lemma trace_step:
  assumes hist: "hist_ok ops p t" and v: "valid_push op" and len: "length ops < 2 ^ 64 - 1"
    and st: "proto_step op (p, t) = (p', t')" and tr: "pushes_ok (set ops) p t" "tracks_ok (set ops) p"
  shows "pushes_ok (set (ops @ [op])) p' t' \<and> tracks_ok (set (ops @ [op])) p'"
proof -
  have ok: "proto_ok p" and room: "room p" using hist len by (simp_all add: hist_ok_def room_def)
  have gm: "gm_ok (sp_req_acks p)" using ok by (simp add: proto_ok_def)
  have aud: "sp_aud_seq p \<notin> gm_keys (sp_req_acks p)" using tr(2) by (simp add: tracks_ok_def)
  have ins: "set (ops @ [op]) = insert op (set ops)" by simp
  have pb: "\<forall>a. PPush a \<in> insert op (set ops) \<longrightarrow> PPush a \<in> set ops" if "\<forall>a. op \<noteq> PPush a" using that by auto
  have same: ?thesis
    if np: "\<forall>a. op \<noteq> PPush a" and eqs: "sp_down p' = sp_down p" "sp_aud_latest p' = sp_aud_latest p" "sp_aud_seq p' = sp_aud_seq p"
      and res: "\<And>b. sp_aud_resend p' = Some b \<Longrightarrow> sp_aud_resend p = Some b"
      and tk: "set t' \<subseteq> set t \<union> {b. sp_aud_resend p = Some b}"
      and keys: "sp_aud_seq p \<notin> gm_keys (sp_req_acks p')"
      and reqs: "\<And>k ra'. (k, ra') \<in> set (sp_req_acks p') \<Longrightarrow>
        \<exists>ra. (k, ra) \<in> set (sp_req_acks p) \<and> ra_req_id ra' = ra_req_id ra \<and> ra_window ra' = ra_window ra"
    unfolding ins
  proof
    show "pushes_ok (insert op (set ops)) p' t'"
      by (rule pushes_ok_mono [OF tr(1) subset_insertI pb [OF np] eqs(2) tk]) (use eqs res in auto)
    show "tracks_ok (insert op (set ops)) p'"
      by (rule tracks_ok_mono [OF tr(2) subset_insertI]) (use keys eqs reqs in auto)
  qed
  show ?thesis
  proof (cases op)
    case (PAccept seq b)
    then obtain r where "p' = p\<lparr>sp_up := r\<rparr>" "t' = t" using st by (auto simp: proto_accept_def split: prod.splits)
    then show ?thesis using PAccept aud by (intro same) auto
  next
    case (PAck n)
    then have p': "ack_down n p = (p', snd (ack_down n p))" "t' = t" using st by (auto simp: prod_eq_iff)
    show ?thesis unfolding ins p'(2)
      by (rule trace_ack [OF ok p'(1) tr subset_insertI pb]) (simp add: PAck)
  next
    case PTake
    then show ?thesis using st aud
      by (intro same) (auto simp: take_audience_resend_def split: option.splits)
  next
    case (PDispatch r f w)
    then have d: "dispatch_request r f w p = (p', snd (dispatch_request r f w p))" "t' = t" using st by (auto simp: prod_eq_iff)
    show ?thesis using trace_dispatch [OF ok room d(1) tr] by (simp add: PDispatch d(2))
  next
    case (PWritten now seq b)
    then have p': "p' = note_written now seq b p" "t' = t" using st by simp_all
    note w = written_facts [where p = p and now = now and seq = seq and b = b, folded p'(1)]
    show ?thesis
      by (rule same) (use PWritten w(1-4,7) aud p' written_reqs [OF gm] in \<open>auto simp del: gm_keys_set\<close>)
  next
    case (PPush a)
    then have d: "push_audience a p = (p', snd (push_audience a p))" "t' = t" using st by (auto simp: prod_eq_iff)
    have "audience_validate a = None" using v PPush by (simp add: valid_push_def)
    then show ?thesis using trace_push [OF ok room _ d(1) tr] by (simp add: PPush d(2))
  next
    case (PExpire now)
    then have "p' = p\<lparr>sp_req_acks := filter (\<lambda>(seq, ra). \<not> request_expired now ra) (sp_req_acks p)\<rparr>" "t' = t"
      using st by (simp_all add: expire_requests_def)
    then show ?thesis using PExpire aud by (intro same) auto
  qed
qed

lemma trace_run:
  "list_all valid_push ops \<Longrightarrow> length ops < 2 ^ 64 \<Longrightarrow>
     proto_run ops (new_session_proto epoch up window, []) = (p, t) \<Longrightarrow> pushes_ok (set ops) p t \<and> tracks_ok (set ops) p"
proof (induction ops arbitrary: p t rule: rev_induct)
  case Nil
  then have "p = new_session_proto epoch up window" "t = []" by (simp_all add: proto_run_def)
  then show ?case by (simp add: pushes_ok_def tracks_ok_def new_session_proto_def zero_audience_def)
next
  case (snoc op ops)
  obtain q u where q: "proto_run ops (new_session_proto epoch up window, []) = (q, u)"
    by (cases "proto_run ops (new_session_proto epoch up window, [])")
  have "proto_step op (q, u) = (p, t)" using snoc.prems(3) q by (simp add: proto_run_def)
  moreover have "list_all valid_push ops" "valid_push op" "length ops < 2 ^ 64" "length ops < 2 ^ 64 - 1"
    using snoc.prems(1,2) by auto
  ultimately show ?case using snoc.IH [OF _ _ q] hist_ok_run [OF _ _ q] by (intro trace_step) auto
qed

text \<open>C11: The newest audience is never lost. Over every history of pushes, acks, dispatches, writes and
  resends of a sequence space, each snapshot pushed is accounted for by one at least as new: the
  unacknowledged log carries the frame of a pushed snapshot under the number on record, or a pushed
  snapshot waits in the resend slot or was taken from it, or a frame of that generation was written to
  a transport; so a replacement that lands after the old payload was written cannot be swallowed as a
  duplicate, and none is dropped while an older frame is in flight.\<close>

theorem newest_audience_not_lost:
  assumes "list_all valid_push ops" and "length ops < 2 ^ 64"
    and "proto_run ops (new_session_proto epoch up window, []) = (p, taken)" and "PPush a \<in> set ops"
  shows "(\<exists>b. PPush b \<in> set ops \<and> au_gen a \<le> au_gen b \<and>
       ((\<exists>ack. \<lparr>le_seq = sp_aud_seq p, le_payload = frame_bytes (new_audience (sp_aud_seq p) ack b)\<rparr> \<in> set (proto_entries p)) \<or>
        sp_aud_resend p = Some b \<or> b \<in> set taken)) \<or>
     (\<exists>op \<in> set ops. au_gen a \<le> written_gen op)"
proof -
  have tr: "pushes_ok (set ops) p taken" using trace_run [OF assms(1-3)] by blast
  have le: "au_gen a \<le> au_gen (sp_aud_latest p)" using tr assms(4) unfolding pushes_ok_def by blast
  have "audience_validate a = None" using assms(1,4) by (auto simp: list_all_iff valid_push_def)
  then have "au_gen a \<noteq> 0" by (simp add: audience_validate_iff)
  then have ne: "au_gen (sp_aud_latest p) \<noteq> 0" using le by auto
  have "audience_safe ops p taken" using hist_ok_run [OF assms(1-3)] by (simp add: hist_ok_def)
  then consider "sp_aud_seq p \<noteq> 0" | "sp_aud_resend p = Some (sp_aud_latest p)"
    | op where "op \<in> set ops" "au_gen (sp_aud_latest p) \<le> written_gen op"
    | b where "b \<in> set taken" "au_gen b = au_gen (sp_aud_latest p)"
    using ne unfolding audience_safe_def by blast
  then show ?thesis
  proof cases
    case 1
    then obtain b ack where b: "PPush b \<in> set ops" "au_gen b = au_gen (sp_aud_latest p)"
      "in_log p (sp_aud_seq p) (new_audience (sp_aud_seq p) ack b)" using tr unfolding pushes_ok_def by blast
    then have "\<lparr>le_seq = sp_aud_seq p, le_payload = frame_bytes (new_audience (sp_aud_seq p) ack b)\<rparr> \<in> set (proto_entries p)"
      by (auto simp: in_log_def proto_entries_def frame_bytes_encode)
    then show ?thesis using b(1,2) le by auto
  next
    case 2
    then show ?thesis using tr le unfolding pushes_ok_def by blast
  next
    case 3
    then show ?thesis using le order_trans by blast
  next
    case 4
    then show ?thesis using tr le unfolding pushes_ok_def by metis
  qed
qed

definition sample_audience :: audience where
  "sample_audience = \<lparr>au_gen = 1, au_watchers = 1, au_all = True, au_sessions = []\<rparr>"

lemma newest_audience_not_lost_witness:
  "case proto_run [PPush sample_audience, PPush (sample_audience\<lparr>au_gen := 2\<rparr>)] (new_session_proto 1 0 10, []) of (p, taken) \<Rightarrow>
     \<exists>ack. \<lparr>le_seq = sp_aud_seq p, le_payload = frame_bytes (new_audience (sp_aud_seq p) ack (sample_audience\<lparr>au_gen := 2\<rparr>))\<rparr>
       \<in> set (proto_entries p)"
proof -
  let ?ops = "[PPush sample_audience, PPush (sample_audience\<lparr>au_gen := 2\<rparr>)]"
  obtain p taken where run: "proto_run ?ops (new_session_proto 1 0 10, []) = (p, taken)"
    by (cases "proto_run ?ops (new_session_proto 1 0 10, [])")
  have "case proto_run ?ops (new_session_proto 1 0 10, []) of (p, taken) \<Rightarrow> sp_aud_resend p = None \<and> taken = []" by code_simp
  then have "sp_aud_resend p = None" "taken = []" using run by simp_all
  then show ?thesis
    using newest_audience_not_lost [OF _ _ run, of "sample_audience\<lparr>au_gen := 2\<rparr>"] run
    by (auto simp: valid_push_def audience_validate_iff sample_audience_def written_gen_def word_le_nat_alt)
qed

text \<open>C26: A request waiting for its ack is in the log. Over every history each request the protocol state
  still tracks was dispatched, and the frame dispatched for it, with its number and ack filled in and
  nothing else changed, is in the unacknowledged log, above the watermark, so a retransmission can
  still deliver it; a covering ack forgets exactly the requests it covers.\<close>

theorem tracked_requests_in_log:
  assumes "list_all valid_push ops" and "length ops < 2 ^ 64"
    and "proto_run ops (new_session_proto epoch up window, []) = (p, taken)"
    and "gm_get (sp_req_acks p) seq = Some ra"
  shows "(\<exists>f ack s. PDispatch (ra_req_id ra) f (ra_window ra) \<in> set ops \<and>
       frame_encode (f\<lparr>fr_seq := seq, fr_ack := ack\<rparr>) = Inr s \<and>
       \<lparr>le_seq = seq, le_payload = to_bytes s\<rparr> \<in> set (proto_entries p)) \<and>
    proto_down_acked p < seq \<and>
    (\<forall>n. seq \<notin> gm_keys (sp_req_acks (fst (ack_down n p))) \<longleftrightarrow> seq \<le> n)"
proof -
  have ok: "proto_ok p" using hist_ok_run [OF assms(1-3)] by (simp add: hist_ok_def)
  have key: "seq \<in> gm_keys (sp_req_acks p)" using assms(4) by (simp add: gm_keys_iff)
  from ok key have full: "sender_full (sp_down p)" and seq: "sn_acked (sp_down p) < seq" "seq \<le> sn_next (sp_down p)"
    by (auto simp: proto_ok_def sender_acked_def sender_next_def)
  have "tracks_ok (set ops) p" using trace_run [OF assms(1-3)] by blast
  with gm_get_in [OF assms(4)] obtain f ack where "PDispatch (ra_req_id ra) f (ra_window ra) \<in> set ops"
    "in_log p seq (f\<lparr>fr_seq := seq, fr_ack := ack\<rparr>)" unfolding tracks_ok_def by blast
  then have "\<exists>f ack s. PDispatch (ra_req_id ra) f (ra_window ra) \<in> set ops \<and>
       frame_encode (f\<lparr>fr_seq := seq, fr_ack := ack\<rparr>) = Inr s \<and>
       \<lparr>le_seq = seq, le_payload = to_bytes s\<rparr> \<in> set (proto_entries p)"
    unfolding in_log_def proto_entries_def by blast
  moreover have "seq \<notin> gm_keys (sp_req_acks (fst (ack_down n p))) \<longleftrightarrow> seq \<le> n" for n
  proof -
    obtain p' applied where a: "ack_down n p = (p', applied)" by (cases "ack_down n p")
    have "applied = ack_target (sp_down p) n"
      using ack_down_frame(1,2) [OF ok a] sender_ack_inv(2) [OF sender_full_inv [OF full]] by (simp add: sender_acked_def)
    moreover have "seq \<in> gm_keys (sp_req_acks p') \<longleftrightarrow> \<not> seq \<le> applied"
      unfolding ack_down_frame(4) [OF ok a] using key by force
    ultimately show ?thesis using seq a by (auto simp: ack_target_def max_def min_def split: if_splits)
  qed
  ultimately show ?thesis using seq by (simp add: proto_down_acked_def sender_acked_def)
qed

definition sample_request :: frame where
  "sample_request = zero_frame\<lparr>fr_v := protocol_version, fr_type := type_request, fr_req_id := ''r1'',
     fr_method := ''GET'', fr_path := ''/api/status''\<rparr>"

lemma tracked_requests_in_log_witness:
  "case proto_run [PDispatch ''r1'' sample_request 0] (new_session_proto 1 0 10, []) of (p, taken) \<Rightarrow>
     \<exists>ack s. frame_encode (sample_request\<lparr>fr_seq := 1, fr_ack := ack\<rparr>) = Inr s \<and>
       \<lparr>le_seq = 1, le_payload = to_bytes s\<rparr> \<in> set (proto_entries p) \<and> proto_down_acked p < 1"
proof -
  obtain p taken where run: "proto_run [PDispatch ''r1'' sample_request 0] (new_session_proto 1 0 10, []) = (p, taken)"
    by (cases "proto_run [PDispatch ''r1'' sample_request 0] (new_session_proto 1 0 10, [])")
  have "gm_get (sp_req_acks (fst (proto_run [PDispatch ''r1'' sample_request 0] (new_session_proto 1 0 10, [])))) 1
      = Some \<lparr>ra_req_id = ''r1'', ra_window = 0, ra_deadline = 0\<rparr>" by code_simp
  then have "gm_get (sp_req_acks p) 1 = Some \<lparr>ra_req_id = ''r1'', ra_window = 0, ra_deadline = 0\<rparr>" by (simp only: run fst_conv)
  moreover have "list_all valid_push [PDispatch ''r1'' sample_request 0]" "length [PDispatch ''r1'' sample_request 0] < 2 ^ 64"
    by (simp_all add: valid_push_def)
  ultimately show ?thesis using tracked_requests_in_log [OF _ _ run] run by fastforce
qed

end
