(* ===== verification/Registry.thy ===== *)
theory Registry
  imports Users EventBuffer SessionProto Relay
begin

text \<open>
  The host registry of \<open>internal/hub/hub.go\<close>: pairing codes, tokens, hosts and their attachment, on
  top of the user table, the preferences, the subscribers and the relay plane, all of which it moves.
  A session is named by a number; requests to stop one are collected in order. The clock is read
  once per operation; random draws are explicit, and an operation has no value (\<open>None\<close>) when the
  draws run out or a slice bound panics. The audience fields of a host live with the subscribers.

  \<open>PairAs\<close> and \<open>Unpair\<close> release the hub's mutex before they persist, stop the session and kick pages;
  an operation here is one step, so a state between the two halves is not one of its states. The
  order of the halves is kept, and \<open>persistNow\<close> takes its snapshot under the mutex when it writes, so
  the file is never older than the operation that asked for it.
\<close>

record host_info =
  hi_host_id :: string
  hi_host_name :: string
  hi_owner_id :: string
  hi_online :: bool
  hi_ready :: bool
  hi_busy :: bool
  hi_booting :: bool
  hi_pending_count :: int
  hi_port :: int
  hi_last_seen :: time
  hi_last_seen_age_ms :: int

record host_state =
  ht_info :: host_info
  ht_owner_id :: string
  ht_token :: string
  ht_session :: "nat option"
  ht_proto :: "session_proto option"
  ht_up_acked :: u64
  ht_plane :: data_plane
  ht_ev_buf_epoch :: u64

record persist_host =
  pt_host_id :: string
  pt_host_name :: string
  pt_owner_id :: string
  pt_ready :: bool
  pt_port :: int

record persist_file =
  pf_tokens :: "(string, string) gomap"
  pf_hosts :: "(string, persist_host) gomap"

record registry = user_hub +
  rg_pairing_code :: string
  rg_code_expires :: time
  rg_tokens :: "(string, string) gomap"
  rg_hosts :: "(string, host_state) gomap"
  rg_relay :: relay
  rg_data_file :: string
  rg_disk :: "persist_file option"
  rg_hub_boot :: u64
  rg_next_session :: nat
  rg_stops :: "(nat \<times> close_reason) list"

datatype registry_error =
    ErrCodeInvalid | ErrHostUnknown | ErrHostLimit | ErrHostIdEmpty | ErrHostIdLong | ErrHostNameEmpty | ErrHostNameLong

definition pairing_code_ttl :: duration where "pairing_code_ttl = 15 * minute"
definition max_hosts :: nat where "max_hosts = 256"
definition max_host_id_len :: int where "max_host_id_len = 128"
definition max_host_name_len :: int where "max_host_name_len = 256"

definition zero_host_info :: host_info where
  "zero_host_info = \<lparr>hi_host_id = [], hi_host_name = [], hi_owner_id = [], hi_online = False, hi_ready = False,
     hi_busy = False, hi_booting = False, hi_pending_count = 0, hi_port = 0, hi_last_seen = 0, hi_last_seen_age_ms = 0\<rparr>"

definition new_host :: "host_info \<Rightarrow> string \<Rightarrow> string \<Rightarrow> host_state" where
  "new_host info owner token = \<lparr>ht_info = info, ht_owner_id = owner, ht_token = token, ht_session = None, ht_proto = None,
     ht_up_acked = 0, ht_plane = new_plane 0, ht_ev_buf_epoch = 0\<rparr>"

text \<open>Writes through a host's pointer, and the host's row in the subscribers' view of the registry.\<close>

definition modify_host :: "string \<Rightarrow> (host_state \<Rightarrow> host_state) \<Rightarrow> 'a registry_scheme \<Rightarrow> 'a registry_scheme" where
  "modify_host i f h =
     (case gm_get (rg_hosts h) i of None \<Rightarrow> h | Some hs \<Rightarrow> h\<lparr>rg_hosts := gm_set i (f hs) (rg_hosts h)\<rparr>)"

definition set_attached :: "string \<Rightarrow> bool \<Rightarrow> 'a registry_scheme \<Rightarrow> 'a registry_scheme" where
  "set_attached i b h =
     (case gm_get (hb_hosts (ph_fan h)) i of
        None \<Rightarrow> h
      | Some v \<Rightarrow> h\<lparr>ph_fan := (ph_fan h)\<lparr>hb_hosts := gm_set i (v\<lparr>hv_attached := b\<rparr>) (hb_hosts (ph_fan h))\<rparr>\<rparr>)"

definition zero_view :: host_view where
  "zero_view = \<lparr>hv_attached = False, hv_audience_gen = 0, hv_audience_key = []\<rparr>"

definition add_host :: "string \<Rightarrow> host_state \<Rightarrow> 'a registry_scheme \<Rightarrow> 'a registry_scheme" where
  "add_host i hs h = h\<lparr>rg_hosts := gm_set i hs (rg_hosts h),
     ph_fan := (ph_fan h)\<lparr>hb_hosts := gm_set i zero_view (hb_hosts (ph_fan h))\<rparr>\<rparr>"

definition del_host :: "string \<Rightarrow> 'a registry_scheme \<Rightarrow> 'a registry_scheme" where
  "del_host i h = h\<lparr>rg_hosts := gm_del i (rg_hosts h),
     ph_fan := (ph_fan h)\<lparr>hb_hosts := gm_del i (hb_hosts (ph_fan h))\<rparr>\<rparr>"

definition registry_broadcast :: "event \<Rightarrow> 'a registry_scheme \<Rightarrow> 'a registry_scheme" where
  "registry_broadcast ev h = h\<lparr>ph_fan := broadcast ev (ph_fan h)\<rparr>"

section \<open>Persistence\<close>

definition load_host :: "string \<times> persist_host \<Rightarrow> 'a registry_scheme \<Rightarrow> 'a registry_scheme" where
  "load_host e h =
     (case e of (hid, ph) \<Rightarrow>
        let i = (if pt_host_id ph = [] then hid else pt_host_id ph);
            owner = host_owner_or_default (pt_owner_id ph)
        in add_host i (new_host (zero_host_info\<lparr>hi_host_id := i, hi_host_name := pt_host_name ph, hi_owner_id := owner,
                                           hi_ready := pt_ready ph, hi_port := pt_port ph\<rparr>) owner []) h)"

definition load_token :: "string \<times> string \<Rightarrow> 'a registry_scheme \<Rightarrow> 'a registry_scheme" where
  "load_token e h =
     (case e of (tk, hid) \<Rightarrow>
        if tk = [] \<or> hid = [] then h
        else let h = h\<lparr>rg_tokens := gm_set tk hid (rg_tokens h)\<rparr>
             in if gm_get (rg_hosts h) hid \<noteq> None then modify_host hid (\<lambda>hs. hs\<lparr>ht_token := tk\<rparr>) h
                else add_host hid (new_host (zero_host_info\<lparr>hi_host_id := hid, hi_owner_id := ''root''\<rparr>) ''root'' tk) h)"

definition load_registry :: "persist_file option \<Rightarrow> 'a registry_scheme \<Rightarrow> 'a registry_scheme" where
  "load_registry doc h =
     (case doc of None \<Rightarrow> h | Some pf \<Rightarrow> fold load_token (pf_tokens pf) (fold load_host (pf_hosts pf) h))"

definition snapshot :: "'a registry_scheme \<Rightarrow> persist_file" where
  "snapshot h = \<lparr>pf_tokens = rg_tokens h,
     pf_hosts = map (\<lambda>(hid, hs). (hid, \<lparr>pt_host_id = hid, pt_host_name = hi_host_name (ht_info hs),
       pt_owner_id = host_owner_or_default (ht_owner_id hs), pt_ready = hi_ready (ht_info hs), pt_port = hi_port (ht_info hs)\<rparr>))
       (rg_hosts h)\<rparr>"

definition persist_now :: "'a registry_scheme \<Rightarrow> 'a registry_scheme" where
  "persist_now h = (if rg_data_file h = [] \<or> \<not> ph_disk_ok h then h else h\<lparr>rg_disk := Some (snapshot h)\<rparr>)"

section \<open>Pairing codes\<close>

definition code_alphabet :: string where "code_alphabet = ''ABCDEFGHJKMNPQRSTUVWXYZ23456789''"

definition random_string :: "string \<Rightarrow> bytes \<Rightarrow> string" where
  "random_string alphabet b = map (\<lambda>w. alphabet ! (unat w mod length alphabet)) b"

text \<open>
  The branch of \<open>randomString\<close> for a failed read of the random source: a congruential generator on
  the clock, in \<open>int64\<close>. Go's remainder has the sign of the dividend, and a negative index panics
  (\<open>None\<close>). The operations below draw from a source that answers.
\<close>

definition go_rem :: "int \<Rightarrow> int \<Rightarrow> int" where
  "go_rem a b = (if a < 0 then - ((- a) mod b) else a mod b)"

fun random_string_fallback :: "string \<Rightarrow> nat \<Rightarrow> 64 word \<Rightarrow> string option" where
  "random_string_fallback alphabet 0 now = Some []"
| "random_string_fallback alphabet (Suc n) now =
     (let now = now * 6364136223846793005 + 1442695040888963407;
          i = go_rem (sint now div 2 ^ 33) (int (length alphabet))
      in if i < 0 then None else map_option (Cons (alphabet ! nat i)) (random_string_fallback alphabet n now))"

text \<open>At one clock reading of 2024 the six characters of a code cannot be drawn.\<close>

lemma fallback_panics: "random_string_fallback code_alphabet 6 1717171717000000000 = None"
  by code_simp

definition random_token :: "bytes \<Rightarrow> string" where "random_token b = hex_encode b"

text \<open>
  \<open>strings.ToUpper\<close>: ASCII letters and the two runes whose upper case is an ASCII letter (U+0131 and
  U+017F). Every other rune stays outside ASCII, which is all a comparison with a code can see.
\<close>

fun to_upper :: "string \<Rightarrow> string" where
  "to_upper [] = []"
| "to_upper [c] = [if 97 \<le> byte_of c \<and> byte_of c \<le> 122 then char_of (byte_of c - 32) else c]"
| "to_upper (c # d # r) =
     (if c = CHR 0xC4 \<and> d = CHR 0xB1 then CHR ''I'' # to_upper r
      else if c = CHR 0xC5 \<and> d = CHR 0xBF then CHR ''S'' # to_upper r
      else (if 97 \<le> byte_of c \<and> byte_of c \<le> 122 then char_of (byte_of c - 32) else c) # to_upper (d # r))"

definition rotate_code :: "bytes list \<Rightarrow> time \<Rightarrow> 'a registry_scheme \<Rightarrow> 'a registry_scheme option" where
  "rotate_code draws now h =
     map_option (\<lambda>c. h\<lparr>rg_pairing_code := c, rg_code_expires := now + pairing_code_ttl\<rparr>)
       (draw_fresh (random_string code_alphabet) (\<lambda>c. gm_get (uh_pair_codes h) c \<noteq> None) draws)"

definition ensure_fresh_pairing_code :: "bytes list \<Rightarrow> time \<Rightarrow> 'a registry_scheme \<Rightarrow> ('a registry_scheme \<times> string \<times> time) option" where
  "ensure_fresh_pairing_code draws now h =
     map_option (\<lambda>h. (h, rg_pairing_code h, rg_code_expires h))
       (if now > rg_code_expires h then rotate_code draws now h else Some h)"

definition rotate_pairing_code :: "bytes list \<Rightarrow> time \<Rightarrow> 'a registry_scheme \<Rightarrow> ('a registry_scheme \<times> string \<times> time) option" where
  "rotate_pairing_code draws now h =
     map_option (\<lambda>h. (h, rg_pairing_code h, rg_code_expires h)) (rotate_code draws now h)"

definition new_unique_pair_code :: "bytes list \<Rightarrow> 'a registry_scheme \<Rightarrow> string option" where
  "new_unique_pair_code draws h =
     draw_fresh (random_string code_alphabet)
       (\<lambda>c. c = rg_pairing_code h \<or> gm_get (uh_pair_codes h) c \<noteq> None) draws"

definition put_user_code :: "string \<Rightarrow> string \<Rightarrow> time \<Rightarrow> 'a registry_scheme \<Rightarrow> 'a registry_scheme" where
  "put_user_code owner c expires h =
     h\<lparr>uh_pair_codes := gm_set c \<lparr>uc_owner_id = owner, uc_expires = expires\<rparr> (uh_pair_codes h),
       uh_code_by_owner := gm_set owner c (uh_code_by_owner h)\<rparr>"

definition live_user_code :: "string \<Rightarrow> time \<Rightarrow> 'a registry_scheme \<Rightarrow> (string \<times> time) option" where
  "live_user_code owner now h =
     (case gm_get (uh_code_by_owner h) owner of
        None \<Rightarrow> None
      | Some cur \<Rightarrow>
          if cur = [] then None
          else (case gm_get (uh_pair_codes h) cur of
                  None \<Rightarrow> None
                | Some e \<Rightarrow> if uc_owner_id e = owner \<and> now < uc_expires e then Some (cur, uc_expires e) else None))"

definition user_pairing_code :: "string \<Rightarrow> bytes list \<Rightarrow> time \<Rightarrow> 'a registry_scheme \<Rightarrow> ('a registry_scheme \<times> string \<times> time) option" where
  "user_pairing_code owner draws now h =
     (let owner = host_owner_or_default (trim_space owner)
      in if owner = ''root'' then ensure_fresh_pairing_code draws now h
         else case live_user_code owner now h of
                Some (cur, expires) \<Rightarrow> Some (h, cur, expires)
              | None \<Rightarrow>
                  map_option (\<lambda>c. (put_user_code owner c (now + pairing_code_ttl) h, c, now + pairing_code_ttl))
                    (new_unique_pair_code draws h))"

definition rotate_user_pairing_code :: "string \<Rightarrow> bytes list \<Rightarrow> time \<Rightarrow> 'a registry_scheme \<Rightarrow> ('a registry_scheme \<times> string \<times> time) option" where
  "rotate_user_pairing_code owner draws now h =
     (let owner = host_owner_or_default (trim_space owner)
      in if owner = ''root'' then rotate_pairing_code draws now h
         else let h = drop_owner_code owner h
              in map_option (\<lambda>c. (put_user_code owner c (now + pairing_code_ttl) h, c, now + pairing_code_ttl))
                   (new_unique_pair_code draws h))"

definition owner_for_pair_code :: "string \<Rightarrow> time \<Rightarrow> 'a registry_scheme \<Rightarrow> string option" where
  "owner_for_pair_code code now h =
     (let c = to_upper (trim_space code)
      in if c = rg_pairing_code h \<and> now < rg_code_expires h then Some ''root''
         else case gm_get (uh_pair_codes h) c of
                None \<Rightarrow> None
              | Some e \<Rightarrow> if now > uc_expires e then None else Some (uc_owner_id e))"

section \<open>Pairing\<close>

definition trim_prefix :: "string \<Rightarrow> string \<Rightarrow> string" where
  "trim_prefix p s = (if take (length p) s = p then drop (length p) s else s)"

text \<open>The slice \<open>s[:n]\<close>; a bound out of range panics.\<close>

definition go_prefix :: "string \<Rightarrow> int \<Rightarrow> string option" where
  "go_prefix s n = (if 0 \<le> n \<and> n \<le> int (length s) then Some (take (nat n) s) else None)"

definition fit_base :: "string \<Rightarrow> string \<Rightarrow> string \<Rightarrow> string option" where
  "fit_base base requested sfx =
     (if int (length base) + int (length sfx) + 2 > max_host_id_len
      then go_prefix requested (max_host_id_len - int (length sfx) - 2) else Some base)"

definition numbered_suffix :: "string \<Rightarrow> int \<Rightarrow> string" where
  "numbered_suffix owner i =
     (let sfx = trim_prefix ''u_'' owner @ ''-'' @ enc_int i
      in if sfx = [] \<or> sfx = ''-'' then ''root-'' @ enc_int i else sfx)"

fun resolve_loop :: "nat \<Rightarrow> (string, host_state) gomap \<Rightarrow> string \<Rightarrow> string \<Rightarrow> int \<Rightarrow> string \<Rightarrow> string \<Rightarrow> string option" where
  "resolve_loop 0 hosts owner requested i base candidate = None"
| "resolve_loop (Suc n) hosts owner requested i base candidate =
     (if gm_get hosts candidate = None then Some candidate
      else let sfx = numbered_suffix owner i
           in case fit_base base requested sfx of
                None \<Rightarrow> None
              | Some base \<Rightarrow> resolve_loop n hosts owner requested (i + 1) base (base @ ''-'' @ sfx))"

definition resolve_host_id :: "nat \<Rightarrow> (string, host_state) gomap \<Rightarrow> string \<Rightarrow> string \<Rightarrow> string option" where
  "resolve_host_id fuel hosts owner requested =
     (case gm_get hosts requested of
        None \<Rightarrow> Some requested
      | Some hs \<Rightarrow>
          if host_owner_or_default (ht_owner_id hs) = owner then Some requested
          else let sfx = trim_prefix ''u_'' owner;
                   sfx = (if sfx = [] then ''root'' else sfx)
               in case fit_base requested requested sfx of
                    None \<Rightarrow> None
                  | Some base \<Rightarrow> resolve_loop fuel hosts owner requested 2 base (base @ ''-'' @ sfx))"

definition revoke_tokens :: "string \<Rightarrow> 'a registry_scheme \<Rightarrow> 'a registry_scheme" where
  "revoke_tokens host h =
     modify_host host (\<lambda>hs. hs\<lparr>ht_token := []\<rparr>) (h\<lparr>rg_tokens := filter (\<lambda>(tk, hid). hid \<noteq> host) (rg_tokens h)\<rparr>)"

definition code_accepted :: "string \<Rightarrow> string \<Rightarrow> time \<Rightarrow> 'a registry_scheme \<Rightarrow> bool" where
  "code_accepted owner code now h \<longleftrightarrow>
     (let c = to_upper (trim_space code)
      in if owner = ''root'' then c = rg_pairing_code h \<and> \<not> now > rg_code_expires h
         else case gm_get (uh_pair_codes h) c of
                None \<Rightarrow> False
              | Some e \<Rightarrow> uc_owner_id e = owner \<and> \<not> now > uc_expires e \<and> user_exists owner (uh_users h))"

definition port_ok :: "int \<Rightarrow> bool" where "port_ok p \<longleftrightarrow> p > 0 \<and> p \<le> 65535"

definition consume_code :: "string \<Rightarrow> string \<Rightarrow> bytes list \<Rightarrow> time \<Rightarrow> 'a registry_scheme \<Rightarrow> 'a registry_scheme option" where
  "consume_code owner code draws now h =
     (if owner = ''root'' then rotate_code draws now h
      else Some (h\<lparr>uh_pair_codes := gm_del (to_upper (trim_space code)) (uh_pair_codes h),
                   uh_code_by_owner := gm_del owner (uh_code_by_owner h)\<rparr>))"

definition place_host :: "string \<Rightarrow> string \<Rightarrow> string \<Rightarrow> int \<Rightarrow> time \<Rightarrow> 'a registry_scheme \<Rightarrow> 'a registry_scheme option" where
  "place_host owner host name port now h =
     (if gm_get (rg_hosts h) host \<noteq> None
      then Some (modify_host host
             (\<lambda>hs. hs\<lparr>ht_owner_id := owner,
                     ht_info := (ht_info hs)\<lparr>hi_owner_id := owner, hi_host_name := name, hi_last_seen := now,
                       hi_port := (if port_ok port then port else hi_port (ht_info hs))\<rparr>\<rparr>)
             (revoke_tokens host h))
      else if length (rg_hosts h) \<ge> max_hosts then None
      else Some (add_host host
             (new_host (zero_host_info\<lparr>hi_host_id := host, hi_host_name := name, hi_owner_id := owner, hi_last_seen := now,
                                  hi_port := (if port_ok port then port else 0)\<rparr>) owner []) h))"

definition pair_as :: "string \<Rightarrow> string \<Rightarrow> string \<Rightarrow> string \<Rightarrow> int \<Rightarrow> time \<Rightarrow> bytes \<Rightarrow> bytes list \<Rightarrow> 'a registry_scheme \<Rightarrow>
    ('a registry_scheme \<times> (registry_error + string \<times> string)) option" where
  "pair_as owner code host name port now token_draw code_draws h =
     (let owner = host_owner_or_default (trim_space owner);
          host = trim_space host;
          name = trim_space name
      in if \<not> code_accepted owner code now h then Some (h, Inl ErrCodeInvalid)
         else if host = [] then Some (h, Inl ErrHostIdEmpty)
         else if int (length host) > max_host_id_len then Some (h, Inl ErrHostIdLong)
         else if int (length name) > max_host_name_len then Some (h, Inl ErrHostNameLong)
         else case resolve_host_id (length (rg_hosts h) + 2) (rg_hosts h) owner host of
                None \<Rightarrow> None
              | Some actual \<Rightarrow>
                  (case place_host owner actual name port now h of
                     None \<Rightarrow> Some (h, Inl ErrHostLimit)
                   | Some h \<Rightarrow>
                       let token = random_token token_draw;
                           h = h\<lparr>rg_tokens := gm_set token actual (rg_tokens h)\<rparr>;
                           h = modify_host actual (\<lambda>hs. hs\<lparr>ht_token := token\<rparr>) h
                       in map_option (\<lambda>h. (persist_now h, Inr (token, actual))) (consume_code owner code code_draws now h)))"

section \<open>Registry operations\<close>

definition request_stop :: "nat \<Rightarrow> close_reason \<Rightarrow> 'a registry_scheme \<Rightarrow> 'a registry_scheme" where
  "request_stop s r h = h\<lparr>rg_stops := rg_stops h @ [(s, r)]\<rparr>"

definition host_id_for_token :: "string \<Rightarrow> 'a registry_scheme \<Rightarrow> string option" where
  "host_id_for_token token h = gm_get (rg_tokens h) token"

text \<open>The host's buffer goes with its record; a stop request reaches the session that was attached.\<close>

definition unpair :: "string \<Rightarrow> time \<Rightarrow> 'a registry_scheme \<Rightarrow> 'a registry_scheme \<times> registry_error option" where
  "unpair host now h =
     (let host = trim_space host
      in case gm_get (rg_hosts h) host of
           None \<Rightarrow> (h, Some ErrHostUnknown)
         | Some hs \<Rightarrow>
             let h = revoke_tokens host h;
                 h = h\<lparr>rg_relay := fail_pending host now (rg_relay h)\<rparr>;
                 h = (case ht_session hs of None \<Rightarrow> h | Some s \<Rightarrow> request_stop s close_auth h);
                 h = del_host host h;
                 h = h\<lparr>rg_relay := (rg_relay h)\<lparr>rl_tombs := gm_del host (rl_tombs (rg_relay h))\<rparr>\<rparr>;
                 h = registry_broadcast hosts_changed h;
                 h = h\<lparr>ph_fan := drop_subscribers_for_host host (ph_fan h)\<rparr>
             in (persist_now h, None))"

definition rename_host :: "string \<Rightarrow> string \<Rightarrow> 'a registry_scheme \<Rightarrow> 'a registry_scheme \<times> registry_error option" where
  "rename_host host name h =
     (let host = trim_space host; name = trim_space name
      in if host = [] then (h, Some ErrHostIdEmpty)
         else if name = [] then (h, Some ErrHostNameEmpty)
         else if int (length name) > max_host_name_len then (h, Some ErrHostNameLong)
         else case gm_get (rg_hosts h) host of
                None \<Rightarrow> (h, Some ErrHostUnknown)
              | Some _ \<Rightarrow>
                  let h = modify_host host (\<lambda>hs. hs\<lparr>ht_info := (ht_info hs)\<lparr>hi_host_name := name\<rparr>\<rparr>) h;
                      h = registry_broadcast hosts_changed h
                  in (persist_now h, None))"

record status_patch =
  hp_ready :: "bool option"
  hp_busy :: "bool option"
  hp_booting :: "bool option"
  hp_pending_count :: "int option"
  hp_port :: "int option"

text \<open>A field is present and differs.\<close>

definition flips :: "'v option \<Rightarrow> 'v \<Rightarrow> bool" where
  "flips p cur \<longleftrightarrow> (case p of None \<Rightarrow> False | Some v \<Rightarrow> v \<noteq> cur)"

definition patched_info :: "status_patch \<Rightarrow> host_info \<Rightarrow> host_info" where
  "patched_info p i =
     (let i = (case hp_ready p of None \<Rightarrow> i | Some v \<Rightarrow> i\<lparr>hi_ready := v\<rparr>);
          i = (case hp_busy p of None \<Rightarrow> i | Some v \<Rightarrow> i\<lparr>hi_busy := v\<rparr>);
          i = (case hp_booting p of None \<Rightarrow> i | Some v \<Rightarrow> i\<lparr>hi_booting := v\<rparr>);
          i = (case hp_pending_count p of None \<Rightarrow> i | Some v \<Rightarrow> i\<lparr>hi_pending_count := v\<rparr>)
      in case hp_port p of None \<Rightarrow> i | Some v \<Rightarrow> if port_ok v then i\<lparr>hi_port := v\<rparr> else i)"

definition update_host_status :: "string \<Rightarrow> status_patch \<Rightarrow> 'a registry_scheme \<Rightarrow> 'a registry_scheme \<times> bool" where
  "update_host_status host p h =
     (case gm_get (rg_hosts h) host of
        None \<Rightarrow> (h, False)
      | Some hs \<Rightarrow>
          let i = ht_info hs;
              port_changed = (flips (hp_port p) (hi_port i) \<and> (case hp_port p of None \<Rightarrow> False | Some v \<Rightarrow> port_ok v));
              changed = (flips (hp_ready p) (hi_ready i) \<or> flips (hp_busy p) (hi_busy i) \<or> flips (hp_booting p) (hi_booting i) \<or>
                flips (hp_pending_count p) (hi_pending_count i) \<or> port_changed);
              h = modify_host host (\<lambda>hs. hs\<lparr>ht_info := patched_info p (ht_info hs)\<rparr>) h;
              h = (if changed then registry_broadcast hosts_changed h else h)
          in (if port_changed then persist_now h else h, True))"

definition touch_host :: "string \<Rightarrow> time \<Rightarrow> 'a registry_scheme \<Rightarrow> 'a registry_scheme" where
  "touch_host host now h = modify_host host (\<lambda>hs. hs\<lparr>ht_info := (ht_info hs)\<lparr>hi_last_seen := now\<rparr>\<rparr>) h"

definition heartbeat_status_of :: "string \<Rightarrow> 'a registry_scheme \<Rightarrow> heartbeat_status" where
  "heartbeat_status_of host h =
     (case gm_get (rg_hosts h) host of
        None \<Rightarrow> \<lparr>hb_ready = False, hb_busy = False, hb_booting = False, hb_pending_count = 0, hb_port = 0\<rparr>
      | Some hs \<Rightarrow> \<lparr>hb_ready = hi_ready (ht_info hs), hb_busy = hi_busy (ht_info hs), hb_booting = hi_booting (ht_info hs),
                   hb_pending_count = hi_pending_count (ht_info hs), hb_port = hi_port (ht_info hs)\<rparr>)"

definition note_up_ack :: "string \<Rightarrow> nat \<Rightarrow> u64 \<Rightarrow> 'a registry_scheme \<Rightarrow> 'a registry_scheme" where
  "note_up_ack host s ack h =
     modify_host host (\<lambda>hs. if ht_session hs = Some s \<and> ack > ht_up_acked hs then hs\<lparr>ht_up_acked := ack\<rparr> else hs) h"

section \<open>Attachment\<close>

definition clear_ev_buf :: "data_plane \<Rightarrow> data_plane" where
  "clear_ev_buf d = d\<lparr>dp_ev_buf := [], dp_ev_buf_bytes := 0\<rparr>"

text \<open>The new sequence space of an epoch, or the resumed one.\<close>

definition fresh_space :: "string \<Rightarrow> u64 \<Rightarrow> u64 \<Rightarrow> time \<Rightarrow> host_state \<Rightarrow> 'a registry_scheme \<Rightarrow> 'a registry_scheme" where
  "fresh_space host epoch up now hs h =
     (let h = (if ht_proto hs \<noteq> None then h\<lparr>rg_relay := fail_pending host now (rg_relay h)\<rparr> else h);
          plane = (clear_ev_buf (ht_plane hs))\<lparr>dp_epoch := epoch\<rparr>
      in case announce_epoch_reset host up plane (ph_fan h) of
           (plane, fan) \<Rightarrow>
             let h = modify_host host (\<lambda>hs. hs\<lparr>ht_proto := Some (new_session_proto epoch up (lm_resume_window default_limits)),
                       ht_up_acked := up, ht_plane := plane\<rparr>) (h\<lparr>ph_fan := fan\<rparr>)
             in h\<lparr>rg_relay := (rg_relay h)\<lparr>rl_tombs := gm_del host (rl_tombs (rg_relay h))\<rparr>\<rparr>)"

definition resumed_space :: "string \<Rightarrow> u64 \<Rightarrow> session_proto \<Rightarrow> 'a registry_scheme \<Rightarrow> 'a registry_scheme" where
  "resumed_space host down p h =
     (if down > 0 then modify_host host (\<lambda>hs. hs\<lparr>ht_proto := Some (fst (take_audience_resend (fst (ack_down down p))))\<rparr>) h
      else h)"

definition attach :: "string \<Rightarrow> u64 \<Rightarrow> u64 \<Rightarrow> u64 \<Rightarrow> bool \<Rightarrow> time \<Rightarrow> 'a registry_scheme \<Rightarrow>
    'a registry_scheme \<times> (registry_error + nat \<times> nat option \<times> hello_ack)" where
  "attach host epoch up down deflate now h =
     (case gm_get (rg_hosts h) host of
        None \<Rightarrow> (h, Inl ErrHostUnknown)
      | Some hs \<Rightarrow>
          let h = (case ht_proto hs of
                     Some p \<Rightarrow> if sp_epoch p \<noteq> epoch then fresh_space host epoch up now hs h else resumed_space host down p h
                   | None \<Rightarrow> fresh_space host epoch up now hs h);
              s = rg_next_session h;
              h = h\<lparr>rg_next_session := Suc s\<rparr>;
              h = modify_host host (\<lambda>hs. hs\<lparr>ht_session := Some s, ht_ev_buf_epoch := ht_ev_buf_epoch hs + 1,
                    ht_info := (ht_info hs)\<lparr>hi_online := True, hi_last_seen := now\<rparr>\<rparr>) h;
              h = set_attached host True h
          in case audience_locked now (ph_fan h) host of
               (fan, aud, _) \<Rightarrow>
                 (case relay_acks host now (rg_relay h) of
                    (relay, acks) \<Rightarrow>
                      let p = (case gm_get (rg_hosts h) host of Some hs \<Rightarrow> ht_proto hs | None \<Rightarrow> None);
                          ack = \<lparr>ha_epoch = epoch, ha_hub_boot = rg_hub_boot h,
                                 ha_ack_up = (case p of Some p \<Rightarrow> proto_up_acked p | None \<Rightarrow> 0),
                                 ha_ack_down = (case p of Some p \<Rightarrow> proto_down_acked p | None \<Rightarrow> 0),
                                 ha_audience = Some aud, ha_liveness = Some default_liveness, ha_limits = Some default_limits,
                                 ha_caps = Some \<lparr>cp_deflate = deflate, cp_transport_units = True, cp_relay_ack = True\<rparr>,
                                 ha_relay_acks = acks\<rparr>;
                          h = registry_broadcast hosts_changed (h\<lparr>ph_fan := fan, rg_relay := relay\<rparr>)
                      in (h, Inr (s, ht_session hs, ack))))"

text \<open>\<open>detach\<close> returns the epoch of the delayed clear it schedules, \<open>None\<close> for a superseded session.\<close>

definition detach :: "string \<Rightarrow> nat \<Rightarrow> time \<Rightarrow> 'a registry_scheme \<Rightarrow> 'a registry_scheme \<times> u64 option" where
  "detach host s now h =
     (case gm_get (rg_hosts h) host of
        None \<Rightarrow> (h, None)
      | Some hs \<Rightarrow>
          if ht_session hs \<noteq> Some s then (h, None)
          else let epoch = ht_ev_buf_epoch hs + 1;
                   h = modify_host host (\<lambda>hs. hs\<lparr>ht_session := None, ht_ev_buf_epoch := epoch,
                         ht_info := (ht_info hs)\<lparr>hi_online := False, hi_last_seen := now\<rparr>\<rparr>) h;
                   h = set_attached host False h;
                   h = h\<lparr>rg_relay := fail_pending host now (rg_relay h)\<rparr>
               in (registry_broadcast hosts_changed h, Some epoch))"

text \<open>The delayed clear of the gap-pull buffer.\<close>

definition ev_buf_clear :: "string \<Rightarrow> u64 \<Rightarrow> 'a registry_scheme \<Rightarrow> 'a registry_scheme" where
  "ev_buf_clear host epoch h =
     modify_host host (\<lambda>hs. if ht_session hs \<noteq> None \<or> ht_ev_buf_epoch hs \<noteq> epoch then hs
                          else hs\<lparr>ht_plane := clear_ev_buf (ht_plane hs)\<rparr>) h"

section \<open>Views of the registry\<close>

definition eligible :: "string \<Rightarrow> host_state \<Rightarrow> bool" where
  "eligible owner hs \<longleftrightarrow> owner = [] \<or> host_owner_or_default (ht_owner_id hs) = owner"

definition last_seq :: "string \<Rightarrow> 'a registry_scheme \<Rightarrow> u64" where
  "last_seq host h = (case gm_get (rg_hosts h) host of None \<Rightarrow> 0 | Some hs \<Rightarrow> ht_up_acked hs)"

definition seq_by_host :: "string \<Rightarrow> 'a registry_scheme \<Rightarrow> (string, u64) gomap" where
  "seq_by_host owner h = map (\<lambda>(i, hs). (i, ht_up_acked hs)) (filter (\<lambda>(i, hs). eligible owner hs) (rg_hosts h))"

definition seq_by_host_for :: "string \<Rightarrow> 'a registry_scheme \<Rightarrow> (string, u64) gomap" where
  "seq_by_host_for owner h = seq_by_host (host_owner_or_default owner) h"

definition listed_info :: "time \<Rightarrow> host_state \<Rightarrow> host_info" where
  "listed_info now hs =
     (let i = (ht_info hs)\<lparr>hi_owner_id := host_owner_or_default (hi_owner_id (ht_info hs))\<rparr>;
          age = now - hi_last_seen i
      in if \<not> is_zero_time (hi_last_seen i) \<and> age > 0 then i\<lparr>hi_last_seen_age_ms := age div millisecond\<rparr> else i)"

definition list_hosts :: "string \<Rightarrow> time \<Rightarrow> 'a registry_scheme \<Rightarrow> host_info list" where
  "list_hosts owner now h =
     sort_key (\<lambda>i. (\<not> hi_online i, - hi_last_seen i, hi_host_id i))
       (map (\<lambda>(i, hs). listed_info now hs) (filter (\<lambda>(i, hs). eligible owner hs) (rg_hosts h)))"

definition list_hosts_for :: "string \<Rightarrow> time \<Rightarrow> 'a registry_scheme \<Rightarrow> host_info list" where
  "list_hosts_for owner now h = list_hosts (host_owner_or_default owner) now h"

definition host_owner :: "string \<Rightarrow> 'a registry_scheme \<Rightarrow> string option" where
  "host_owner host h = map_option (\<lambda>hs. host_owner_or_default (ht_owner_id hs)) (gm_get (rg_hosts h) host)"

definition host_ids_for_user :: "string \<Rightarrow> 'a registry_scheme \<Rightarrow> string list" where
  "host_ids_for_user owner h =
     sort (map fst (filter (\<lambda>(i, hs). host_owner_or_default (ht_owner_id hs) = owner) (rg_hosts h)))"

definition host_count_for_user :: "string \<Rightarrow> 'a registry_scheme \<Rightarrow> nat" where
  "host_count_for_user owner h =
     length (filter (\<lambda>(i, hs). host_owner_or_default (ht_owner_id hs) = owner) (rg_hosts h))"

definition seen_of :: "(string, host_state) gomap \<Rightarrow> string \<Rightarrow> time" where
  "seen_of hosts i = (case gm_get hosts i of None \<Rightarrow> 0 | Some hs \<Rightarrow> hi_last_seen (ht_info hs))"

definition better_host :: "(string, host_state) gomap \<Rightarrow> string \<Rightarrow> host_state \<Rightarrow> string" where
  "better_host hosts best hs =
     (if best = [] \<or> hi_last_seen (ht_info hs) > seen_of hosts best then hi_host_id (ht_info hs) else best)"

definition default_host_id :: "string \<Rightarrow> 'a registry_scheme \<Rightarrow> string" where
  "default_host_id owner h =
     (let hosts = rg_hosts h;
          scan = (\<lambda>P. foldl (\<lambda>best (i, hs). if \<not> eligible owner hs \<or> \<not> P hs then best else better_host hosts best hs) [] hosts);
          best = scan (\<lambda>hs. hi_online (ht_info hs))
      in if best \<noteq> [] then best else scan (\<lambda>hs. True))"

definition default_host_id_for :: "string \<Rightarrow> 'a registry_scheme \<Rightarrow> string" where
  "default_host_id_for owner h = default_host_id (host_owner_or_default owner) h"

end
