(* ===== verification/Registry_Inv.thy ===== *)
theory Registry_Inv
  imports Registry
begin

text \<open>
  What makes the registry correct: the search for a free host id ends, a pairing never takes a host
  from its owner and its code works once, tokens always name live hosts, and unpairing leaves no
  credential, request or page behind.
\<close>

section \<open>The search for a host id ends\<close>

lemma enc_int_digits: "0 \<le> i \<Longrightarrow> enc_int i \<noteq> [] \<and> list_all is_digit (enc_int i)"
  using enc_dec_digits [of i] by (simp add: enc_int_def)

lemma digits_after_dash:
  assumes "list_all is_digit ds"
  shows "takeWhile is_digit (rev (a @ ''-'' @ ds)) = rev ds"
  using assms by (auto simp: takeWhile_append list_all_iff not_digit_minus)

lemma dash_number_inj:
  assumes "a @ ''-'' @ enc_int i = b @ ''-'' @ enc_int j" and "0 \<le> i" and "0 \<le> j"
  shows "i = j"
proof -
  have "rev (enc_int i) = rev (enc_int j)"
    using digits_after_dash [of "enc_int i" a] digits_after_dash [of "enc_int j" b] assms enc_int_digits by metis
  then have "enc_dec i = enc_dec j" using assms(2,3) by (simp add: enc_int_def)
  then show ?thesis using enc_dec_digits [OF assms(2)] enc_dec_digits [OF assms(3)] by metis
qed

lemma numbered_suffix_eq: "0 \<le> i \<Longrightarrow> numbered_suffix owner i = trim_prefix ''u_'' owner @ ''-'' @ enc_int i"
  using enc_int_digits [of i] by (auto simp: numbered_suffix_def Let_def append_eq_Cons_conv)

lemma enc_int_short: "0 \<le> i \<Longrightarrow> i < 1000 \<Longrightarrow> length (enc_int i) \<le> 3"
  by (simp add: enc_int_def enc_dec.simps [of i] enc_dec.simps [of "i div 10"] enc_dec.simps [of "i div 10 div 10"])

lemma trim_prefix_length: "length (trim_prefix p s) \<le> length s"
  by (simp add: trim_prefix_def)

lemma fit_base_ok:
  assumes "length base \<le> length requested" and "int (length sfx) \<le> 126"
  obtains base' where "fit_base base requested sfx = Some base'" "length base' \<le> length requested"
    "int (length base') + int (length sfx) + 1 \<le> max_host_id_len"
proof (cases "int (length base) + int (length sfx) + 2 > max_host_id_len")
  case True
  let ?n = "max_host_id_len - int (length sfx) - 2"
  have "0 \<le> ?n" "?n \<le> int (length requested)" using True assms by (simp_all add: max_host_id_len_def)
  then show thesis using True by (intro that [of "take (nat ?n) requested"]) (auto simp: fit_base_def go_prefix_def)
next
  case False
  then show thesis using assms(1) by (intro that [of base]) (simp_all add: fit_base_def)
qed

lemma resolve_loop_step:
  "gm_get hosts cand = Some y \<Longrightarrow> fit_base base requested (numbered_suffix owner i) = Some base' \<Longrightarrow>
   resolve_loop (Suc n) hosts owner requested i base cand =
     resolve_loop n hosts owner requested (i + 1) base' (base' @ ''-'' @ numbered_suffix owner i)"
  by (subst resolve_loop.simps) (simp add: Let_def del: resolve_loop.simps)

lemma resolve_loop_free:
  "resolve_loop n hosts owner requested i base cand = Some c \<Longrightarrow> gm_get hosts c = None"
  by (induction n hosts owner requested i base cand rule: resolve_loop.induct) (auto simp: Let_def split: if_splits option.splits)

lemma resolve_loop_ends:
  assumes "length base \<le> length requested" and "length owner \<le> 120" and "0 \<le> i" and "i + int n < 1000"
    and "cand = a @ ''-'' @ enc_int (i - 1)" and "0 < i" and "int (length cand) \<le> max_host_id_len"
  shows "(\<exists>c. resolve_loop n hosts owner requested i base cand = Some c \<and> gm_get hosts c = None \<and> int (length c) \<le> max_host_id_len) \<or>
    (\<exists>C \<subseteq> gm_keys hosts. card C = n \<and> (\<forall>c \<in> C. \<exists>a j. i - 1 \<le> j \<and> c = a @ ''-'' @ enc_int j))"
  using assms
proof (induction n arbitrary: i base cand a)
  case 0
  then show ?case by (intro disjI2 exI [of _ "{}"]) simp
next
  case (Suc n)
  show ?case
  proof (cases "gm_get hosts cand = None")
    case True
    then show ?thesis using Suc.prems(7) by simp
  next
    case taken: False
    let ?sfx = "numbered_suffix owner i"
    have len: "int (length ?sfx) \<le> 126"
      using Suc.prems(2-4) enc_int_short [of i] trim_prefix_length [of "''u_''" owner] by (simp add: numbered_suffix_eq)
    obtain base' where b: "fit_base base requested ?sfx = Some base'" "length base' \<le> length requested"
      "int (length base') + int (length ?sfx) + 1 \<le> max_host_id_len" by (rule fit_base_ok [OF Suc.prems(1) len])
    let ?cand = "base' @ ''-'' @ ?sfx"
    have shape: "?cand = (base' @ ''-'' @ trim_prefix ''u_'' owner) @ ''-'' @ enc_int (i + 1 - 1)"
      using Suc.prems(3) by (simp add: numbered_suffix_eq)
    have step: "resolve_loop (Suc n) hosts owner requested i base cand = resolve_loop n hosts owner requested (i + 1) base' ?cand"
      using taken resolve_loop_step [OF _ b(1)] by blast
    have "(\<exists>c. resolve_loop n hosts owner requested (i + 1) base' ?cand = Some c \<and> gm_get hosts c = None \<and> int (length c) \<le> max_host_id_len) \<or>
      (\<exists>C \<subseteq> gm_keys hosts. card C = n \<and> (\<forall>c \<in> C. \<exists>a j. i + 1 - 1 \<le> j \<and> c = a @ ''-'' @ enc_int j))"
      by (rule Suc.IH [OF b(2) Suc.prems(2) _ _ shape]) (use Suc.prems(3,4) b(3) in simp_all)
    then show ?thesis
    proof
      assume "\<exists>C \<subseteq> gm_keys hosts. card C = n \<and> (\<forall>c \<in> C. \<exists>a j. i + 1 - 1 \<le> j \<and> c = a @ ''-'' @ enc_int j)"
      then obtain C where C: "C \<subseteq> gm_keys hosts" "card C = n" "\<forall>c \<in> C. \<exists>a j. i \<le> j \<and> c = a @ ''-'' @ enc_int j" by auto
      have "cand \<notin> C"
      proof
        assume "cand \<in> C"
        then obtain a' j where "i \<le> j" "a @ ''-'' @ enc_int (i - 1) = a' @ ''-'' @ enc_int j" using C(3) Suc.prems(5) by blast
        then show False using dash_number_inj [of a "i - 1" a' j] Suc.prems(6) by simp
      qed
      moreover have "finite C" using C(1) by (rule finite_subset) simp
      ultimately have "card (insert cand C) = Suc n" using C(2) by simp
      moreover have "cand \<in> gm_keys hosts" using taken by (simp only: gm_keys_iff not_False_eq_True)
      moreover have "\<forall>c \<in> insert cand C. \<exists>a j. i - 1 \<le> j \<and> c = a @ ''-'' @ enc_int j"
      proof
        fix c assume c: "c \<in> insert cand C"
        show "\<exists>a j. i - 1 \<le> j \<and> c = a @ ''-'' @ enc_int j"
        proof (cases "c = cand")
          case True
          then show ?thesis using Suc.prems(5) by (intro exI [of _ a] exI [of _ "i - 1"]) simp
        next
          case False
          then obtain a' j where "i \<le> j" "c = a' @ ''-'' @ enc_int j" using c C(3) by blast
          then show ?thesis by (intro exI [of _ a'] exI [of _ j]) simp
        qed
      qed
      ultimately show ?thesis using C(1) by (intro disjI2 exI [of _ "insert cand C"]) blast
    qed (use step in simp)
  qed
qed

text \<open>C25: The search for a host id ends. With at most 256 hosts and an account id of at most 120 bytes,
  \<open>resolveHostIDLocked\<close> returns after at most one more round than there are hosts and never slices
  out of range, and what it returns fits the id limit and is free or already the caller's.\<close>

theorem resolve_host_id_total:
  assumes "length hosts \<le> max_hosts" and "length owner \<le> 120" and "int (length requested) \<le> max_host_id_len"
  shows "\<exists>i. resolve_host_id (length hosts + 2) hosts owner requested = Some i \<and> int (length i) \<le> max_host_id_len \<and>
    (case gm_get hosts i of None \<Rightarrow> True | Some hs \<Rightarrow> i = requested \<and> host_owner_or_default (ht_owner_id hs) = owner)"
proof (cases "\<exists>hs. gm_get hosts requested = Some hs \<and> host_owner_or_default (ht_owner_id hs) \<noteq> owner")
  case False
  then show ?thesis using assms(3) by (auto simp: resolve_host_id_def split: option.splits)
next
  case True
  then obtain hs where hs: "gm_get hosts requested = Some hs" "host_owner_or_default (ht_owner_id hs) \<noteq> owner" by blast
  define sfx where "sfx = (if trim_prefix ''u_'' owner = [] then ''root'' else trim_prefix ''u_'' owner)"
  have len: "int (length sfx) \<le> 126"
    using assms(2) trim_prefix_length [of "''u_''" owner] by (simp add: sfx_def)
  obtain base where b: "fit_base requested requested sfx = Some base" "length base \<le> length requested"
    "int (length base) + int (length sfx) + 1 \<le> max_host_id_len" by (rule fit_base_ok [OF order.refl len])
  let ?n = "Suc (length hosts)"
  have res: "resolve_host_id (length hosts + 2) hosts owner requested = resolve_loop (Suc ?n) hosts owner requested 2 base (base @ ''-'' @ sfx)"
    using hs b(1) by (simp add: resolve_host_id_def sfx_def Let_def)
  show ?thesis
  proof (cases "gm_get hosts (base @ ''-'' @ sfx) = None")
    case True
    then show ?thesis using res b(3) by simp
  next
    case taken: False
    let ?sfx = "numbered_suffix owner 2"
    have len2: "int (length ?sfx) \<le> 126"
      using assms(2) enc_int_short [of 2] trim_prefix_length [of "''u_''" owner] by (simp add: numbered_suffix_eq)
    obtain base' where b': "fit_base base requested ?sfx = Some base'" "length base' \<le> length requested"
      "int (length base') + int (length ?sfx) + 1 \<le> max_host_id_len" by (rule fit_base_ok [OF b(2) len2])
    let ?cand = "base' @ ''-'' @ ?sfx"
    have shape: "?cand = (base' @ ''-'' @ trim_prefix ''u_'' owner) @ ''-'' @ enc_int (3 - 1)" by (simp add: numbered_suffix_eq)
    have step: "resolve_host_id (length hosts + 2) hosts owner requested = resolve_loop ?n hosts owner requested 3 base' ?cand"
    proof -
      obtain y where y: "gm_get hosts (base @ ''-'' @ sfx) = Some y" using taken by blast
      show ?thesis unfolding res by (simp only: resolve_loop_step [OF y b'(1)]) simp
    qed
    have "card C \<noteq> ?n" if "C \<subseteq> gm_keys hosts" for C
    proof -
      have "card C \<le> card (gm_keys hosts)" by (rule card_mono [OF _ that]) simp
      also have "\<dots> \<le> length hosts" by (metis card_length length_map list.set_map)
      finally show ?thesis by simp
    qed
    moreover have "(\<exists>c. resolve_loop ?n hosts owner requested 3 base' ?cand = Some c \<and> gm_get hosts c = None \<and> int (length c) \<le> max_host_id_len) \<or>
      (\<exists>C \<subseteq> gm_keys hosts. card C = ?n \<and> (\<forall>c \<in> C. \<exists>a j. 3 - 1 \<le> j \<and> c = a @ ''-'' @ enc_int j))"
      by (rule resolve_loop_ends [OF b'(2) assms(2) _ _ shape]) (use assms(1) b'(3) in \<open>simp_all add: max_hosts_def\<close>)
    ultimately obtain c where "resolve_loop ?n hosts owner requested 3 base' ?cand = Some c" "gm_get hosts c = None"
      "int (length c) \<le> max_host_id_len" by blast
    then show ?thesis using step by simp
  qed
qed

lemma resolve_host_id_total_witness:
  "resolve_host_id 3 [(''local'', new_host zero_host_info ''root'' [])] ''u_ab'' ''local'' = Some ''local-ab''"
proof -
  let ?hosts = "[(''local'', new_host zero_host_info ''root'' [])]"
  have "\<exists>i. resolve_host_id (length ?hosts + 2) ?hosts ''u_ab'' ''local'' = Some i"
    using resolve_host_id_total [of ?hosts "''u_ab''" "''local''"] by (auto simp: max_hosts_def max_host_id_len_def)
  moreover have "resolve_host_id 3 ?hosts ''u_ab'' ''local'' = Some ''local-ab''" by code_simp
  ultimately show ?thesis by blast
qed

section \<open>Writes through a host pointer\<close>

lemma get_modify_host:
  "gm_get (rg_hosts (modify_host i f h)) j = (if j = i then map_option f (gm_get (rg_hosts h) i) else gm_get (rg_hosts h) j)"
  by (auto simp: modify_host_def gm_get_set split: option.split)

lemma modify_host_frame [simp]:
  "rg_tokens (modify_host i f h) = rg_tokens h" "uh_pair_codes (modify_host i f h) = uh_pair_codes h"
  "uh_code_by_owner (modify_host i f h) = uh_code_by_owner h" "rg_pairing_code (modify_host i f h) = rg_pairing_code h"
  "ph_fan (modify_host i f h) = ph_fan h" "rg_data_file (modify_host i f h) = rg_data_file h"
  "ph_disk_ok (modify_host i f h) = ph_disk_ok h" "rg_relay (modify_host i f h) = rg_relay h"
  "uh_users (modify_host i f h) = uh_users h" "rg_disk (modify_host i f h) = rg_disk h"
  "rg_code_expires (modify_host i f h) = rg_code_expires h" "rg_stops (modify_host i f h) = rg_stops h"
  by (simp_all add: modify_host_def split: option.split)

lemma modify_host_keys [simp]: "gm_keys (rg_hosts (modify_host i f h)) = gm_keys (rg_hosts h)"
  by (rule set_eqI) (simp only: gm_keys_iff get_modify_host, auto)

lemma modify_host_ok [simp]: "gm_ok (rg_hosts h) \<Longrightarrow> gm_ok (rg_hosts (modify_host i f h))"
  by (simp add: modify_host_def split: option.split)

lemma modify_host_length [simp]: "length (rg_hosts (modify_host i f h)) = length (rg_hosts h)"
  by (simp add: modify_host_def gm_length_set_old split: option.split)

lemma persist_frame2 [simp]:
  "rg_hosts (persist_now h) = rg_hosts h" "rg_tokens (persist_now h) = rg_tokens h" "uh_pair_codes (persist_now h) = uh_pair_codes h"
  "uh_code_by_owner (persist_now h) = uh_code_by_owner h" "rg_pairing_code (persist_now h) = rg_pairing_code h"
  "uh_users (persist_now h) = uh_users h" "ph_fan (persist_now h) = ph_fan h" "rg_data_file (persist_now h) = rg_data_file h"
  "ph_disk_ok (persist_now h) = ph_disk_ok h" "rg_relay (persist_now h) = rg_relay h" "rg_stops (persist_now h) = rg_stops h"
  by (simp_all add: persist_now_def)

lemma trim_root: "host_owner_or_default ''root'' = ''root''"
  by (simp add: host_owner_or_default_def)

lemma owner_default_idem: "host_owner_or_default (host_owner_or_default x) = host_owner_or_default x"
  by (simp add: host_owner_or_default_def)

section \<open>Pairing\<close>

lemma pair_as_success:
  assumes "pair_as owner code host name port now td cds h = Some (h', Inr (token, i))"
  obtains o1 h1 h2 where "o1 = host_owner_or_default (trim_space owner)" "code_accepted o1 code now h"
    "trim_space host \<noteq> []" "int (length (trim_space host)) \<le> max_host_id_len" "int (length (trim_space name)) \<le> max_host_name_len"
    "resolve_host_id (length (rg_hosts h) + 2) (rg_hosts h) o1 (trim_space host) = Some i"
    "place_host o1 i (trim_space name) port now h = Some h1" "token = random_token td"
    "consume_code o1 code cds now (modify_host i (\<lambda>hs. hs\<lparr>ht_token := token\<rparr>) (h1\<lparr>rg_tokens := gm_set token i (rg_tokens h1)\<rparr>)) = Some h2"
    "h' = persist_now h2"
  using assms by (auto simp: pair_as_def Let_def split: if_splits option.splits)

lemma place_host_cases:
  assumes "place_host owner i name port now h = Some h1"
  obtains (Repaired) hs where "gm_get (rg_hosts h) i = Some hs" "rg_hosts h1 = gm_set i (hs\<lparr>ht_token := [], ht_owner_id := owner,
        ht_info := (ht_info hs)\<lparr>hi_owner_id := owner, hi_host_name := name, hi_last_seen := now,
          hi_port := (if port_ok port then port else hi_port (ht_info hs))\<rparr>\<rparr>) (rg_hosts h)"
      "rg_tokens h1 = filter (\<lambda>(tk, hid). hid \<noteq> i) (rg_tokens h)" "hb_hosts (ph_fan h1) = hb_hosts (ph_fan h)"
  | (Added) "gm_get (rg_hosts h) i = None" "length (rg_hosts h) < max_hosts"
      "rg_hosts h1 = gm_set i (new_host (zero_host_info\<lparr>hi_host_id := i, hi_host_name := name, hi_owner_id := owner, hi_last_seen := now,
         hi_port := (if port_ok port then port else 0)\<rparr>) owner []) (rg_hosts h)"
      "rg_tokens h1 = rg_tokens h"
proof (cases "gm_get (rg_hosts h) i")
  case None
  then show thesis using assms by (intro Added) (auto simp: place_host_def add_host_def split: if_splits)
next
  case (Some hs)
  have "rg_hosts h1 = gm_set i (hs\<lparr>ht_token := [], ht_owner_id := owner,
        ht_info := (ht_info hs)\<lparr>hi_owner_id := owner, hi_host_name := name, hi_last_seen := now,
          hi_port := (if port_ok port then port else hi_port (ht_info hs))\<rparr>\<rparr>) (rg_hosts h)"
    "rg_tokens h1 = filter (\<lambda>(tk, hid). hid \<noteq> i) (rg_tokens h)" "hb_hosts (ph_fan h1) = hb_hosts (ph_fan h)"
    using assms Some by (auto simp: place_host_def revoke_tokens_def modify_host_def gm_get_set)
  then show thesis using Some by (intro Repaired)
qed

text \<open>
  Tokens name live hosts, a host is known under its own id and online exactly while a session is
  attached, the registry is capped, no user code equals the root code, and the index of user codes
  points at codes of their owner.
\<close>

definition codes_ok :: "'a registry_scheme \<Rightarrow> bool" where
  "codes_ok h \<longleftrightarrow> gm_get (uh_pair_codes h) (rg_pairing_code h) = None \<and>
     (\<forall>owner c. gm_get (uh_code_by_owner h) owner = Some c \<longrightarrow>
        (case gm_get (uh_pair_codes h) c of None \<Rightarrow> False | Some e \<Rightarrow> uc_owner_id e = owner))"

definition hosts_ok :: "'a registry_scheme \<Rightarrow> bool" where
  "hosts_ok h \<longleftrightarrow> gm_ok (rg_hosts h) \<and> gm_ok (rg_tokens h) \<and> length (rg_hosts h) \<le> max_hosts \<and>
     (\<forall>tk i. gm_get (rg_tokens h) tk = Some i \<longrightarrow> gm_get (rg_hosts h) i \<noteq> None) \<and>
     (\<forall>i hs. gm_get (rg_hosts h) i = Some hs \<longrightarrow> hi_host_id (ht_info hs) = i \<and>
        (hi_online (ht_info hs) \<longleftrightarrow> ht_session hs \<noteq> None))"

definition registry_ok :: "'a registry_scheme \<Rightarrow> bool" where
  "registry_ok h \<longleftrightarrow> hosts_ok h \<and> codes_ok h"

lemma consume_code_cases:
  assumes "consume_code owner code ds now h = Some h2"
  obtains (Root) c where "owner = ''root''" "h2 = h\<lparr>rg_pairing_code := c, rg_code_expires := now + pairing_code_ttl\<rparr>"
      "gm_get (uh_pair_codes h) c = None" "\<exists>b \<in> set ds. c = random_string code_alphabet b"
  | (User) "owner \<noteq> ''root''" "h2 = h\<lparr>uh_pair_codes := gm_del (to_upper (trim_space code)) (uh_pair_codes h),
        uh_code_by_owner := gm_del owner (uh_code_by_owner h)\<rparr>"
  using assms by (auto simp: consume_code_def rotate_code_def dest!: draw_fresh_free split: if_splits)

lemma consume_frame:
  assumes "consume_code owner code ds now h = Some h2"
  shows "rg_hosts h2 = rg_hosts h" "rg_tokens h2 = rg_tokens h" "ph_fan h2 = ph_fan h" "uh_users h2 = uh_users h"
    "rg_data_file h2 = rg_data_file h" "ph_disk_ok h2 = ph_disk_ok h"
  using assms by (cases rule: consume_code_cases; simp)+

lemma get_filter_snd: "gm_ok m \<Longrightarrow> gm_get (filter (\<lambda>(k, v). v \<noteq> x) m) k = (if gm_get m k = Some x then None else gm_get m k)"
  by (subst gm_get_filter) (auto split: option.split)

lemma place_host_facts:
  assumes "place_host owner i name port now h = Some h1" and "hosts_ok h" and "owner = host_owner_or_default owner"
    and "token = random_token td"
  defines "h2 \<equiv> modify_host i (\<lambda>hs. hs\<lparr>ht_token := token\<rparr>) (h1\<lparr>rg_tokens := gm_set token i (rg_tokens h1)\<rparr>)"
  shows "hosts_ok h2" and "host_owner i h2 = Some owner" and "\<forall>t. gm_get (rg_tokens h2) t = Some i \<longleftrightarrow> t = token"
    and "\<forall>j. j \<noteq> i \<longrightarrow> gm_get (rg_hosts h2) j = gm_get (rg_hosts h) j \<and>
      (\<forall>t. t \<noteq> token \<longrightarrow> (gm_get (rg_tokens h2) t = Some j \<longleftrightarrow> gm_get (rg_tokens h) t = Some j))"
proof -
  have ok: "gm_ok (rg_hosts h)" "gm_ok (rg_tokens h)" "length (rg_hosts h) \<le> max_hosts"
    and live: "\<And>tk j. gm_get (rg_tokens h) tk = Some j \<Longrightarrow> gm_get (rg_hosts h) j \<noteq> None"
    and ids: "\<And>j hs. gm_get (rg_hosts h) j = Some hs \<Longrightarrow> hi_host_id (ht_info hs) = j \<and>
        (hi_online (ht_info hs) \<longleftrightarrow> ht_session hs \<noteq> None)"
    using assms(2) unfolding hosts_ok_def by blast+
  have toks: "gm_get (rg_tokens h1) t = (if gm_get (rg_tokens h) t = Some i then None else gm_get (rg_tokens h) t)" for t
    using assms(1)
  proof (cases rule: place_host_cases)
    case Added
    then show ?thesis using live [of t i] by auto
  qed (simp add: get_filter_snd ok(2))
  have tok1: "gm_ok (rg_tokens h1)" using assms(1) by (cases rule: place_host_cases) (use ok(2) in auto)
  have toks2: "gm_get (rg_tokens h2) t = (if t = token then Some i else gm_get (rg_tokens h1) t)" for t
    by (simp add: h2_def gm_get_set)
  obtain hs where hosts1: "gm_ok (rg_hosts h1)" "length (rg_hosts h1) \<le> max_hosts" "gm_get (rg_hosts h1) i = Some hs"
    and hs: "hi_host_id (ht_info hs) = i" "hi_online (ht_info hs) \<longleftrightarrow> ht_session hs \<noteq> None" "ht_owner_id hs = owner"
    and rest: "\<And>j. j \<noteq> i \<Longrightarrow> gm_get (rg_hosts h1) j = gm_get (rg_hosts h) j"
    using assms(1)
  proof (cases rule: place_host_cases)
    case (Repaired hs)
    define hs1 where "hs1 = hs\<lparr>ht_token := [], ht_owner_id := owner,
        ht_info := (ht_info hs)\<lparr>hi_owner_id := owner, hi_host_name := name, hi_last_seen := now,
          hi_port := (if port_ok port then port else hi_port (ht_info hs))\<rparr>\<rparr>"
    have h1: "rg_hosts h1 = gm_set i hs1 (rg_hosts h)" using Repaired(2) by (simp only: hs1_def)
    have "hi_host_id (ht_info hs1) = i" "hi_online (ht_info hs1) \<longleftrightarrow> ht_session hs1 \<noteq> None" "ht_owner_id hs1 = owner"
      using ids [OF Repaired(1)] by (simp_all add: hs1_def)
    then show thesis using Repaired(1) ok h1 by (intro that [of hs1]) (simp_all add: gm_get_set gm_length_set_old)
  next
    case Added
    define hs1 where "hs1 = new_host (zero_host_info\<lparr>hi_host_id := i, hi_host_name := name, hi_owner_id := owner, hi_last_seen := now,
         hi_port := (if port_ok port then port else 0)\<rparr>) owner []"
    have h1: "rg_hosts h1 = gm_set i hs1 (rg_hosts h)" using Added(3) by (simp only: hs1_def)
    have "hi_host_id (ht_info hs1) = i" "hi_online (ht_info hs1) \<longleftrightarrow> ht_session hs1 \<noteq> None" "ht_owner_id hs1 = owner"
      by (simp_all add: hs1_def new_host_def zero_host_info_def)
    then show thesis using Added(1,2) ok h1 by (intro that [of hs1]) (simp_all add: gm_get_set gm_length_set_new)
  qed
  have hosts2: "gm_get (rg_hosts h2) j = (if j = i then Some (hs\<lparr>ht_token := token\<rparr>) else gm_get (rg_hosts h) j)" for j
    using hosts1(3) rest [of j] by (simp add: h2_def get_modify_host)
  show "host_owner i h2 = Some owner" using hs(3) assms(3) by (simp add: host_owner_def hosts2)
  show "\<forall>t. gm_get (rg_tokens h2) t = Some i \<longleftrightarrow> t = token" by (auto simp: toks2 toks)
  show "\<forall>j. j \<noteq> i \<longrightarrow> gm_get (rg_hosts h2) j = gm_get (rg_hosts h) j \<and>
      (\<forall>t. t \<noteq> token \<longrightarrow> (gm_get (rg_tokens h2) t = Some j \<longleftrightarrow> gm_get (rg_tokens h) t = Some j))"
    by (auto simp: hosts2 toks2 toks)
  have "gm_ok (rg_hosts h2)" "gm_ok (rg_tokens h2)" "length (rg_hosts h2) \<le> max_hosts"
    using hosts1 tok1 by (simp_all add: h2_def)
  moreover have "gm_get (rg_hosts h2) j \<noteq> None" if "gm_get (rg_tokens h2) t = Some j" for t j
    using that live [of t j] by (auto simp: toks2 toks hosts2 split: if_splits)
  moreover have "hi_host_id (ht_info v) = j \<and> (hi_online (ht_info v) \<longleftrightarrow> ht_session v \<noteq> None)"
    if "gm_get (rg_hosts h2) j = Some v" for j v
    using that hs ids [of j v] by (auto simp: hosts2 split: if_splits)
  ultimately show "hosts_ok h2" unfolding hosts_ok_def by blast
qed

text \<open>A hub with one account, one attached host of the root's, a root code and a user's code.\<close>

definition sample_host :: host_state where
  "sample_host = (new_host (zero_host_info\<lparr>hi_host_id := ''pc'', hi_owner_id := ''root'', hi_online := True\<rparr>) ''root'' ''t0'')
     \<lparr>ht_session := Some 0\<rparr>"

definition sample_registry :: registry where
  "sample_registry = user_hub.extend (sample_user_hub\<lparr>
       uh_pair_codes := [(''XYZ789'', \<lparr>uc_owner_id = ''u_1'', uc_expires = 900\<rparr>)], uh_code_by_owner := [(''u_1'', ''XYZ789'')],
       ph_fan := new_fan_hub\<lparr>hb_hosts := [(''pc'', zero_view)]\<rparr>\<rparr>)
     \<lparr>rg_pairing_code = ''ABC234'', rg_code_expires = 900, rg_tokens = [(''t0'', ''pc'')], rg_hosts = [(''pc'', sample_host)],
      rg_relay = new_relay, rg_data_file = ''hub.json'', rg_disk = None, rg_hub_boot = 1, rg_next_session = 1, rg_stops = []\<rparr>"

lemma sample_registry_fields:
  "rg_hosts sample_registry = [(''pc'', sample_host)]" "rg_tokens sample_registry = [(''t0'', ''pc'')]"
  "uh_pair_codes sample_registry = [(''XYZ789'', \<lparr>uc_owner_id = ''u_1'', uc_expires = 900\<rparr>)]"
  "uh_code_by_owner sample_registry = [(''u_1'', ''XYZ789'')]" "rg_pairing_code sample_registry = ''ABC234''"
  "hi_host_id (ht_info sample_host) = ''pc''" "hi_online (ht_info sample_host)" "ht_session sample_host = Some 0"
  "ht_token sample_host = ''t0''"
  by (simp_all add: sample_registry_def user_hub.defs sample_host_def new_host_def)

lemma sample_registry_ok: "hosts_ok sample_registry" "codes_ok sample_registry"
  by (simp_all add: hosts_ok_def codes_ok_def sample_registry_fields gm_ok_def max_hosts_def)

definition sample_pairing :: "(registry \<times> (registry_error + string \<times> string)) option" where
  "sample_pairing = pair_as ''u_1'' '' xyz789'' ''pc'' ''Desk'' 8080 5 [1, 255] [] sample_registry"

lemma sample_pairing_result: "map_option snd sample_pairing = Some (Inr (''01ff'', ''pc-1''))"
  by code_simp

text \<open>C3: Pairing never takes a host from its owner. A pairing that succeeds presented a live code of its
  owner, and the host it returns was unregistered or already the owner's; afterwards the owner holds
  the host, the returned token is the only one that names it, and every other host keeps its record
  and its tokens. (Unless a fresh 256-bit token repeats an old one.)\<close>

theorem pairing_never_hijacks:
  assumes "hosts_ok h" and "pair_as owner code host name port now td cds h = Some (h', Inr (token, i))"
  shows "(\<exists>o1. o1 = host_owner_or_default (trim_space owner) \<and> code_accepted o1 code now h \<and>
      (\<forall>o2. host_owner i h = Some o2 \<longrightarrow> o2 = o1) \<and> host_owner i h' = Some o1) \<and>
    (\<forall>t. host_id_for_token t h' = Some i \<longleftrightarrow> t = token) \<and>
    (\<forall>j. j \<noteq> i \<longrightarrow> gm_get (rg_hosts h') j = gm_get (rg_hosts h) j \<and>
       (\<forall>t. t \<noteq> token \<longrightarrow> (host_id_for_token t h' = Some j \<longleftrightarrow> host_id_for_token t h = Some j)))"
  using assms(2)
proof (cases rule: pair_as_success)
  case (1 o1 h1 h2)
  have o1: "o1 = host_owner_or_default o1" using 1(1) by (simp add: owner_default_idem)
  note placed = place_host_facts [OF 1(7) assms(1) o1 1(8)] and same = consume_frame [OF 1(9)]
  have "length (rg_hosts h) \<le> max_hosts" using assms(1) by (simp add: hosts_ok_def)
  have "o2 = o1" if owned: "host_owner i h = Some o2" for o2
  proof -
    obtain hs where hs: "gm_get (rg_hosts h) i = Some hs" "o2 = host_owner_or_default (ht_owner_id hs)"
      using owned by (auto simp: host_owner_def)
    from 1(6) show ?thesis using hs
      by (auto simp: resolve_host_id_def Let_def split: option.splits if_splits dest: resolve_loop_free)
  qed
  then show ?thesis using placed(2-4) same 1(1,2,10)
    by (simp add: host_owner_def host_id_for_token_def)
qed

lemma pairing_never_hijacks_witness:
  "case sample_pairing of None \<Rightarrow> False | Some (h', _) \<Rightarrow> host_id_for_token ''01ff'' h' = Some ''pc-1'' \<and>
     host_id_for_token ''t0'' h' = Some ''pc'' \<and> gm_get (rg_hosts h') ''pc'' = Some sample_host"
proof -
  obtain h' where p: "sample_pairing = Some (h', Inr (''01ff'', ''pc-1''))" using sample_pairing_result by fastforce
  show ?thesis
    using pairing_never_hijacks [OF sample_registry_ok(1) p [unfolded sample_pairing_def]]
    by (simp add: p sample_registry_fields host_id_for_token_def)
qed

text \<open>C16: A pairing code works once. After a pairing succeeds, the same code is refused at any later time:
  a user's code is gone, and the root's was replaced (unless the very same code was drawn again).\<close>

theorem pairing_code_one_shot:
  assumes "pair_as owner code host name port now td cds h = Some (h', Inr res)"
    and "o1 = host_owner_or_default (trim_space owner)"
    and "o1 = ''root'' \<longrightarrow> (\<forall>b \<in> set cds. random_string code_alphabet b \<noteq> rg_pairing_code h)"
  shows "\<not> code_accepted o1 code later h'"
proof -
  obtain token i where res: "res = (token, i)" by (cases res)
  from assms(1) [unfolded res] show ?thesis
  proof (cases rule: pair_as_success)
    case (1 o2 h1 h2)
    have same: "rg_pairing_code h1 = rg_pairing_code h"
      using 1(7) by (auto simp: place_host_def revoke_tokens_def add_host_def split: if_splits)
    from 1(9) show ?thesis
    proof (cases rule: consume_code_cases)
      case (Root c)
      then have "c \<noteq> rg_pairing_code h" using assms(2,3) 1(1) by auto
      moreover have "to_upper (trim_space code) = rg_pairing_code h"
        using 1(2) Root(1) by (simp add: code_accepted_def Let_def)
      ultimately show ?thesis using Root 1(1,10) assms(2) by (simp add: code_accepted_def Let_def)
    next
      case User
      then show ?thesis using 1(1,10) assms(2) by (simp add: code_accepted_def Let_def gm_get_del)
    qed
  qed
qed

lemma pairing_code_one_shot_witness:
  "case sample_pairing of None \<Rightarrow> False | Some (h', _) \<Rightarrow> \<not> code_accepted ''u_1'' '' xyz789'' 6 h'"
proof -
  obtain h' where p: "sample_pairing = Some (h', Inr (''01ff'', ''pc-1''))" using sample_pairing_result by fastforce
  have o: "''u_1'' = host_owner_or_default (trim_space ''u_1'')" by code_simp
  show ?thesis using pairing_code_one_shot [OF p [unfolded sample_pairing_def] o, of 6] by (simp add: p)
qed

section \<open>Unpairing\<close>

lemma pend_fail_pending [simp]: "pend (fail_pending host now st) host = []"
  by (simp add: fail_pending_def pend_def Let_def gm_get_del)

lemma unpair_cases:
  assumes "unpair host now h = (h', err)"
  obtains (Unknown) "gm_get (rg_hosts h) (trim_space host) = None" "h' = h" "err = Some ErrHostUnknown"
  | (Gone) hs where "gm_get (rg_hosts h) (trim_space host) = Some hs" "err = None"
      "rg_hosts h' = gm_del (trim_space host) (rg_hosts (revoke_tokens (trim_space host) h))"
      "rg_tokens h' = filter (\<lambda>(tk, hid). hid \<noteq> trim_space host) (rg_tokens h)"
      "rg_relay h' = (fail_pending (trim_space host) now (rg_relay h))
         \<lparr>rl_tombs := gm_del (trim_space host) (rl_tombs (fail_pending (trim_space host) now (rg_relay h)))\<rparr>"
      "rg_stops h' = rg_stops h @ (case ht_session hs of None \<Rightarrow> [] | Some s \<Rightarrow> [(s, close_auth)])"
      "\<exists>f. ph_fan h' = drop_subscribers_for_host (trim_space host) f"
      "rg_data_file h \<noteq> [] \<and> ph_disk_ok h \<longrightarrow> rg_disk h' = Some (snapshot h')"
      "rg_pairing_code h' = rg_pairing_code h" "uh_pair_codes h' = uh_pair_codes h" "uh_code_by_owner h' = uh_code_by_owner h"
proof (cases "gm_get (rg_hosts h) (trim_space host)")
  case None
  then show thesis using assms by (intro Unknown) (simp_all add: unpair_def Let_def)
next
  case (Some hs)
  let ?i = "trim_space host"
  define h1 where "h1 = (revoke_tokens ?i h)\<lparr>rg_relay := fail_pending ?i now (rg_relay (revoke_tokens ?i h))\<rparr>"
  define h2 where "h2 = (case ht_session hs of None \<Rightarrow> h1 | Some s \<Rightarrow> request_stop s close_auth h1)"
  define h3 where "h3 = registry_broadcast hosts_changed ((del_host ?i h2)
    \<lparr>rg_relay := (rg_relay (del_host ?i h2))\<lparr>rl_tombs := gm_del ?i (rl_tombs (rg_relay (del_host ?i h2)))\<rparr>\<rparr>)"
  have h': "h' = persist_now (h3\<lparr>ph_fan := drop_subscribers_for_host ?i (ph_fan h3)\<rparr>)" "err = None"
    using assms Some unfolding unpair_def Let_def h1_def h2_def h3_def by simp_all
  have h1: "rg_hosts h1 = rg_hosts (revoke_tokens ?i h)" "rg_tokens h1 = filter (\<lambda>(tk, hid). hid \<noteq> ?i) (rg_tokens h)"
    "rg_relay h1 = fail_pending ?i now (rg_relay h)" "rg_stops h1 = rg_stops h" "rg_data_file h1 = rg_data_file h"
    "ph_disk_ok h1 = ph_disk_ok h" "rg_pairing_code h1 = rg_pairing_code h" "uh_pair_codes h1 = uh_pair_codes h"
    "uh_code_by_owner h1 = uh_code_by_owner h"
    by (simp_all add: h1_def revoke_tokens_def)
  have h2: "h2 = h1\<lparr>rg_stops := rg_stops h @ (case ht_session hs of None \<Rightarrow> [] | Some s \<Rightarrow> [(s, close_auth)])\<rparr>"
    using h1(4) by (simp add: h2_def request_stop_def split: option.split)
  have h3: "h3 = h2\<lparr>rg_hosts := gm_del ?i (rg_hosts h1), ph_fan := ph_fan h3,
      rg_relay := (rg_relay h1)\<lparr>rl_tombs := gm_del ?i (rl_tombs (rg_relay h1))\<rparr>\<rparr>"
    by (simp add: h3_def del_host_def registry_broadcast_def h2)
  obtain f where fan: "ph_fan h3 = f" by blast
  note eqs = h3 [unfolded fan h2]
  show thesis
    by (rule Gone [OF Some h'(2)]; unfold h'(1) eqs; auto simp: h1 persist_now_def snapshot_def)
qed

lemma drop_host_kicks:
  assumes "i \<noteq> []" and "s \<in> set (hb_subs (drop_subscribers_for_host i f))"
    and "sb_host s = i \<or> i \<in> set (sb_allowed_hosts s) \<or> (\<exists>us. sb_user_hosts s = Some us \<and> i \<in> set us)"
  shows "sb_kicked s"
proof -
  let ?stale = "\<lambda>s. let st = (sb_host s = i \<or> i \<in> set (sb_allowed_hosts s))
     in (case sb_user_hosts s of Some hosts \<Rightarrow> if i \<in> set hosts then True else st | None \<Rightarrow> st)"
  have "s \<in> (\<lambda>s. if ?stale s then sub_kick s else s) ` set (hb_subs f)"
    using assms(1,2) by (simp add: drop_subscribers_for_host_def map_subs_def Let_def del: if_image_distrib)
  then obtain s0 where s: "s = (if ?stale s0 then sub_kick s0 else s0)" by (rule imageE)
  show ?thesis
  proof (cases "?stale s0")
    case True
    then show ?thesis using s by (simp add: sub_kick_def)
  next
    case False
    then have "s = s0" using s by simp
    then show ?thesis using False assms(3) by (auto simp: Let_def split: option.splits if_splits)
  qed
qed

text \<open>C10: Unpairing leaves nothing behind. The host is unknown, no token names it, it has no pending
  request and no tombstone, the session that was attached is told to stop for lost authorisation,
  every page scoped to the host is kicked, the file no longer holds it, and other hosts keep their
  records and tokens.\<close>

theorem unpair_leaves_nothing:
  assumes "hosts_ok h" and "unpair host now h = (h', None)" and "i = trim_space host" and "i \<noteq> []"
  shows "host_owner i h' = None \<and> (\<forall>t. host_id_for_token t h' \<noteq> Some i) \<and>
    pend (rg_relay h') i = [] \<and> tombs (rg_relay h') i = [] \<and>
    (\<forall>hs s. gm_get (rg_hosts h) i = Some hs \<and> ht_session hs = Some s \<longrightarrow> (s, close_auth) \<in> set (rg_stops h')) \<and>
    (\<forall>s \<in> set (hb_subs (ph_fan h')). sb_host s = i \<or> i \<in> set (sb_allowed_hosts s) \<or>
       (\<exists>us. sb_user_hosts s = Some us \<and> i \<in> set us) \<longrightarrow> sb_kicked s) \<and>
    (rg_data_file h \<noteq> [] \<and> ph_disk_ok h \<longrightarrow> rg_disk h' = Some (snapshot h') \<and> i \<notin> fst ` set (pf_hosts (snapshot h'))) \<and>
    (\<forall>j. j \<noteq> i \<longrightarrow> gm_get (rg_hosts h') j = gm_get (rg_hosts h) j \<and>
       (\<forall>t. host_id_for_token t h' = Some j \<longleftrightarrow> host_id_for_token t h = Some j))"
  using assms(2)
proof (cases rule: unpair_cases)
  case (Gone hs)
  note g = Gone [folded assms(3)]
  have toks: "gm_ok (rg_tokens h)" using assms(1) by (simp add: hosts_ok_def)
  have hosts: "gm_get (rg_hosts h') j = (if j = i then None else gm_get (rg_hosts h) j)" for j
    by (simp add: g(3) gm_get_del revoke_tokens_def get_modify_host)
  have gone: "i \<notin> gm_keys (rg_hosts h')" unfolding gm_keys_iff hosts by simp
  obtain f where fan: "ph_fan h' = drop_subscribers_for_host i f" using g(7) by blast
  have "host_owner i h' = None" by (simp add: host_owner_def hosts)
  moreover have "pend (rg_relay h') i = []" unfolding g(5)
    using pend_fail_pending [of i now "rg_relay h"] by (simp add: pend_def)
  moreover have "tombs (rg_relay h') i = []" unfolding g(5) by (simp add: tombs_def gm_get_del)
  moreover have "\<forall>t. host_id_for_token t h' \<noteq> Some i" by (simp add: host_id_for_token_def g(4) get_filter_snd [OF toks])
  moreover have "\<forall>j. j \<noteq> i \<longrightarrow> gm_get (rg_hosts h') j = gm_get (rg_hosts h) j \<and>
      (\<forall>t. host_id_for_token t h' = Some j \<longleftrightarrow> host_id_for_token t h = Some j)"
    by (auto simp: host_id_for_token_def g(4) get_filter_snd [OF toks] hosts)
  moreover have "\<forall>s \<in> set (hb_subs (ph_fan h')). sb_host s = i \<or> i \<in> set (sb_allowed_hosts s) \<or>
       (\<exists>us. sb_user_hosts s = Some us \<and> i \<in> set us) \<longrightarrow> sb_kicked s"
    unfolding fan using drop_host_kicks [OF assms(4)] by blast
  moreover have "fst ` set (pf_hosts (snapshot h')) = gm_keys (rg_hosts h')"
    by (simp add: snapshot_def image_image case_prod_beta)
  ultimately show ?thesis using g(1,6,8) gone by simp
qed simp

lemma unpair_leaves_nothing_witness:
  "case unpair ''pc '' 7 sample_registry of (h', _) \<Rightarrow> host_owner ''pc'' h' = None \<and> host_id_for_token ''t0'' h' \<noteq> Some ''pc'' \<and>
     (0, close_auth) \<in> set (rg_stops h')"
proof -
  obtain h' err where u: "unpair ''pc '' 7 sample_registry = (h', err)" by fastforce
  moreover have "snd (unpair ''pc '' 7 sample_registry) = None" by code_simp
  ultimately have u': "unpair ''pc '' 7 sample_registry = (h', None)" by simp
  have i: "''pc'' = trim_space ''pc ''" by code_simp
  show ?thesis
    using unpair_leaves_nothing [OF sample_registry_ok(1) u' i] by (simp add: u' sample_registry_fields)
qed

section \<open>What each operation keeps\<close>

lemma hosts_ok_cong: "rg_hosts h' = rg_hosts h \<Longrightarrow> rg_tokens h' = rg_tokens h \<Longrightarrow> hosts_ok h' = hosts_ok h"
  by (simp add: hosts_ok_def)

lemma codes_ok_cong:
  "uh_pair_codes h' = uh_pair_codes h \<Longrightarrow> uh_code_by_owner h' = uh_code_by_owner h \<Longrightarrow> rg_pairing_code h' = rg_pairing_code h \<Longrightarrow>
   codes_ok h' = codes_ok h"
  by (simp add: codes_ok_def)

lemma hosts_ok_modify:
  assumes "hosts_ok h"
    and "\<And>hs. hi_host_id (ht_info hs) = i \<Longrightarrow> (hi_online (ht_info hs) \<longleftrightarrow> ht_session hs \<noteq> None) \<Longrightarrow>
      hi_host_id (ht_info (f hs)) = i \<and> (hi_online (ht_info (f hs)) \<longleftrightarrow> ht_session (f hs) \<noteq> None)"
  shows "hosts_ok (modify_host i f h)"
proof -
  have "hi_host_id (ht_info hs) = j \<and> (hi_online (ht_info hs) \<longleftrightarrow> ht_session hs \<noteq> None)"
    if "gm_get (rg_hosts (modify_host i f h)) j = Some hs" for j hs
    using that assms unfolding hosts_ok_def get_modify_host by (auto split: if_splits)
  moreover have "gm_get (rg_hosts (modify_host i f h)) j \<noteq> None" if "gm_get (rg_tokens h) tk = Some j" for tk j
    using that assms(1) unfolding hosts_ok_def get_modify_host by (auto split: if_splits)
  ultimately show ?thesis using assms(1) by (simp add: hosts_ok_def)
qed

lemma hosts_ok_revoke: "hosts_ok h \<Longrightarrow> hosts_ok (revoke_tokens i h)"
proof -
  assume ok: "hosts_ok h"
  have "hosts_ok (h\<lparr>rg_tokens := filter (\<lambda>(tk, hid). hid \<noteq> i) (rg_tokens h)\<rparr>)"
    using ok by (auto simp: hosts_ok_def get_filter_snd split: if_splits)
  then show ?thesis unfolding revoke_tokens_def by (rule hosts_ok_modify) simp
qed

lemma hosts_ok_unpair:
  assumes "hosts_ok h" and "unpair host now h = (h', err)" shows "hosts_ok h'"
  using assms(2)
proof (cases rule: unpair_cases)
  case (Gone hs)
  let ?i = "trim_space host" and ?h = "revoke_tokens (trim_space host) h"
  have r: "hosts_ok ?h" by (rule hosts_ok_revoke [OF assms(1)])
  have toks: "rg_tokens h' = rg_tokens ?h" by (simp add: Gone(4) revoke_tokens_def)
  have "gm_get (rg_tokens ?h) tk \<noteq> Some ?i" for tk
    using assms(1) by (simp add: revoke_tokens_def get_filter_snd hosts_ok_def)
  then show ?thesis using r gm_length_del_le [of ?i "rg_hosts ?h"]
    by (fastforce simp: hosts_ok_def Gone(3) toks gm_get_del)
qed (use assms in simp)

lemma codes_ok_put:
  assumes "codes_ok h" and "c \<noteq> rg_pairing_code h" and "gm_get (uh_pair_codes h) c = None"
  shows "codes_ok (put_user_code owner c expires h)"
proof -
  let ?codes = "uh_pair_codes (put_user_code owner c expires h)" and ?index = "uh_code_by_owner (put_user_code owner c expires h)"
  have "case gm_get ?codes c' of None \<Rightarrow> False | Some e \<Rightarrow> uc_owner_id e = o'" if ix: "gm_get ?index o' = Some c'" for o' c'
  proof (cases "o' = owner")
    case True
    then show ?thesis using ix by (simp add: put_user_code_def gm_get_set)
  next
    case False
    then have "gm_get (uh_code_by_owner h) o' = Some c'" using ix by (simp add: put_user_code_def gm_get_set)
    then have old: "case gm_get (uh_pair_codes h) c' of None \<Rightarrow> False | Some e \<Rightarrow> uc_owner_id e = o'"
      using assms(1) unfolding codes_ok_def by blast
    then have "c' \<noteq> c" using assms(3) by auto
    then show ?thesis using old by (simp add: put_user_code_def gm_get_set)
  qed
  moreover have "gm_get ?codes (rg_pairing_code h) = None"
    using assms by (simp add: codes_ok_def put_user_code_def gm_get_set)
  ultimately show ?thesis unfolding codes_ok_def by (simp add: put_user_code_def)
qed

lemma codes_ok_drop:
  fixes h :: "'a registry_scheme" assumes "codes_ok h" shows "codes_ok (drop_owner_code owner h)"
proof (cases "gm_get (uh_code_by_owner h) owner")
  case (Some c)
  have c: "\<exists>e. gm_get (uh_pair_codes h) c = Some e \<and> uc_owner_id e = owner"
    using assms Some unfolding codes_ok_def by (fastforce split: option.splits)
  show ?thesis
  proof (cases "c = []")
    case False
    have "case gm_get (gm_del c (uh_pair_codes h)) c' of None \<Rightarrow> False | Some e \<Rightarrow> uc_owner_id e = o'"
      if "gm_get (gm_del owner (uh_code_by_owner h)) o' = Some c'" for o' c'
      using that c assms unfolding codes_ok_def gm_get_del by (fastforce split: if_splits option.splits)
    then show ?thesis using Some False assms by (simp add: drop_owner_code_def codes_ok_def gm_get_del)
  qed (use Some assms in \<open>simp add: drop_owner_code_def\<close>)
qed (use assms in \<open>simp add: drop_owner_code_def\<close>)

lemma codes_ok_rotate: "codes_ok h \<Longrightarrow> rotate_code ds now h = Some h' \<Longrightarrow> codes_ok h'"
  by (auto simp: rotate_code_def codes_ok_def dest!: draw_fresh_free)

lemma codes_ok_consume:
  assumes "codes_ok h" and "code_accepted owner code now h" and "consume_code owner code ds now h = Some h'"
  shows "codes_ok h'"
  using assms(3)
proof (cases rule: consume_code_cases)
  case (Root c)
  then show ?thesis using assms(1) by (simp add: codes_ok_def)
next
  case User
  let ?c = "to_upper (trim_space code)"
  obtain e where e: "gm_get (uh_pair_codes h) ?c = Some e" "uc_owner_id e = owner"
    using assms(2) User(1) by (auto simp: code_accepted_def Let_def split: option.splits)
  have "case gm_get (gm_del ?c (uh_pair_codes h)) c' of None \<Rightarrow> False | Some e \<Rightarrow> uc_owner_id e = o'"
    if "gm_get (gm_del owner (uh_code_by_owner h)) o' = Some c'" for o' c'
    using that e assms(1) unfolding codes_ok_def gm_get_del by (fastforce split: if_splits option.splits)
  then show ?thesis using assms(1) by (simp add: User(2) codes_ok_def gm_get_del)
qed

lemma registry_ok_pair:
  assumes "registry_ok h" and "pair_as owner code host name port now td cds h = Some (h', res)" shows "registry_ok h'"
proof (cases res)
  case (Inl e)
  then show ?thesis using assms by (auto simp: pair_as_def Let_def split: if_splits option.splits)
next
  case (Inr r)
  obtain token i where r: "r = (token, i)" by (cases r)
  from assms(2) [unfolded Inr r] show ?thesis
  proof (cases rule: pair_as_success)
    case (1 o1 h1 h2)
    let ?h = "modify_host i (\<lambda>hs. hs\<lparr>ht_token := token\<rparr>) (h1\<lparr>rg_tokens := gm_set token i (rg_tokens h1)\<rparr>)"
    have o1: "o1 = host_owner_or_default o1" using 1(1) by (simp add: owner_default_idem)
    have ok: "hosts_ok h" "codes_ok h" using assms(1) by (simp_all add: registry_ok_def)
    have "hosts_ok ?h" by (rule place_host_facts(1) [OF 1(7) ok(1) o1 1(8)])
    then have "hosts_ok h'" using consume_frame [OF 1(9)] 1(10) by (simp add: hosts_ok_def)
    moreover have "codes_ok h'"
    proof -
      have same: "uh_pair_codes ?h = uh_pair_codes h" "uh_code_by_owner ?h = uh_code_by_owner h"
        "rg_pairing_code ?h = rg_pairing_code h" "rg_code_expires ?h = rg_code_expires h" "uh_users ?h = uh_users h"
        using 1(7) by (auto simp: place_host_def revoke_tokens_def add_host_def split: if_splits option.splits)
      have "codes_ok ?h" using ok(2) codes_ok_cong [OF same(1-3)] by (simp only:)
      moreover have "code_accepted o1 code now ?h" using 1(2) unfolding code_accepted_def same .
      ultimately have "codes_ok h2" using 1(9) by (rule codes_ok_consume)
      then show ?thesis using 1(10) by (simp add: codes_ok_def)
    qed
    ultimately show ?thesis by (simp add: registry_ok_def)
  qed
qed

end
