(* ===== verification/Registry_Sound.thy ===== *)
theory Registry_Sound
  imports Registry_Inv
begin

text \<open>
  The registry over every history of pairings, unpairings, code rotations, account changes, status
  patches and attachments: one preservation lemma per operation, then the run.
\<close>

section \<open>Tokens\<close>

text \<open>Every token in the table is the one its host record holds, so a host has at most one.\<close>

definition tokens_ok :: "'a registry_scheme \<Rightarrow> bool" where
  "tokens_ok h \<longleftrightarrow> (\<forall>tk i. gm_get (rg_tokens h) tk = Some i \<longrightarrow>
     (case gm_get (rg_hosts h) i of None \<Rightarrow> False | Some hs \<Rightarrow> ht_token hs = tk))"

definition registry_inv :: "'a registry_scheme \<Rightarrow> bool" where
  "registry_inv h \<longleftrightarrow> hosts_ok h \<and> codes_ok h \<and> tokens_ok h"

lemma registry_inv_cong:
  "rg_hosts h' = rg_hosts h \<Longrightarrow> rg_tokens h' = rg_tokens h \<Longrightarrow> uh_pair_codes h' = uh_pair_codes h \<Longrightarrow>
   uh_code_by_owner h' = uh_code_by_owner h \<Longrightarrow> rg_pairing_code h' = rg_pairing_code h \<Longrightarrow> registry_inv h' = registry_inv h"
  by (simp add: registry_inv_def hosts_ok_def codes_ok_def tokens_ok_def)

lemma registry_inv_frame [simp]:
  "registry_inv (h\<lparr>ph_fan := f\<rparr>) = registry_inv h" "registry_inv (h\<lparr>rg_relay := r\<rparr>) = registry_inv h"
  "registry_inv (h\<lparr>rg_next_session := n\<rparr>) = registry_inv h" "registry_inv (h\<lparr>ph_fan := f, rg_relay := r\<rparr>) = registry_inv h"
  "registry_inv (set_attached i b h) = registry_inv h" "registry_inv (registry_broadcast ev h) = registry_inv h"
  "registry_inv (persist_now h) = registry_inv h"
  by (rule registry_inv_cong; simp add: set_attached_def registry_broadcast_def split: option.split)+

text \<open>A write through a host pointer that keeps the id, the token and the link between the online
  flag and the session.\<close>

definition steady :: "(host_state \<Rightarrow> host_state) \<Rightarrow> bool" where
  "steady f \<longleftrightarrow> (\<forall>hs. ht_token (f hs) = ht_token hs \<and> hi_host_id (ht_info (f hs)) = hi_host_id (ht_info hs) \<and>
     ((hi_online (ht_info hs) \<longleftrightarrow> ht_session hs \<noteq> None) \<longrightarrow> (hi_online (ht_info (f hs)) \<longleftrightarrow> ht_session (f hs) \<noteq> None)))"

lemma registry_inv_modify:
  assumes "registry_inv h" and "steady f" shows "registry_inv (modify_host i f h)"
proof -
  have "hosts_ok (modify_host i f h)"
    by (rule hosts_ok_modify) (use assms in \<open>auto simp: registry_inv_def steady_def\<close>)
  moreover have "codes_ok (modify_host i f h)" using assms(1) by (simp add: registry_inv_def codes_ok_def)
  moreover have "tokens_ok (modify_host i f h)"
    using assms unfolding registry_inv_def tokens_ok_def get_modify_host
    by (fastforce simp: steady_def split: option.splits)
  ultimately show ?thesis by (simp add: registry_inv_def)
qed

section \<open>One lemma per operation\<close>

lemma tokens_ok_revoke: "hosts_ok h \<Longrightarrow> tokens_ok h \<Longrightarrow> tokens_ok (revoke_tokens i h)"
  by (auto simp: tokens_ok_def revoke_tokens_def get_modify_host get_filter_snd hosts_ok_def split: if_splits)

lemma inv_pair:
  assumes "registry_inv h" and "pair_as owner code host name port now td cds h = Some (h', res)" shows "registry_inv h'"
proof -
  have ok: "hosts_ok h" "tokens_ok h" "registry_ok h" using assms(1) by (simp_all add: registry_inv_def registry_ok_def)
  have r: "registry_ok h'" by (rule registry_ok_pair [OF ok(3) assms(2)])
  have "tokens_ok h'"
  proof (cases res)
    case (Inl e)
    then show ?thesis using ok(2) assms(2) by (auto simp: pair_as_def Let_def split: if_splits option.splits)
  next
    case (Inr x)
    obtain token i where x: "x = (token, i)" by (cases x)
    from assms(2) [unfolded Inr x] show ?thesis
    proof (cases rule: pair_as_success)
      case (1 o1 h1 h2)
      have o1: "o1 = host_owner_or_default o1" using 1(1) by (simp add: owner_default_idem)
      let ?h = "modify_host i (\<lambda>hs. hs\<lparr>ht_token := token\<rparr>) (h1\<lparr>rg_tokens := gm_set token i (rg_tokens h1)\<rparr>)"
      note placed = place_host_facts [OF 1(7) ok(1) o1 1(8)]
      have "case gm_get (rg_hosts ?h) j of None \<Rightarrow> False | Some hs \<Rightarrow> ht_token hs = tk"
        if tk: "gm_get (rg_tokens ?h) tk = Some j" for tk j
      proof (cases "j = i")
        case True
        then have "tk = token" using placed(3) tk by blast
        moreover have "gm_get (rg_hosts ?h) i \<noteq> None" using placed(1) tk True unfolding hosts_ok_def by blast
        ultimately show ?thesis using True by (auto simp: get_modify_host)
      next
        case False
        have "tk \<noteq> token" using placed(3) tk False by (metis option.inject)
        then have "gm_get (rg_tokens h) tk = Some j" "gm_get (rg_hosts ?h) j = gm_get (rg_hosts h) j"
          using placed(4) tk False by blast+
        then show ?thesis using ok(2) unfolding tokens_ok_def by simp
      qed
      then have "tokens_ok ?h" unfolding tokens_ok_def by blast
      then show ?thesis using consume_frame [OF 1(9)] 1(10) by (simp add: tokens_ok_def)
    qed
  qed
  then show ?thesis using r by (simp add: registry_inv_def registry_ok_def)
qed

lemma inv_unpair:
  assumes "registry_inv h" and "unpair host now h = (h', err)" shows "registry_inv h'"
  using assms(2)
proof (cases rule: unpair_cases)
  case (Gone hs)
  let ?i = "trim_space host"
  have ok: "hosts_ok h" "codes_ok h" "tokens_ok h" using assms(1) by (simp_all add: registry_inv_def)
  have "tokens_ok (revoke_tokens ?i h)" by (rule tokens_ok_revoke [OF ok(1,3)])
  moreover have "rg_tokens h' = rg_tokens (revoke_tokens ?i h)" by (simp add: Gone(4) revoke_tokens_def)
  moreover have "gm_get (rg_tokens (revoke_tokens ?i h)) tk \<noteq> Some ?i" for tk
    using ok(1) by (simp add: revoke_tokens_def get_filter_snd hosts_ok_def)
  ultimately have "tokens_ok h'" by (fastforce simp: tokens_ok_def Gone(3) gm_get_del)
  moreover have "hosts_ok h'" by (rule hosts_ok_unpair [OF ok(1) assms(2)])
  moreover have "codes_ok h'" using codes_ok_cong [OF Gone(10,11,9)] ok(2) by (simp only:)
  ultimately show ?thesis by (simp add: registry_inv_def)
qed (use assms in simp)

lemma inv_rename: "registry_inv h \<Longrightarrow> registry_inv (fst (rename_host host name h))"
  by (simp add: rename_host_def Let_def registry_inv_modify steady_def split: option.split)

lemma patched_info_frame [simp]:
  "hi_host_id (patched_info p i) = hi_host_id i" "hi_online (patched_info p i) = hi_online i"
  by (simp_all add: patched_info_def Let_def split: option.split)

lemma inv_status: "registry_inv h \<Longrightarrow> registry_inv (fst (update_host_status host p h))"
  by (simp add: update_host_status_def Let_def registry_inv_modify steady_def split: option.split)

lemma inv_codes:
  assumes "registry_inv h" and "rg_hosts h' = rg_hosts h" and "rg_tokens h' = rg_tokens h" and "codes_ok h'"
  shows "registry_inv h'"
  using assms by (simp add: registry_inv_def hosts_ok_def tokens_ok_def)

lemma inv_rotate: "registry_inv h \<Longrightarrow> rotate_code ds now h = Some h' \<Longrightarrow> registry_inv h'"
  using codes_ok_rotate [of h ds now h']
  by (intro inv_codes [of h h']) (auto simp: rotate_code_def registry_inv_def)

lemma inv_put_code:
  assumes "registry_inv h" and "new_unique_pair_code ds h = Some c" shows "registry_inv (put_user_code owner c t h)"
proof (rule inv_codes [OF assms(1)])
  have "c \<noteq> rg_pairing_code h" "gm_get (uh_pair_codes h) c = None"
    using assms(2) by (auto simp: new_unique_pair_code_def dest!: draw_fresh_free)
  then show "codes_ok (put_user_code owner c t h)" using assms(1) by (intro codes_ok_put) (simp_all add: registry_inv_def)
qed (simp_all add: put_user_code_def)

lemma inv_drop_code:
  fixes h :: "'a registry_scheme"
  assumes "registry_inv h" shows "registry_inv (drop_owner_code owner h)"
proof (rule inv_codes [OF assms])
  show "codes_ok (drop_owner_code owner h)" using codes_ok_drop [of h owner] assms by (simp add: registry_inv_def)
qed (simp_all add: drop_owner_code_def split: option.split)

lemma inv_ensure: "registry_inv h \<Longrightarrow> ensure_fresh_pairing_code ds now h = Some (h', c, t) \<Longrightarrow> registry_inv h'"
  by (auto simp: ensure_fresh_pairing_code_def split: if_splits intro: inv_rotate)

lemma inv_user_code: "registry_inv h \<Longrightarrow> user_pairing_code owner ds now h = Some (h', c, t) \<Longrightarrow> registry_inv h'"
  by (auto simp: user_pairing_code_def Let_def split: if_splits option.splits intro: inv_ensure inv_put_code)

lemma inv_rotate_user: "registry_inv h \<Longrightarrow> rotate_user_pairing_code owner ds now h = Some (h', c, t) \<Longrightarrow> registry_inv h'"
  by (auto simp: rotate_user_pairing_code_def rotate_pairing_code_def Let_def split: if_splits
      intro: inv_rotate inv_put_code inv_drop_code)

lemma inv_fresh_space: "registry_inv h \<Longrightarrow> registry_inv (fresh_space host epoch up now hs h)"
  by (simp add: fresh_space_def Let_def registry_inv_modify steady_def split: prod.split)

lemma inv_resumed_space: "registry_inv h \<Longrightarrow> registry_inv (resumed_space host down p h)"
  by (simp add: resumed_space_def registry_inv_modify steady_def)

lemma inv_attach: "registry_inv h \<Longrightarrow> registry_inv (fst (attach host epoch up down defl now h))"
  by (simp add: attach_def Let_def registry_inv_modify steady_def inv_fresh_space inv_resumed_space
      split: option.split prod.split)

lemma inv_detach: "registry_inv h \<Longrightarrow> registry_inv (fst (detach host s now h))"
  by (simp add: detach_def Let_def registry_inv_modify steady_def split: option.split)

lemma inv_small:
  assumes "registry_inv h"
  shows "registry_inv (ev_buf_clear host epoch h)" "registry_inv (touch_host host now h)" "registry_inv (note_up_ack host s a h)"
  using assms by (simp_all add: ev_buf_clear_def touch_host_def note_up_ack_def registry_inv_modify steady_def)

section \<open>Account operations under the registry\<close>

lemma registry_more_eq:
  fixes h h' :: "'a registry_scheme"
  assumes "user_hub.more h' = user_hub.more h"
  shows "rg_hosts h' = rg_hosts h" "rg_tokens h' = rg_tokens h" "rg_pairing_code h' = rg_pairing_code h"
  using assms by (cases h; cases h'; simp)+

lemma user_apply_more [simp]: "user_hub.more (user_apply sha op h) = user_hub.more h"
  by (induction sha op h rule: user_apply.induct)
    (auto simp: or_stay_def create_user_def reset_user_token_def set_user_token_def delete_user_def user_by_token_def
      put_token_hash_def Let_def split: option.split sum.split)

lemma user_apply_codes:
  "(uh_pair_codes (user_apply sha op h) = uh_pair_codes h \<and> uh_code_by_owner (user_apply sha op h) = uh_code_by_owner h) \<or>
   (\<exists>i. uh_pair_codes (user_apply sha op h) = uh_pair_codes (drop_owner_code i h) \<and>
      uh_code_by_owner (user_apply sha op h) = uh_code_by_owner (drop_owner_code i h))"
proof (induction sha op h rule: user_apply.induct)
  case (4 sha now i h)
  obtain h' err where d: "delete_user i now h = (h', err)" by fastforce
  then show ?case by (cases rule: delete_user_cases) (use d in auto)
qed (auto simp: or_stay_def create_user_def reset_user_token_def set_user_token_def user_by_token_def
      put_token_hash_def Let_def split: option.split sum.split)

lemma inv_user:
  fixes h :: "'a registry_scheme"
  assumes "registry_inv h" shows "registry_inv (user_apply sha op h)"
proof -
  let ?h = "user_apply sha op h"
  note same = registry_more_eq [OF user_apply_more [of sha op h]]
  have drop: "rg_pairing_code (drop_owner_code i h) = rg_pairing_code h" for i
    by (simp add: drop_owner_code_def split: option.split)
  have "codes_ok ?h" using user_apply_codes [of sha op h]
  proof
    assume "uh_pair_codes ?h = uh_pair_codes h \<and> uh_code_by_owner ?h = uh_code_by_owner h"
    then show ?thesis using codes_ok_cong [of ?h h] same(3) assms by (simp add: registry_inv_def)
  next
    assume "\<exists>i. uh_pair_codes ?h = uh_pair_codes (drop_owner_code i h) \<and> uh_code_by_owner ?h = uh_code_by_owner (drop_owner_code i h)"
    then obtain i where "uh_pair_codes ?h = uh_pair_codes (drop_owner_code i h)" "uh_code_by_owner ?h = uh_code_by_owner (drop_owner_code i h)" by blast
    then have "codes_ok ?h = codes_ok (drop_owner_code i h)" using same(3) by (intro codes_ok_cong) (simp_all add: drop)
    then show ?thesis using codes_ok_drop [of h i] assms by (simp add: registry_inv_def)
  qed
  then show ?thesis by (rule inv_codes [OF assms same(1,2)])
qed

section \<open>Histories\<close>

datatype registry_op =
    RPair string string string string int bytes "bytes list"
  | RUnpair string
  | RRename string string
  | RUserCode string "bytes list"
  | RRotateCode string "bytes list"
  | RStatus string status_patch
  | RAttach string u64 u64 u64 bool
  | RDetach string nat
  | RBufClear string u64
  | RTouch string
  | RUpAck string nat u64
  | RUser user_op

fun registry_apply :: "(string \<Rightarrow> bytes) \<Rightarrow> time \<times> registry_op \<Rightarrow> 'a registry_scheme \<Rightarrow> 'a registry_scheme" where
  "registry_apply sha (now, RPair owner code host name port td cds) h = or_stay h (pair_as owner code host name port now td cds h)"
| "registry_apply sha (now, RUnpair host) h = fst (unpair host now h)"
| "registry_apply sha (now, RRename host name) h = fst (rename_host host name h)"
| "registry_apply sha (now, RUserCode owner ds) h = or_stay h (user_pairing_code owner ds now h)"
| "registry_apply sha (now, RRotateCode owner ds) h = or_stay h (rotate_user_pairing_code owner ds now h)"
| "registry_apply sha (now, RStatus host p) h = fst (update_host_status host p h)"
| "registry_apply sha (now, RAttach host epoch up down defl) h = fst (attach host epoch up down defl now h)"
| "registry_apply sha (now, RDetach host s) h = fst (detach host s now h)"
| "registry_apply sha (now, RBufClear host epoch) h = ev_buf_clear host epoch h"
| "registry_apply sha (now, RTouch host) h = touch_host host now h"
| "registry_apply sha (now, RUpAck host s a) h = note_up_ack host s a h"
| "registry_apply sha (now, RUser op) h = user_apply sha (now, op) h"

definition registry_run :: "(string \<Rightarrow> bytes) \<Rightarrow> (time \<times> registry_op) list \<Rightarrow> 'a registry_scheme \<Rightarrow> 'a registry_scheme" where
  "registry_run sha ops h = fold (registry_apply sha) ops h"

lemma inv_apply: "registry_inv h \<Longrightarrow> registry_inv (registry_apply sha op h)"
  by (induction sha op h rule: registry_apply.induct)
    (auto simp: or_stay_def inv_rename inv_status inv_attach inv_detach inv_small inv_user split: option.split
      intro: inv_pair inv_user_code inv_rotate_user inv_unpair [OF _ prod.collapse [symmetric]])

lemma inv_run: "registry_inv h \<Longrightarrow> registry_inv (registry_run sha ops h)"
  unfolding registry_run_def by (induction ops arbitrary: h) (auto intro: inv_apply)

text \<open>C4: The registry stays sound over every history of pairings, unpairings, renames, code requests and
  rotations, status patches, attachments, detachments, acknowledgements and account changes, whatever
  is drawn: a token names a live host and is that host's only one, there are at most 256 hosts, each
  under its own id and online exactly while a session is attached, no user code equals the root code,
  and every account's current code is indexed to that account.\<close>

theorem registry_sound:
  assumes "registry_inv h" and "h' = registry_run sha ops h"
  shows "(\<forall>tk i. host_id_for_token tk h' = Some i \<longrightarrow> host_owner i h' \<noteq> None) \<and>
    (\<forall>tk tk' i. host_id_for_token tk h' = Some i \<and> host_id_for_token tk' h' = Some i \<longrightarrow> tk = tk') \<and>
    length (rg_hosts h') \<le> 256 \<and>
    (\<forall>i hs. gm_get (rg_hosts h') i = Some hs \<longrightarrow>
       hi_host_id (ht_info hs) = i \<and> (hi_online (ht_info hs) \<longleftrightarrow> ht_session hs \<noteq> None)) \<and>
    gm_get (uh_pair_codes h') (rg_pairing_code h') = None \<and>
    (\<forall>owner c. gm_get (uh_code_by_owner h') owner = Some c \<longrightarrow>
       (\<exists>e. gm_get (uh_pair_codes h') c = Some e \<and> uc_owner_id e = owner))"
proof -
  have inv: "hosts_ok h'" "codes_ok h'" "tokens_ok h'"
    using inv_run [OF assms(1), of sha ops] assms(2) by (simp_all add: registry_inv_def)
  have "host_owner i h' \<noteq> None" if "host_id_for_token tk h' = Some i" for tk i
    using that inv(1) by (simp add: host_id_for_token_def host_owner_def hosts_ok_def)
  moreover have "tk = tk'" if "host_id_for_token tk h' = Some i" "host_id_for_token tk' h' = Some i" for tk tk' i
  proof -
    have "case gm_get (rg_hosts h') i of None \<Rightarrow> False | Some hs \<Rightarrow> ht_token hs = tk"
      "case gm_get (rg_hosts h') i of None \<Rightarrow> False | Some hs \<Rightarrow> ht_token hs = tk'"
      using that inv(3) unfolding tokens_ok_def host_id_for_token_def by blast+
    then show ?thesis by (simp split: option.splits)
  qed
  moreover have "\<exists>e. gm_get (uh_pair_codes h') c = Some e \<and> uc_owner_id e = owner"
    if "gm_get (uh_code_by_owner h') owner = Some c" for owner c
    using that inv(2) unfolding codes_ok_def by (fastforce split: option.splits)
  ultimately show ?thesis
    using inv(1,2) unfolding hosts_ok_def codes_ok_def max_hosts_def by blast
qed

lemma registry_sound_witness:
  "length (rg_hosts (registry_run sample_sha
     [(1, RPair ''u_1'' ''XYZ789'' ''pc'' ''Desk'' 0 [1] []), (2, RAttach ''pc-1'' 4 0 0 False), (3, RUser (UDelete ''u_1'')),
      (4, RUnpair ''pc'')] sample_registry)) \<le> 256"
proof -
  have "tokens_ok sample_registry" by (simp add: tokens_ok_def sample_registry_fields)
  then have "registry_inv sample_registry" by (simp add: registry_inv_def sample_registry_ok)
  then show ?thesis by (rule registry_sound [OF _ refl, THEN conjunct2, THEN conjunct2, THEN conjunct1])
qed

end
