(* ===== verification/RateLimit.thy ===== *)
theory RateLimit
  imports Prelude
begin

text \<open>
  The two rate limiters in front of the HTTP surface (\<open>cmd/capri-hub/main.go\<close>): the sliding window
  of \<open>/api/pair\<close> and the failure throttle of the authentication. Both keep per-address lists of
  times and drop the stale ones from the front. The clock is read once per call; the theorems
  assume that it does not run backwards, as Go's monotonic reading does not.
\<close>

type_synonym hits = "(string, time list) gomap"

definition hits_of :: "hits \<Rightarrow> string \<Rightarrow> time list" where
  "hits_of m ip = (case gm_get m ip of None \<Rightarrow> [] | Some ts \<Rightarrow> ts)"

definition live_hits :: "time \<Rightarrow> time list \<Rightarrow> time list" where
  "live_hits cutoff ts = dropWhile (\<lambda>t. t < cutoff) ts"

definition prune_hits :: "time \<Rightarrow> hits \<Rightarrow> hits" where
  "prune_hits cutoff m = filter (\<lambda>(k, v). v \<noteq> []) (map (\<lambda>(k, v). (k, live_hits cutoff v)) m)"

section \<open>The pairing limiter\<close>

definition pair_rate_limit :: nat where "pair_rate_limit = 10"
definition pair_rate_window :: duration where "pair_rate_window = minute"

definition pair_allow :: "string \<Rightarrow> time \<Rightarrow> hits \<Rightarrow> hits \<times> bool" where
  "pair_allow ip now l =
     (let cutoff = now - pair_rate_window;
          l = (if length l > 256 then prune_hits cutoff l else l);
          hs = live_hits cutoff (hits_of l ip)
      in if length hs \<ge> pair_rate_limit then ((if hs = [] then gm_del ip l else gm_set ip hs l), False)
         else (gm_set ip (hs @ [now]) l, True))"

text \<open>Requests and ticks of the background cleaner; the admitted requests are recorded.\<close>

datatype pair_op = PairRequest string | PairCleanup

fun pair_step :: "time \<times> pair_op \<Rightarrow> hits \<times> (time \<times> string) list \<Rightarrow> hits \<times> (time \<times> string) list" where
  "pair_step (now, PairRequest ip) (l, adm) =
     (case pair_allow ip now l of (l, ok) \<Rightarrow> (l, if ok then adm @ [(now, ip)] else adm))"
| "pair_step (now, PairCleanup) (l, adm) = (prune_hits (now - pair_rate_window) l, adm)"

definition pair_run :: "(time \<times> pair_op) list \<Rightarrow> hits \<times> (time \<times> string) list" where
  "pair_run ops = fold pair_step ops ([], [])"

section \<open>The authentication limiter\<close>

record auth_limiter =
  al_failed :: hits
  al_block :: "(string, time) gomap"

definition new_auth_limiter :: auth_limiter where
  "new_auth_limiter = \<lparr>al_failed = [], al_block = []\<rparr>"

definition auth_failure_limit :: nat where "auth_failure_limit = 10"
definition auth_failure_window :: duration where "auth_failure_window = minute"
definition auth_block_duration :: duration where "auth_block_duration = minute"

definition auth_allow :: "string \<Rightarrow> time \<Rightarrow> auth_limiter \<Rightarrow> auth_limiter \<times> bool" where
  "auth_allow ip now l =
     (if ip = [] then (l, True)
      else let blocked = (case gm_get (al_block l) ip of None \<Rightarrow> False | Some until \<Rightarrow> now < until);
               l' = (if gm_get (al_block l) ip = None then l
                     else l\<lparr>al_block := gm_del ip (al_block l), al_failed := gm_del ip (al_failed l)\<rparr>)
           in if blocked then (l, False)
              else (l'\<lparr>al_failed := prune_hits (now - auth_failure_window) (al_failed l')\<rparr>, True))"

definition auth_fail :: "string \<Rightarrow> time \<Rightarrow> auth_limiter \<Rightarrow> auth_limiter" where
  "auth_fail ip now l =
     (if ip = [] then l
      else let hs = live_hits (now - auth_failure_window) (hits_of (al_failed l) ip) @ [now];
               l = l\<lparr>al_failed := gm_set ip hs (al_failed l)\<rparr>
           in if length hs \<ge> auth_failure_limit then l\<lparr>al_block := gm_set ip (now + auth_block_duration) (al_block l)\<rparr> else l)"

definition auth_reset :: "string \<Rightarrow> auth_limiter \<Rightarrow> auth_limiter" where
  "auth_reset ip l =
     (if ip = [] then l else l\<lparr>al_failed := gm_del ip (al_failed l), al_block := gm_del ip (al_block l)\<rparr>)"

text \<open>
  \<open>identifyWithLimit\<close> takes the limiter's lock twice: \<open>allow\<close> before the credential is looked at and,
  afterwards, \<open>reset\<close> for a good credential or \<open>fail\<close> for a bad one; a request that carries none
  does neither. Requests run concurrently, so between the two halves of one anything may happen.
\<close>

datatype credential_result = GoodCredential | BadCredential | NoCredential

definition auth_end :: "string \<Rightarrow> credential_result \<Rightarrow> time \<Rightarrow> auth_limiter \<Rightarrow> auth_limiter" where
  "auth_end ip res now l =
     (case res of GoodCredential \<Rightarrow> auth_reset ip l | BadCredential \<Rightarrow> auth_fail ip now l | NoCredential \<Rightarrow> l)"

datatype auth_op = AuthBegin string | AuthEnd string credential_result

text \<open>A run records, for every address, the failures evaluated since its last success, how many of its
  requests are between their two halves now, and the most that ever were.\<close>

record throttle =
  th_limiter :: auth_limiter
  th_fails :: "string \<Rightarrow> time list"
  th_busy :: "string \<Rightarrow> nat"
  th_peak :: "string \<Rightarrow> nat"

definition new_throttle :: throttle where
  "new_throttle = \<lparr>th_limiter = new_auth_limiter, th_fails = \<lambda>_. [], th_busy = \<lambda>_. 0, th_peak = \<lambda>_. 0\<rparr>"

definition log_result :: "string \<Rightarrow> credential_result \<Rightarrow> time \<Rightarrow> (string \<Rightarrow> time list) \<Rightarrow> string \<Rightarrow> time list" where
  "log_result ip res now fs =
     (case res of GoodCredential \<Rightarrow> fs(ip := []) | BadCredential \<Rightarrow> fs(ip := fs ip @ [now]) | NoCredential \<Rightarrow> fs)"

fun auth_step :: "time \<times> auth_op \<Rightarrow> throttle \<Rightarrow> throttle" where
  "auth_step (now, AuthBegin ip) s =
     (case auth_allow ip now (th_limiter s) of
        (l, False) \<Rightarrow> s\<lparr>th_limiter := l\<rparr>
      | (l, True) \<Rightarrow> s\<lparr>th_limiter := l, th_busy := (th_busy s)(ip := th_busy s ip + 1),
                       th_peak := (th_peak s)(ip := max (th_peak s ip) (th_busy s ip + 1))\<rparr>)"
| "auth_step (now, AuthEnd ip res) s =
     (if th_busy s ip = 0 then s
      else s\<lparr>th_limiter := auth_end ip res now (th_limiter s), th_busy := (th_busy s)(ip := th_busy s ip - 1),
             th_fails := log_result ip res now (th_fails s)\<rparr>)"

definition auth_run :: "(time \<times> auth_op) list \<Rightarrow> throttle" where
  "auth_run ops = fold auth_step ops new_throttle"

section \<open>Windows of times\<close>

lemma live_hits_sorted: "sorted ts \<Longrightarrow> live_hits c ts = filter (\<lambda>t. c \<le> t) ts"
proof (induction ts)
  case (Cons t ts)
  then have "c \<le> t \<Longrightarrow> filter (\<lambda>t. c \<le> t) ts = ts" by (intro filter_True) auto
  then show ?case using Cons by (auto simp: live_hits_def)
qed (simp add: live_hits_def)

lemma live_hits_suffix: "\<exists>old. ts = old @ live_hits c ts \<and> (\<forall>t \<in> set old. t < c)"
  by (rule exI [of _ "takeWhile (\<lambda>t. t < c) ts"]) (auto simp: live_hits_def dest: set_takeWhileD)

lemma length_filter_imp: "(\<And>x. P x \<Longrightarrow> Q x) \<Longrightarrow> length (filter P xs) \<le> length (filter Q xs)"
  by (induction xs) auto

lemma hits_of_set [simp]: "hits_of (gm_set ip ts m) k = (if k = ip then ts else hits_of m k)"
  by (simp add: hits_of_def gm_get_set)

lemma hits_of_del [simp]: "hits_of (gm_del ip m) k = (if k = ip then [] else hits_of m k)"
  by (simp add: hits_of_def gm_get_del)

lemma hits_of_Nil [simp]: "hits_of [] k = []"
  by (simp add: hits_of_def)

lemma hits_of_prune:
  assumes "gm_ok m" shows "hits_of (prune_hits c m) k = live_hits c (hits_of m k)"
  using assms
proof (induction m)
  case (Cons kv m)
  obtain k' v where kv: "kv = (k', v)" by (cases kv)
  have ih: "hits_of (prune_hits c m) k = live_hits c (hits_of m k)" using Cons by (simp add: kv gm_ok_Cons)
  have "gm_get m k' = None" using Cons.prems by (simp add: kv gm_ok_Cons)
  then have "hits_of m k' = []" by (simp add: hits_of_def)
  moreover have "prune_hits c ((k', v) # m) = (if live_hits c v = [] then prune_hits c m else (k', live_hits c v) # prune_hits c m)"
    by (simp add: prune_hits_def)
  ultimately show ?case using ih
    by (cases "k = k'") (auto simp: kv hits_of_def live_hits_def eq_commute [of "[]"])
qed (simp add: prune_hits_def live_hits_def)

lemma gm_ok_prune_hits: "gm_ok m \<Longrightarrow> gm_ok (prune_hits c m)"
  unfolding prune_hits_def by (rule gm_ok_filter) (simp add: gm_ok_def comp_def case_prod_beta)

section \<open>The pairing window is exact\<close>

definition times_of :: "string \<Rightarrow> (time \<times> string) list \<Rightarrow> time list" where
  "times_of ip adm = map fst (filter (\<lambda>a. snd a = ip) adm)"

definition pair_inv :: "time \<Rightarrow> hits \<times> (time \<times> string) list \<Rightarrow> bool" where
  "pair_inv now s \<longleftrightarrow> gm_ok (fst s) \<and> sorted (map fst (snd s)) \<and> (\<forall>t \<in> fst ` set (snd s). t \<le> now) \<and>
     (\<forall>ip. \<exists>c \<le> now - pair_rate_window. hits_of (fst s) ip = filter (\<lambda>t. c \<le> t) (times_of ip (snd s)))"

lemma sorted_times: "sorted (map fst adm) \<Longrightarrow> sorted (times_of ip adm)"
  unfolding times_of_def by (rule sorted_filter)

lemma window_window: "c \<le> c' \<Longrightarrow> filter (\<lambda>t. c' \<le> t) (filter (\<lambda>t. c \<le> (t::int)) ts) = filter (\<lambda>t. c' \<le> t) ts"
  by (simp, rule filter_cong) auto

lemma pair_live:
  assumes "pair_inv now0 (l, adm)" and "now0 \<le> now"
  shows "live_hits (now - pair_rate_window) (hits_of l ip) = filter (\<lambda>t. now - pair_rate_window \<le> t) (times_of ip adm)"
proof -
  obtain c where c: "c \<le> now0 - pair_rate_window" "hits_of l ip = filter (\<lambda>t. c \<le> t) (times_of ip adm)"
    using assms(1) unfolding pair_inv_def by auto
  have "sorted (hits_of l ip)" using assms(1) sorted_times [of adm ip] by (simp add: c(2) pair_inv_def sorted_wrt_filter)
  then have "live_hits (now - pair_rate_window) (hits_of l ip) = filter (\<lambda>t. now - pair_rate_window \<le> t) (hits_of l ip)"
    by (rule live_hits_sorted)
  also have "\<dots> = filter (\<lambda>t. now - pair_rate_window \<le> t) (times_of ip adm)"
    unfolding c(2) by (rule window_window) (use c(1) assms(2) in simp)
  finally show ?thesis .
qed

lemma pair_inv_mono:
  assumes "pair_inv t s" and "t \<le> now" shows "pair_inv now s"
proof -
  have "\<exists>c \<le> now - pair_rate_window. hits_of (fst s) ip = filter (\<lambda>u. c \<le> u) (times_of ip (snd s))" for ip
  proof -
    obtain c where "c \<le> t - pair_rate_window" "hits_of (fst s) ip = filter (\<lambda>u. c \<le> u) (times_of ip (snd s))"
      using assms(1) unfolding pair_inv_def by blast
    then show ?thesis using assms(2) by (intro exI [of _ c]) simp
  qed
  moreover have "\<forall>u \<in> fst ` set (snd s). u \<le> now" using assms unfolding pair_inv_def by (meson order_trans)
  ultimately show ?thesis using assms(1) unfolding pair_inv_def by blast
qed

lemma pair_inv_prune:
  assumes "pair_inv now0 (l, adm)" and "now0 \<le> now"
  shows "pair_inv now (prune_hits (now - pair_rate_window) l, adm)"
proof -
  have ok: "gm_ok l" using assms(1) by (simp add: pair_inv_def)
  have "hits_of (prune_hits (now - pair_rate_window) l) ip = filter (\<lambda>t. now - pair_rate_window \<le> t) (times_of ip adm)" for ip
    using pair_live [OF assms] by (simp add: hits_of_prune [OF ok])
  moreover have "\<forall>t \<in> fst ` set adm. t \<le> now" using assms unfolding pair_inv_def by fastforce
  ultimately show ?thesis using assms(1) by (auto simp: pair_inv_def gm_ok_prune_hits)
qed

lemma pair_allow_inv:
  assumes "pair_inv now0 (l, adm)" and "now0 \<le> now" and "pair_allow ip now l = (l', ok)"
  shows "pair_inv now (l', if ok then adm @ [(now, ip)] else adm)"
    and "ok \<longleftrightarrow> length (filter (\<lambda>t. now - pair_rate_window \<le> t) (times_of ip adm)) < pair_rate_limit"
proof -
  let ?c = "now - pair_rate_window" and ?l = "if length l > 256 then prune_hits (now - pair_rate_window) l else l"
  have le: "\<forall>t \<in> fst ` set adm. t \<le> now" using assms(1,2) unfolding pair_inv_def by fastforce
  have inv: "pair_inv now (?l, adm)"
    using pair_inv_prune [OF assms(1,2)] pair_inv_mono [OF assms(1,2)] by simp
  define hs where "hs = live_hits ?c (hits_of ?l ip)"
  have hs: "hs = filter (\<lambda>t. ?c \<le> t) (times_of ip adm)" unfolding hs_def by (rule pair_live [OF inv order.refl])
  have eq: "ok = (length hs < pair_rate_limit)" "l' = gm_set ip (if ok then hs @ [now] else hs) ?l"
    using assms(3) by (auto simp: pair_allow_def Let_def hs_def pair_rate_limit_def split: if_splits)
  show "ok \<longleftrightarrow> length (filter (\<lambda>t. ?c \<le> t) (times_of ip adm)) < pair_rate_limit" using eq(1) hs by simp
  let ?adm = "if ok then adm @ [(now, ip)] else adm"
  have "\<exists>c \<le> ?c. hits_of l' i = filter (\<lambda>t. c \<le> t) (times_of i ?adm)" for i
  proof (cases "i = ip")
    case True
    have "pair_rate_window \<ge> 0" by (simp add: pair_rate_window_def minute_def second_def)
    then show ?thesis using True by (intro exI [of _ ?c]) (simp add: eq(2) hs times_of_def)
  next
    case False
    have "\<exists>c \<le> ?c. hits_of ?l i = filter (\<lambda>t. c \<le> t) (times_of i adm)" using inv unfolding pair_inv_def fst_conv snd_conv by blast
    moreover have "times_of i ?adm = times_of i adm" using False by (simp add: times_of_def)
    ultimately show ?thesis using False by (simp add: eq(2))
  qed
  moreover have "gm_ok l'" using inv by (simp add: eq(2) pair_inv_def)
  moreover have "sorted (map fst ?adm)" using assms(1) le by (simp add: pair_inv_def sorted_append)
  ultimately show "pair_inv now (l', ?adm)" using le by (auto simp: pair_inv_def)
qed

lemma pair_step_inv:
  assumes "pair_inv t s" and "t \<le> fst op" shows "pair_inv (fst op) (pair_step op s)"
proof -
  obtain now x where op: "op = (now, x)" by (cases op)
  obtain l adm where s: "s = (l, adm)" by (cases s)
  show ?thesis
  proof (cases x)
    case (PairRequest ip)
    obtain l' ok where a: "pair_allow ip now l = (l', ok)" by fastforce
    show ?thesis using pair_allow_inv(1) [OF assms(1) [unfolded s] _ a] assms(2) by (simp add: s op PairRequest a)
  next
    case PairCleanup
    then show ?thesis using pair_inv_prune [OF assms(1) [unfolded s]] assms(2) by (simp add: s op)
  qed
qed

lemma pair_run_inv:
  "sorted (map fst ops) \<Longrightarrow> \<forall>op \<in> set ops. fst op \<le> now \<Longrightarrow> pair_inv now (pair_run ops)"
proof (induction ops arbitrary: now rule: rev_induct)
  case Nil
  then show ?case by (auto simp: pair_run_def pair_inv_def times_of_def)
next
  case (snoc op ops)
  have "pair_inv (fst op) (pair_run ops)" by (rule snoc.IH) (use snoc.prems(1) in \<open>simp_all add: sorted_append\<close>)
  then have "pair_inv (fst op) (pair_run (ops @ [op]))" using pair_step_inv [OF _ order.refl] by (simp add: pair_run_def)
  then show ?case by (rule pair_inv_mono) (use snoc.prems(2) in simp)
qed

text \<open>C28: The pairing limiter is an exact sliding window. Whatever requests and cleanups came before, a
  request is admitted exactly when its address had fewer than 10 admitted requests in the last
  minute; neither another address nor the pruning changes that.\<close>

theorem pair_window_exact:
  assumes "pair_run ops = (l, adm)" and "sorted (map fst ops)" and "\<forall>op \<in> set ops. fst op \<le> now"
  shows "snd (pair_allow ip now l) \<longleftrightarrow> length (filter (\<lambda>(t, i). i = ip \<and> now - minute \<le> t) adm) < 10"
proof -
  have inv: "pair_inv now (l, adm)" using pair_run_inv [OF assms(2,3)] assms(1) by simp
  have "length (filter (\<lambda>t. now - minute \<le> t) (times_of ip adm)) = length (filter (\<lambda>(t, i). i = ip \<and> now - minute \<le> t) adm)"
    by (simp add: times_of_def filter_map comp_def case_prod_unfold conj_commute)
  then show ?thesis using pair_allow_inv(2) [OF inv order.refl prod.collapse [symmetric]]
    by (simp add: pair_rate_limit_def pair_rate_window_def)
qed

lemma pair_window_exact_witness:
  "snd (pair_allow ''9.9.9.9'' 7 (fst (pair_run [(5, PairRequest ''9.9.9.9''), (6, PairCleanup)])))"
proof -
  have run: "pair_run [(5, PairRequest ''9.9.9.9''), (6, PairCleanup)] = ([(''9.9.9.9'', [5])], [(5, ''9.9.9.9'')])"
    by (simp add: pair_run_def pair_allow_def prune_hits_def live_hits_def hits_of_def pair_rate_limit_def
        pair_rate_window_def minute_def second_def)
  show ?thesis using pair_window_exact [OF run, of 7 "''9.9.9.9''"] by (simp add: run)
qed

section \<open>The failure throttle\<close>

definition recent :: "time \<Rightarrow> time list \<Rightarrow> nat" where
  "recent cutoff ts = length (filter (\<lambda>t. cutoff < t) ts)"

lemma recent_simps [simp]:
  "recent c [] = 0" "recent c (ts @ us) = recent c ts + recent c us" "recent c [t] = (if c < t then 1 else 0)"
  by (simp_all add: recent_def)

lemma recent_mono: "c \<le> c' \<Longrightarrow> recent c' ts \<le> recent c ts"
  unfolding recent_def by (rule length_filter_imp) simp

lemma recent_le: "recent c ts \<le> length ts"
  by (simp add: recent_def)

lemma recent_none: "\<forall>t \<in> set ts. t \<le> c \<Longrightarrow> recent c ts = 0"
  by (auto simp: recent_def filter_empty_conv not_less)

text \<open>
  What the limiter of one address knows (\<open>failed\<close>, \<open>block\<close>) of the failures since its last success
  (\<open>fs\<close>), with \<open>m\<close> requests in flight and never more than \<open>k\<close>. The failures it has forgotten and those
  recorded after the one that set the block come from requests admitted before that block.
\<close>

definition addr_inv :: "time \<Rightarrow> time list \<Rightarrow> time list \<Rightarrow> time option \<Rightarrow> nat \<Rightarrow> nat \<Rightarrow> bool" where
  "addr_inv now failed fs block m k \<longleftrightarrow> sorted fs \<and> (\<forall>t \<in> set fs. t \<le> now) \<and> m \<le> k \<and> (fs \<noteq> [] \<longrightarrow> 0 < k) \<and>
     (\<exists>old. fs = old @ failed \<and> (block = None \<longrightarrow> recent (now - minute) old \<le> k - 1)) \<and>
     (case block of
        None \<Rightarrow> length failed < auth_failure_limit
      | Some until \<Rightarrow> recent (until - minute) fs + m + 1 \<le> k \<and> recent (now - minute) fs + m \<le> 8 + 2 * k \<and>
          length (filter (\<lambda>t. until - 2 * minute \<le> t) fs) \<ge> auth_failure_limit)"

lemma addr_inv_bound:
  assumes "addr_inv now failed fs block m k" shows "recent (now - minute) fs + m \<le> 8 + 2 * k"
proof (cases block)
  case None
  then obtain old where old: "fs = old @ failed" "recent (now - minute) old \<le> k - 1" using assms by (auto simp: addr_inv_def)
  have "recent (now - minute) failed < 10"
    using assms None recent_le [of "now - minute" failed] by (simp add: addr_inv_def auth_failure_limit_def)
  moreover have "m \<le> k" "fs \<noteq> [] \<longrightarrow> 0 < k" using assms by (simp_all add: addr_inv_def)
  ultimately show ?thesis using old by (cases "fs = []") auto
qed (use assms in \<open>simp add: addr_inv_def\<close>)

lemma addr_inv_mono:
  assumes "addr_inv t failed fs block m k" and "t \<le> now" shows "addr_inv now failed fs block m k"
proof -
  have r: "recent (now - minute) ts \<le> recent (t - minute) ts" for ts using assms(2) by (intro recent_mono) simp
  obtain old where "fs = old @ failed" "block = None \<longrightarrow> recent (t - minute) old \<le> k - 1" using assms(1) by (auto simp: addr_inv_def)
  then have "\<exists>old. fs = old @ failed \<and> (block = None \<longrightarrow> recent (now - minute) old \<le> k - 1)" using r [of old] by force
  moreover have "\<forall>x \<in> set fs. x \<le> now" using assms by (auto simp: addr_inv_def)
  ultimately show ?thesis using assms(1) r [of fs] by (auto simp: addr_inv_def split: option.splits)
qed

lemma live_split:
  obtains stale where "failed = stale @ live_hits (now - auth_failure_window) failed" "recent (now - minute) stale = 0"
proof -
  obtain stale where st: "failed = stale @ live_hits (now - auth_failure_window) failed" "\<forall>t \<in> set stale. t < now - auth_failure_window"
    using live_hits_suffix by blast
  then have "recent (now - minute) stale = 0" by (intro recent_none) (auto simp: auth_failure_window_def)
  then show thesis using st(1) that by blast
qed

lemma addr_inv_live:
  assumes "addr_inv now failed fs block m k"
  shows "addr_inv now (live_hits (now - auth_failure_window) failed) fs block m k"
proof -
  obtain old where old: "fs = old @ failed" "block = None \<longrightarrow> recent (now - minute) old \<le> k - 1" using assms by (auto simp: addr_inv_def)
  obtain stale where st: "failed = stale @ live_hits (now - auth_failure_window) failed" "recent (now - minute) stale = 0"
    by (rule live_split)
  have "fs = (old @ stale) @ live_hits (now - auth_failure_window) failed" using old(1) st(1) by simp
  moreover have "block = None \<longrightarrow> recent (now - minute) (old @ stale) \<le> k - 1" using old(2) st(2) by simp
  moreover have "length (live_hits (now - auth_failure_window) failed) \<le> length failed" by (simp add: live_hits_def length_dropWhile_le)
  ultimately show ?thesis using assms unfolding addr_inv_def by (auto split: option.splits)
qed

text \<open>When a block has run out, what it leaves behind in the window came after the failure that set it.\<close>

lemma addr_inv_unblock:
  assumes "addr_inv now failed fs (Some until) m k" and "until \<le> now" shows "addr_inv now [] fs None m k"
proof -
  have "recent (now - minute) fs \<le> recent (until - minute) fs" using assms(2) by (intro recent_mono) simp
  moreover have "recent (until - minute) fs + m + 1 \<le> k" using assms(1) by (simp add: addr_inv_def)
  ultimately have "recent (now - minute) fs \<le> k - 1" by linarith
  then show ?thesis using assms(1) by (simp add: addr_inv_def auth_failure_limit_def)
qed

lemma addr_inv_begin: "addr_inv now failed fs None m k \<Longrightarrow> addr_inv now failed fs None (m + 1) (max k (m + 1))"
  by (auto simp: addr_inv_def max_def)

lemma addr_inv_end: "addr_inv now failed fs block m k \<Longrightarrow> addr_inv now failed fs block (m - 1) k"
  by (auto simp: addr_inv_def split: option.splits)

lemma addr_inv_fail:
  assumes "addr_inv now failed fs block m k" and "0 < m"
  defines "hs \<equiv> live_hits (now - auth_failure_window) failed @ [now]"
  shows "addr_inv now hs (fs @ [now]) (if length hs \<ge> auth_failure_limit then Some (now + auth_block_duration) else block) (m - 1) k"
proof -
  let ?live = "live_hits (now - auth_failure_window) failed"
  note bound = addr_inv_bound [OF assms(1)]
  have live: "addr_inv now ?live fs block m k" by (rule addr_inv_live [OF assms(1)])
  then obtain old where old: "fs = old @ ?live" "block = None \<longrightarrow> recent (now - minute) old \<le> k - 1" by (auto simp: addr_inv_def)
  have basic: "sorted (fs @ [now])" "\<forall>t \<in> set (fs @ [now]). t \<le> now" "m - 1 \<le> k" "0 < k"
    using live assms(2) by (auto simp: addr_inv_def sorted_append)
  have one: "recent (now - minute) [now] = 1" by (simp add: minute_def second_def)
  show ?thesis
  proof (cases "length hs \<ge> auth_failure_limit")
    case True
    have "sorted ?live" using live old(1) by (auto simp: addr_inv_def sorted_append)
    moreover have "sorted failed" using assms(1) by (auto simp: addr_inv_def sorted_append)
    ultimately have "\<forall>t \<in> set hs. now + auth_block_duration - 2 * minute \<le> t"
      by (auto simp: hs_def live_hits_sorted auth_failure_window_def auth_block_duration_def minute_def second_def)
    then have "filter (\<lambda>t. now + auth_block_duration - 2 * minute \<le> t) hs = hs" by simp
    moreover have "fs @ [now] = old @ hs" using old(1) by (simp add: hs_def)
    ultimately have cnt: "length (filter (\<lambda>t. now + auth_block_duration - 2 * minute \<le> t) (fs @ [now])) \<ge> auth_failure_limit"
      using True by simp
    have "recent (now + auth_block_duration - minute) (fs @ [now]) = 0"
      by (rule recent_none) (use basic(2) in \<open>simp add: auth_block_duration_def\<close>)
    moreover have "recent (now - minute) (fs @ [now]) + (m - 1) \<le> 8 + 2 * k" using bound one assms(2) by (simp del: recent_simps(3))
    moreover have "m \<le> k" using live by (simp add: addr_inv_def)
    ultimately show ?thesis using True basic cnt assms(2) \<open>fs @ [now] = old @ hs\<close> by (auto simp: addr_inv_def)
  next
    case False
    have fs': "fs @ [now] = old @ hs" using old(1) by (simp add: hs_def)
    show ?thesis
    proof (cases block)
      case None
      then show ?thesis using False basic old(2) fs' by (auto simp: addr_inv_def)
    next
      case (Some until)
      have le: "recent (until - minute) [now] \<le> 1" by simp
      have "recent (until - minute) (fs @ [now]) + (m - 1) + 1 \<le> k" "recent (now - minute) (fs @ [now]) + (m - 1) \<le> 8 + 2 * k"
        using live Some assms(2) one le by (simp_all add: addr_inv_def del: recent_simps(3))
      moreover have "length (filter (\<lambda>t. until - 2 * minute \<le> t) fs) \<ge> auth_failure_limit" using live Some by (simp add: addr_inv_def)
      then have "length (filter (\<lambda>t. until - 2 * minute \<le> t) (fs @ [now])) \<ge> auth_failure_limit" by simp
      ultimately show ?thesis using False basic fs' Some unfolding addr_inv_def by (simp del: recent_simps filter_append)
    qed
  qed
qed

lemma addr_inv_clear: "addr_inv now failed fs block m k \<Longrightarrow> addr_inv now [] [] None (m - 1) k"
  by (auto simp: addr_inv_def auth_failure_limit_def)

definition auth_inv :: "time \<Rightarrow> throttle \<Rightarrow> bool" where
  "auth_inv now s \<longleftrightarrow> gm_ok (al_failed (th_limiter s)) \<and>
     (\<forall>ip. ip \<noteq> [] \<longrightarrow> addr_inv now (hits_of (al_failed (th_limiter s)) ip) (th_fails s ip) (gm_get (al_block (th_limiter s)) ip)
        (th_busy s ip) (th_peak s ip))"

lemma auth_inv_mono: "auth_inv t s \<Longrightarrow> t \<le> now \<Longrightarrow> auth_inv now s"
  unfolding auth_inv_def using addr_inv_mono by blast

lemma auth_allow_inv:
  assumes "auth_inv now s" and "auth_allow ip now (th_limiter s) = (l', ok)" and "ip \<noteq> []"
  shows "auth_inv now (s\<lparr>th_limiter := l'\<rparr>)" and "ok \<Longrightarrow> gm_get (al_block l') ip = None"
    and "\<not> ok \<Longrightarrow> length (filter (\<lambda>t. now - 2 * minute \<le> t) (th_fails s ip)) \<ge> auth_failure_limit"
proof -
  define l where "l = th_limiter s"
  have allow: "auth_allow ip now l = (l', ok)" using assms(2) by (simp add: l_def)
  have ok: "gm_ok (al_failed l)"
    and addr: "\<And>i. i \<noteq> [] \<Longrightarrow> addr_inv now (hits_of (al_failed l) i) (th_fails s i) (gm_get (al_block l) i) (th_busy s i) (th_peak s i)"
    using assms(1) by (simp_all add: auth_inv_def l_def)
  define l1 where "l1 = (if gm_get (al_block l) ip = None then l
    else l\<lparr>al_block := gm_del ip (al_block l), al_failed := gm_del ip (al_failed l)\<rparr>)"
  have l1: "gm_ok (al_failed l1)" "gm_get (al_block l1) ip = None" using ok by (simp_all add: l1_def gm_get_del)
  show "length (filter (\<lambda>t. now - 2 * minute \<le> t) (th_fails s ip)) \<ge> auth_failure_limit" if refused: "\<not> ok"
  proof -
    obtain until where u: "gm_get (al_block l) ip = Some until" "now < until"
      using allow assms(3) refused by (auto simp: auth_allow_def Let_def split: if_splits option.splits)
    have "length (filter (\<lambda>t. until - 2 * minute \<le> t) (th_fails s ip)) \<ge> auth_failure_limit"
      using addr [OF assms(3)] u(1) by (simp add: addr_inv_def)
    moreover have "length (filter (\<lambda>t. until - 2 * minute \<le> t) (th_fails s ip)) \<le> length (filter (\<lambda>t. now - 2 * minute \<le> t) (th_fails s ip))"
      by (rule length_filter_imp) (use u(2) in simp)
    ultimately show ?thesis by simp
  qed
  have l': "l' = (if ok then l1\<lparr>al_failed := prune_hits (now - auth_failure_window) (al_failed l1)\<rparr> else l)"
    using allow assms(3) by (auto simp: auth_allow_def Let_def l1_def split: if_splits)
  show "gm_get (al_block l') ip = None" if "ok" using that l1(2) by (simp add: l')
  have "addr_inv now (hits_of (al_failed l1) i) (th_fails s i) (gm_get (al_block l1) i) (th_busy s i) (th_peak s i)"
    if "ok" "i \<noteq> []" for i
  proof (cases "i = ip \<and> gm_get (al_block l) ip \<noteq> None")
    case True
    then obtain until where u: "gm_get (al_block l) ip = Some until" by blast
    then have "until \<le> now" using allow assms(3) that(1) by (auto simp: auth_allow_def Let_def split: if_splits)
    then show ?thesis using addr_inv_unblock [of now _ "th_fails s ip" until] addr [OF assms(3)] u True by (simp add: l1_def gm_get_del)
  next
    case False
    then show ?thesis using addr [OF that(2)] by (auto simp: l1_def gm_get_del)
  qed
  then show "auth_inv now (s\<lparr>th_limiter := l'\<rparr>)"
    using assms(1) l1(1) addr_inv_live by (simp add: l' auth_inv_def hits_of_prune gm_ok_prune_hits l_def)
qed

lemma auth_inv_point:
  assumes "auth_inv now s" and "gm_ok (al_failed l)"
    and "\<And>i. i \<noteq> [] \<Longrightarrow> i \<noteq> ip \<Longrightarrow> hits_of (al_failed l) i = hits_of (al_failed (th_limiter s)) i \<and>
      gm_get (al_block l) i = gm_get (al_block (th_limiter s)) i"
    and "ip \<noteq> [] \<Longrightarrow> addr_inv now (hits_of (al_failed l) ip) fs (gm_get (al_block l) ip) m k"
    and "s' = s\<lparr>th_limiter := l, th_fails := (th_fails s)(ip := fs), th_busy := (th_busy s)(ip := m), th_peak := (th_peak s)(ip := k)\<rparr>"
  shows "auth_inv now s'"
  using assms by (auto simp: auth_inv_def)

lemma auth_begin_inv:
  assumes "auth_inv now s" shows "auth_inv now (auth_step (now, AuthBegin ip) s)"
proof -
  obtain l ok where a: "auth_allow ip now (th_limiter s) = (l, ok)" by fastforce
  show ?thesis
  proof (cases "ip = []")
    case True
    then have "l = th_limiter s" "ok" using a by (simp_all add: auth_allow_def)
    then show ?thesis using assms a True by (simp add: auth_inv_def)
  next
    case ip: False
    note inv = auth_allow_inv [OF assms a ip]
    show ?thesis
    proof (cases ok)
      case False
      then show ?thesis using inv(1) a by simp
    next
      case True
      let ?m = "th_busy s ip + 1"
      have cur: "addr_inv now (hits_of (al_failed l) ip) (th_fails s ip) None (th_busy s ip) (th_peak s ip)"
        using inv(1) inv(2) [OF True] ip by (simp add: auth_inv_def) metis
      have "addr_inv now (hits_of (al_failed l) ip) (th_fails s ip) (gm_get (al_block l) ip) ?m (max (th_peak s ip) ?m)"
        using addr_inv_begin [OF cur] inv(2) [OF True] by simp
      then have "auth_inv now (s\<lparr>th_limiter := l, th_fails := (th_fails s)(ip := th_fails s ip),
          th_busy := (th_busy s)(ip := ?m), th_peak := (th_peak s)(ip := max (th_peak s ip) ?m)\<rparr>)"
        using auth_inv_point [OF inv(1), where ip = ip and l = l] inv(1) by (simp add: auth_inv_def)
      then show ?thesis using a True by simp
    qed
  qed
qed

lemma auth_end_inv:
  assumes "auth_inv now s" shows "auth_inv now (auth_step (now, AuthEnd ip res) s)"
proof (cases "th_busy s ip = 0")
  case False
  define l where "l = th_limiter s"
  let ?m = "th_busy s ip - 1"
  have ok: "gm_ok (al_failed l)" using assms by (simp add: auth_inv_def l_def)
  have addr: "ip \<noteq> [] \<Longrightarrow> addr_inv now (hits_of (al_failed l) ip) (th_fails s ip) (gm_get (al_block l) ip) (th_busy s ip) (th_peak s ip)"
    using assms by (simp add: auth_inv_def l_def)
  let ?fs = "log_result ip res now (th_fails s) ip" and ?l = "auth_end ip res now l"
  have frame: "gm_ok (al_failed ?l)" "\<And>i. i \<noteq> ip \<Longrightarrow> hits_of (al_failed ?l) i = hits_of (al_failed l) i \<and> gm_get (al_block ?l) i = gm_get (al_block l) i"
    using ok by (auto simp: auth_end_def auth_reset_def auth_fail_def Let_def gm_get_set gm_get_del split: credential_result.split)
  have "addr_inv now (hits_of (al_failed ?l) ip) ?fs (gm_get (al_block ?l) ip) ?m (th_peak s ip)" if ip: "ip \<noteq> []"
  proof (cases res)
    case GoodCredential
    then show ?thesis using addr_inv_clear [OF addr [OF ip]] ip by (simp add: auth_end_def auth_reset_def log_result_def gm_get_del)
  next
    case BadCredential
    let ?hs = "live_hits (now - auth_failure_window) (hits_of (al_failed l) ip) @ [now]"
    have "hits_of (al_failed ?l) ip = ?hs" "?fs = th_fails s ip @ [now]"
      "gm_get (al_block ?l) ip = (if length ?hs \<ge> auth_failure_limit then Some (now + auth_block_duration) else gm_get (al_block l) ip)"
      using BadCredential ip by (simp_all add: auth_end_def auth_fail_def log_result_def Let_def gm_get_set)
    then show ?thesis using addr_inv_fail [OF addr [OF ip]] False by (simp only: not_gr_zero not_False_eq_True simp_thms)
  next
    case NoCredential
    then show ?thesis using addr_inv_end [OF addr [OF ip]] by (simp add: auth_end_def log_result_def)
  qed
  moreover have "log_result ip res now (th_fails s) = (th_fails s)(ip := ?fs)"
    by (auto simp: log_result_def split: credential_result.split)
  then have "auth_step (now, AuthEnd ip res) s = s\<lparr>th_limiter := ?l, th_fails := (th_fails s)(ip := ?fs),
      th_busy := (th_busy s)(ip := ?m), th_peak := (th_peak s)(ip := th_peak s ip)\<rparr>"
    using False by (simp add: l_def)
  ultimately show ?thesis
    by (intro auth_inv_point [OF assms frame(1), where ip = ip and fs = ?fs and m = ?m and k = "th_peak s ip"])
      (use frame(2) in \<open>simp_all add: l_def\<close>)
qed (use assms in simp)

lemma auth_run_inv:
  "sorted (map fst ops) \<Longrightarrow> \<forall>op \<in> set ops. fst op \<le> now \<Longrightarrow> auth_inv now (auth_run ops)"
proof (induction ops arbitrary: now rule: rev_induct)
  case Nil
  then show ?case
    by (auto simp: auth_run_def new_throttle_def auth_inv_def addr_inv_def new_auth_limiter_def auth_failure_limit_def)
next
  case (snoc op ops)
  have "auth_inv (fst op) (auth_run ops)" by (rule snoc.IH) (use snoc.prems(1) in \<open>simp_all add: sorted_append\<close>)
  moreover obtain t x where op: "op = (t, x)" by (cases op)
  ultimately have "auth_inv (fst op) (auth_run (ops @ [op]))"
    using auth_begin_inv auth_end_inv by (cases x) (simp_all add: auth_run_def)
  then show ?case by (rule auth_inv_mono) (use snoc.prems(2) in simp)
qed

text \<open>C29: Online guessing is throttled, and only guessing. Whatever attempts came before from whatever
  addresses, their two halves interleaved in any way: of an address that never had more than \<open>k\<close>
  attempts being evaluated at once, at most \<open>8 + 2k\<close> wrong credentials (10 when its attempts do not
  overlap) are evaluated in any minute since its last success, which clears the count; and an address
  is refused only after 10 failures within two minutes.\<close>

theorem guessing_throttled:
  assumes "auth_run ops = s" and "sorted (map fst ops)" and "\<forall>op \<in> set ops. fst op \<le> now" and "ip \<noteq> []"
  shows "length (filter (\<lambda>t. now - minute < t) (th_fails s ip)) \<le> 8 + 2 * th_peak s ip \<and>
    (\<not> snd (auth_allow ip now (th_limiter s)) \<longrightarrow> length (filter (\<lambda>t. now - 2 * minute \<le> t) (th_fails s ip)) \<ge> 10)"
proof
  have inv: "auth_inv now s" using auth_run_inv [OF assms(2,3)] assms(1) by simp
  then show "length (filter (\<lambda>t. now - minute < t) (th_fails s ip)) \<le> 8 + 2 * th_peak s ip"
    using addr_inv_bound assms(4) unfolding auth_inv_def recent_def by fastforce
  obtain l ok where a: "auth_allow ip now (th_limiter s) = (l, ok)" by fastforce
  show "\<not> snd (auth_allow ip now (th_limiter s)) \<longrightarrow> length (filter (\<lambda>t. now - 2 * minute \<le> t) (th_fails s ip)) \<ge> 10"
    using auth_allow_inv(3) [OF inv a assms(4)] a by (simp add: auth_failure_limit_def)
qed

definition guess :: "time \<Rightarrow> (time \<times> auth_op) list" where
  "guess t = [(t, AuthBegin ''9.9.9.9''), (t, AuthEnd ''9.9.9.9'' BadCredential)]"

lemma guessing_throttled_witness:
  "length (filter (\<lambda>t. 20 - minute < t) (th_fails (auth_run (concat (map guess [1..14]))) ''9.9.9.9'')) \<le> 10"
proof -
  let ?ops = "concat (map guess [1..14])"
  have peak: "th_peak (auth_run ?ops) ''9.9.9.9'' = 1" by code_simp
  have "sorted (map fst ?ops)" "\<forall>op \<in> set ?ops. fst op \<le> 20" by (simp_all add: guess_def upto.simps)
  from guessing_throttled [OF refl this, of "''9.9.9.9''"] peak show ?thesis by simp
qed

end
