(* ===== verification/Auth.thy ===== *)
theory Auth
  imports Registry_Inv RateLimit Guests
begin

text \<open>
  Who is asking (\<open>cmd/capri-hub/main.go\<close>): the address of a request, bearer tokens, the single-use
  tickets of \<open>/ws/fe\<close>, the identity behind a request and the gates in front of the handlers. A
  request is its remote address, the first value of each header and query parameter, and its body.
  \<open>net.ParseIP\<close> is the parameter \<open>ip\<close> (the canonical text and whether it is a loopback address),
  SHA-256 the parameter \<open>sha\<close>. The optional parts that only tests leave nil are present.
\<close>

record request =
  rq_method :: string
  rq_path :: string
  rq_remote :: string
  rq_headers :: "(string, string) gomap"
  rq_query :: "(string, string) gomap"
  rq_body :: string

definition first_of :: "(string, string) gomap \<Rightarrow> string \<Rightarrow> string" where
  "first_of m k = (case gm_get m k of None \<Rightarrow> [] | Some v \<Rightarrow> v)"

abbreviation header_of :: "request \<Rightarrow> string \<Rightarrow> string" where "header_of r \<equiv> first_of (rq_headers r)"
abbreviation query_of :: "request \<Rightarrow> string \<Rightarrow> string" where "query_of r \<equiv> first_of (rq_query r)"

section \<open>Addresses\<close>

text \<open>\<open>net.SplitHostPort\<close>: the host, or no value where it reports an error.\<close>

definition split_host_port :: "string \<Rightarrow> string option" where
  "split_host_port s =
     (let port = takeWhile (\<lambda>c. c \<noteq> CHR '':'') (rev s)
      in if length port = length s then None
         else let host = take (length s - length port - 1) s
              in if hd s = CHR ''['' then
                   let inner = takeWhile (\<lambda>c. c \<noteq> CHR '']'') s
                   in if length inner + 1 \<noteq> length host then None
                      else if CHR ''['' \<in> set (tl s) \<or> CHR '']'' \<in> set (drop (length inner + 1) s) then None
                      else Some (tl inner)
                 else if CHR '':'' \<in> set host then None
                 else if CHR ''['' \<in> set s \<or> CHR '']'' \<in> set s then None
                 else Some host)"

definition client_ip :: "request \<Rightarrow> string" where
  "client_ip r = (case split_host_port (rq_remote r) of None \<Rightarrow> rq_remote r | Some host \<Rightarrow> host)"

type_synonym ip_parser = "string \<Rightarrow> (string \<times> bool) option"

definition is_loopback_host :: "ip_parser \<Rightarrow> string \<Rightarrow> bool" where
  "is_loopback_host ip host \<longleftrightarrow> (case ip host of None \<Rightarrow> False | Some (_, loopback) \<Rightarrow> loopback)"

definition first_hop :: "string \<Rightarrow> string" where
  "first_hop fwd = trim_space (takeWhile (\<lambda>c. c \<noteq> CHR '','') fwd)"

definition request_ip :: "ip_parser \<Rightarrow> request \<Rightarrow> string" where
  "request_ip ip r =
     (let peer = client_ip r
      in if is_loopback_host ip peer then
           let real = trim_space (header_of r ''CF-Connecting-IP''); fwd = trim_space (header_of r ''X-Forwarded-For'')
           in if real \<noteq> [] then real
              else if fwd \<noteq> [] then first_hop fwd
              else let real = trim_space (header_of r ''X-Real-IP'') in if real \<noteq> [] then real else peer
         else peer)"

fun first_parsed :: "ip_parser \<Rightarrow> string list \<Rightarrow> string option" where
  "first_parsed ip [] = None"
| "first_parsed ip (c # cs) = (case ip (trim_space c) of Some (s, _) \<Rightarrow> Some s | None \<Rightarrow> first_parsed ip cs)"

definition rate_limit_ip :: "ip_parser \<Rightarrow> request \<Rightarrow> string" where
  "rate_limit_ip ip r =
     (let peer = client_ip r
      in if \<not> is_loopback_host ip peer then peer
         else case first_parsed ip [header_of r ''CF-Connecting-IP'', header_of r ''X-Real-IP''] of
                Some s \<Rightarrow> s
              | None \<Rightarrow>
                  let fwd = trim_space (header_of r ''X-Forwarded-For'')
                  in if fwd \<noteq> [] then (case ip (first_hop fwd) of Some (s, _) \<Rightarrow> s | None \<Rightarrow> peer) else peer)"

section \<open>Tokens\<close>

definition ascii_lower :: "string \<Rightarrow> string" where
  "ascii_lower s = map (\<lambda>c. if 65 \<le> byte_of c \<and> byte_of c \<le> 90 then char_of (byte_of c + 32) else c) s"

text \<open>\<open>strings.EqualFold\<close> with a text none of whose letters has a case variant outside ASCII.\<close>

definition bearer_token :: "string \<Rightarrow> string" where
  "bearer_token auth =
     (let auth = trim_space auth
      in if length auth \<ge> 7 \<and> ascii_lower (take 7 auth) = ''bearer '' then trim_space (drop 7 auth) else [])"

definition token_diff :: "string \<Rightarrow> string \<Rightarrow> u8" where
  "token_diff a b = foldl (\<lambda>d (x, y). d OR (of_int (byte_of x) XOR of_int (byte_of y))) 0 (zip a b)"

definition token_equal :: "string \<Rightarrow> string \<Rightarrow> bool" where
  "token_equal a b = (if a = [] \<or> b = [] \<or> length a \<noteq> length b then False else token_diff a b = 0)"

section \<open>Tickets\<close>

record fe_ticket =
  ft_expires :: time
  ft_role :: string
  ft_user_id :: string
  ft_guest_id :: string

type_synonym ticket_store = "(string, fe_ticket) gomap"

definition fe_ticket_ttl :: duration where "fe_ticket_ttl = 2 * minute"

definition issue_ticket :: "fe_ticket \<Rightarrow> bytes \<Rightarrow> time \<Rightarrow> ticket_store \<Rightarrow> ticket_store \<times> string \<times> time" where
  "issue_ticket rec b now s =
     (let ticket = hex_encode b; expires = now + fe_ticket_ttl
      in (gm_set ticket (rec\<lparr>ft_expires := expires\<rparr>) s, ticket, expires))"

definition issue_legacy :: "string \<Rightarrow> bytes \<Rightarrow> time \<Rightarrow> ticket_store \<Rightarrow> ticket_store \<times> string \<times> time" where
  "issue_legacy guest b now s =
     issue_ticket \<lparr>ft_expires = 0, ft_role = (if guest \<noteq> [] then ''guest'' else ''admin''), ft_user_id = [], ft_guest_id = guest\<rparr> b now s"

definition consume_identity :: "string \<Rightarrow> time \<Rightarrow> ticket_store \<Rightarrow> ticket_store \<times> fe_ticket option" where
  "consume_identity ticket now s =
     (if ticket = [] then (s, None)
      else case gm_get s ticket of
             None \<Rightarrow> (s, None)
           | Some rec \<Rightarrow> (gm_del ticket s, if \<not> ft_expires rec > now then None else Some rec))"

definition consume_legacy :: "string \<Rightarrow> time \<Rightarrow> ticket_store \<Rightarrow> ticket_store \<times> string option" where
  "consume_legacy ticket now s = (case consume_identity ticket now s of (s, res) \<Rightarrow> (s, map_option ft_guest_id res))"

definition clean_tickets :: "time \<Rightarrow> ticket_store \<Rightarrow> ticket_store" where
  "clean_tickets now s = filter (\<lambda>(k, rec). ft_expires rec > now) s"

section \<open>Identities\<close>

record identity =
  id_role :: string
  id_user_id :: string
  id_token_id :: string
  id_label :: string
  id_expires_at :: int
  id_sessions :: "guest_session list"

definition admin_identity :: identity where
  "admin_identity = \<lparr>id_role = ''admin'', id_user_id = ''root'', id_token_id = [], id_label = [], id_expires_at = 0, id_sessions = []\<rparr>"

definition user_identity :: "user \<Rightarrow> identity" where
  "user_identity u = \<lparr>id_role = ''user'', id_user_id = us_id u, id_token_id = [], id_label = us_label u,
     id_expires_at = 0, id_sessions = []\<rparr>"

definition guest_identity :: "guest_token \<Rightarrow> identity" where
  "guest_identity g = \<lparr>id_role = ''guest'', id_user_id = [], id_token_id = gt_id g, id_label = gt_label g,
     id_expires_at = gt_expires_at g, id_sessions = gt_sessions g\<rparr>"

definition is_admin :: "identity \<Rightarrow> bool" where "is_admin i \<longleftrightarrow> id_role i = [] \<or> id_role i = ''admin''"
definition is_user :: "identity \<Rightarrow> bool" where "is_user i \<longleftrightarrow> id_role i = ''user''"
definition is_guest :: "identity \<Rightarrow> bool" where "is_guest i \<longleftrightarrow> id_role i = ''guest''"

definition prefs_owner :: "identity \<Rightarrow> string" where
  "prefs_owner i = (if is_user i then id_user_id i else ''root'')"

definition host_scope :: "identity \<Rightarrow> string" where
  "host_scope i = (if is_user i then id_user_id i else ''root'')"

definition allows_host :: "identity \<Rightarrow> string \<Rightarrow> 'a registry_scheme \<Rightarrow> bool" where
  "allows_host i host h =
     (if is_guest i then list_ex (\<lambda>s. gs_host_id s = host) (id_sessions i)
      else case host_owner host h of None \<Rightarrow> False | Some owner \<Rightarrow> owner = host_scope i)"

definition default_host :: "identity \<Rightarrow> 'a registry_scheme \<Rightarrow> string" where
  "default_host i h =
     (if is_guest i then (case List.find (\<lambda>s. gs_host_id s \<noteq> []) (id_sessions i) of Some s \<Rightarrow> gs_host_id s | None \<Rightarrow> [])
      else default_host_id_for (host_scope i) h)"

definition session_for :: "identity \<Rightarrow> string \<Rightarrow> string \<Rightarrow> string \<times> string" where
  "session_for i host sid = session_for_loop (id_sessions i) host sid None"

definition as_guest_token :: "identity \<Rightarrow> guest_token" where
  "as_guest_token i = \<lparr>gt_id = id_token_id i, gt_token = [], gt_label = id_label i, gt_created_at = 0,
     gt_expires_at = id_expires_at i, gt_revoked = False, gt_sessions = id_sessions i, gt_last_used_at = 0\<rparr>"

text \<open>\<open>issueIdentity\<close>: the ticket of an identity.\<close>

definition issue_identity :: "identity \<Rightarrow> bytes \<Rightarrow> time \<Rightarrow> ticket_store \<Rightarrow> ticket_store \<times> string \<times> time" where
  "issue_identity i b now s =
     issue_ticket \<lparr>ft_expires = 0, ft_role = id_role i, ft_user_id = id_user_id i, ft_guest_id = id_token_id i\<rparr> b now s"

section \<open>Authentication\<close>

record front =
  fr_hub :: registry
  fr_guests :: guest_hub
  fr_tickets :: ticket_store
  fr_limiter :: auth_limiter

definition credential_present :: "request \<Rightarrow> bool" where
  "credential_present r \<longleftrightarrow> bearer_token (header_of r ''Authorization'') \<noteq> [] \<or>
     trim_space (header_of r ''X-Access-Token'') \<noteq> [] \<or> trim_space (query_of r ''ticket'') \<noteq> []"

definition presented_tokens :: "request \<Rightarrow> string list" where
  "presented_tokens r = [bearer_token (header_of r ''Authorization''), trim_space (header_of r ''X-Access-Token'')]"

fun identify_tokens :: "(string \<Rightarrow> bytes) \<Rightarrow> string list \<Rightarrow> time \<Rightarrow> front \<Rightarrow> front \<times> identity option" where
  "identify_tokens sha [] now f = (f, None)"
| "identify_tokens sha (t # ts) now f =
     (case user_by_token sha t now (fr_hub f) of
        (h, Some u) \<Rightarrow> (f\<lparr>fr_hub := h\<rparr>, Some (user_identity u))
      | (h, None) \<Rightarrow>
          (case guest_by_token t now (fr_guests f) of
             (g, Some gt) \<Rightarrow> (f\<lparr>fr_hub := h, fr_guests := g\<rparr>, Some (guest_identity gt))
           | (g, None) \<Rightarrow> identify_tokens sha ts now (f\<lparr>fr_hub := h, fr_guests := g\<rparr>)))"

definition ticket_identity :: "fe_ticket \<Rightarrow> time \<Rightarrow> front \<Rightarrow> identity option" where
  "ticket_identity rec now f =
     (if ft_role rec = ''admin'' then Some admin_identity
      else if ft_role rec = ''user'' then map_option user_identity (user_by_id (ft_user_id rec) (fr_hub f))
      else if ft_role rec = ''guest'' then
        (case guest_by_id (ft_guest_id rec) (fr_guests f) of
           None \<Rightarrow> None
         | Some g \<Rightarrow> if \<not> guest_active g now then None else Some (guest_identity g))
      else None)"

definition identify_ticket :: "request \<Rightarrow> time \<Rightarrow> front \<Rightarrow> front \<times> identity option" where
  "identify_ticket r now f =
     (let t = trim_space (query_of r ''ticket'')
      in if t = [] then (f, None)
         else case consume_identity t now (fr_tickets f) of
                (s, None) \<Rightarrow> (f\<lparr>fr_tickets := s\<rparr>, None)
              | (s, Some rec) \<Rightarrow> let f = f\<lparr>fr_tickets := s\<rparr> in (f, ticket_identity rec now f))"

text \<open>The door that needs no lookup: the deployment token, or a hub that has none.\<close>

definition admin_door :: "string \<Rightarrow> request \<Rightarrow> bool" where
  "admin_door token r =
     (if token \<noteq> [] then list_ex (\<lambda>t. token_equal t token) (presented_tokens r)
      else trim_space (header_of r ''Authorization'') = [] \<and> trim_space (header_of r ''X-Access-Token'') = [] \<and>
        query_of r ''ticket'' = [])"

definition identify :: "(string \<Rightarrow> bytes) \<Rightarrow> string \<Rightarrow> request \<Rightarrow> time \<Rightarrow> front \<Rightarrow> front \<times> identity option" where
  "identify sha token r now f =
     (if admin_door token r then (f, Some admin_identity)
      else case identify_tokens sha (presented_tokens r) now f of
             (f, Some i) \<Rightarrow> (f, Some i)
           | (f, None) \<Rightarrow> identify_ticket r now f)"

definition identify_with_limit :: "ip_parser \<Rightarrow> (string \<Rightarrow> bytes) \<Rightarrow> string \<Rightarrow> request \<Rightarrow> time \<Rightarrow> front \<Rightarrow> front \<times> identity option" where
  "identify_with_limit ip sha token r now f =
     (let addr = rate_limit_ip ip r
      in case auth_allow addr now (fr_limiter f) of
           (l, False) \<Rightarrow> (f\<lparr>fr_limiter := l\<rparr>, None)
         | (l, True) \<Rightarrow>
             (case identify sha token r now (f\<lparr>fr_limiter := l\<rparr>) of
                (f, Some i) \<Rightarrow> (f\<lparr>fr_limiter := auth_reset addr (fr_limiter f)\<rparr>, Some i)
              | (f, None) \<Rightarrow>
                  (if credential_present r then f\<lparr>fr_limiter := auth_fail addr now (fr_limiter f)\<rparr> else f, None)))"

text \<open>The gates: 401 without an identity, 403 for one the route does not serve.\<close>

datatype gate = Unauthorized | Forbidden | Pass identity

definition gated :: "(identity \<Rightarrow> bool) \<Rightarrow> ip_parser \<Rightarrow> (string \<Rightarrow> bytes) \<Rightarrow> string \<Rightarrow> request \<Rightarrow> time \<Rightarrow> front \<Rightarrow> front \<times> gate" where
  "gated P ip sha token r now f =
     (case identify_with_limit ip sha token r now f of
        (f, None) \<Rightarrow> (f, Unauthorized)
      | (f, Some i) \<Rightarrow> (f, if P i then Pass i else Forbidden))"

definition require_any :: "ip_parser \<Rightarrow> (string \<Rightarrow> bytes) \<Rightarrow> string \<Rightarrow> request \<Rightarrow> time \<Rightarrow> front \<Rightarrow> front \<times> gate" where
  "require_any = gated (\<lambda>i. True)"
definition require_identified :: "ip_parser \<Rightarrow> (string \<Rightarrow> bytes) \<Rightarrow> string \<Rightarrow> request \<Rightarrow> time \<Rightarrow> front \<Rightarrow> front \<times> gate" where
  "require_identified = gated (\<lambda>i. True)"
definition require_admin :: "ip_parser \<Rightarrow> (string \<Rightarrow> bytes) \<Rightarrow> string \<Rightarrow> request \<Rightarrow> time \<Rightarrow> front \<Rightarrow> front \<times> gate" where
  "require_admin = gated is_admin"
definition require_member :: "ip_parser \<Rightarrow> (string \<Rightarrow> bytes) \<Rightarrow> string \<Rightarrow> request \<Rightarrow> time \<Rightarrow> front \<Rightarrow> front \<times> gate" where
  "require_member = gated (\<lambda>i. \<not> is_guest i)"

definition may_manage_host :: "identity option \<Rightarrow> string \<Rightarrow> 'a registry_scheme \<Rightarrow> bool" where
  "may_manage_host who host h =
     (case who of
        None \<Rightarrow> True
      | Some i \<Rightarrow>
          if is_guest i then False
          else case host_owner host h of None \<Rightarrow> True | Some owner \<Rightarrow> owner = host_scope i)"

definition auth_host :: "request \<Rightarrow> 'a registry_scheme \<Rightarrow> string option" where
  "auth_host r h = host_id_for_token (bearer_token (header_of r ''Authorization'')) h"

text \<open>\<open>withCORS\<close>: the origin to reflect, where there is one.\<close>

definition cors_origin :: "string list \<Rightarrow> string \<Rightarrow> string option" where
  "cors_origin origins origin =
     (if origins = [] then Some ''*'' else if origin \<noteq> [] \<and> origin \<in> set origins then Some origin else None)"

fun split_commas :: "string \<Rightarrow> string list" where
  "split_commas [] = [[]]"
| "split_commas (c # r) =
     (if c = CHR '','' then [] # split_commas r
      else case split_commas r of [] \<Rightarrow> [[c]] | p # ps \<Rightarrow> (c # p) # ps)"

definition parse_cors_origins :: "string \<Rightarrow> string list" where
  "parse_cors_origins raw =
     (let raw = trim_space raw
      in if raw = [] \<or> raw = ''*'' then [] else filter (\<lambda>p. p \<noteq> []) (map trim_space (split_commas raw)))"

section \<open>Tickets work once\<close>

datatype ticket_op = TIssue fe_ticket bytes | TConsume string | TClean

fun ticket_step :: "time \<times> ticket_op \<Rightarrow> ticket_store \<Rightarrow> ticket_store" where
  "ticket_step (now, TIssue rec b) s = fst (issue_ticket rec b now s)"
| "ticket_step (now, TConsume t) s = fst (consume_identity t now s)"
| "ticket_step (now, TClean) s = clean_tickets now s"

definition ticket_run :: "(time \<times> ticket_op) list \<Rightarrow> ticket_store \<Rightarrow> ticket_store" where
  "ticket_run ops s = fold ticket_step ops s"

definition redraws :: "string \<Rightarrow> time \<times> ticket_op \<Rightarrow> bool" where
  "redraws t op \<longleftrightarrow> (case snd op of TIssue rec b \<Rightarrow> hex_encode b = t | _ \<Rightarrow> False)"

definition touches :: "string \<Rightarrow> time \<times> ticket_op \<Rightarrow> bool" where
  "touches t op \<longleftrightarrow> redraws t op \<or> snd op = TConsume t"

lemma get_clean: "gm_ok s \<Longrightarrow> gm_get (clean_tickets now s) t =
    (case gm_get s t of None \<Rightarrow> None | Some rec \<Rightarrow> if ft_expires rec > now then Some rec else None)"
  unfolding clean_tickets_def by (induction s) (auto simp: gm_ok_Cons split: option.splits)

lemma ticket_step_ok: "gm_ok s \<Longrightarrow> gm_ok (ticket_step op s)"
  by (induction op s rule: ticket_step.induct)
    (auto simp: issue_ticket_def consume_identity_def clean_tickets_def Let_def split: option.split)

lemma ticket_step_gone:
  "gm_ok s \<Longrightarrow> gm_get s t = None \<Longrightarrow> \<not> redraws t op \<Longrightarrow> gm_get (ticket_step op s) t = None"
  by (induction op s rule: ticket_step.induct)
    (auto simp: issue_ticket_def consume_identity_def get_clean redraws_def Let_def gm_get_set gm_get_del split: option.split)

lemma ticket_step_kept:
  "gm_ok s \<Longrightarrow> gm_get s t = Some rec \<Longrightarrow> \<not> touches t op \<Longrightarrow> fst op < ft_expires rec \<Longrightarrow>
   gm_get (ticket_step op s) t = Some rec"
  by (induction op s rule: ticket_step.induct)
    (auto simp: issue_ticket_def consume_identity_def get_clean touches_def redraws_def Let_def gm_get_set gm_get_del split: option.split)

lemma ticket_run_ok: "gm_ok s \<Longrightarrow> gm_ok (ticket_run ops s)"
  unfolding ticket_run_def by (induction ops arbitrary: s) (auto intro: ticket_step_ok)

lemma ticket_run_gone:
  "gm_ok s \<Longrightarrow> gm_get s t = None \<Longrightarrow> \<forall>op \<in> set ops. \<not> redraws t op \<Longrightarrow> gm_get (ticket_run ops s) t = None"
  unfolding ticket_run_def by (induction ops arbitrary: s) (simp_all add: ticket_step_ok ticket_step_gone)

lemma ticket_run_kept:
  "gm_ok s \<Longrightarrow> gm_get s t = Some rec \<Longrightarrow> \<forall>op \<in> set ops. \<not> touches t op \<and> fst op < ft_expires rec \<Longrightarrow>
   gm_get (ticket_run ops s) t = Some rec"
  unfolding ticket_run_def by (induction ops arbitrary: s) (simp_all add: ticket_step_ok ticket_step_kept)

text \<open>C19: A ticket works once, for two minutes, for the identity it was minted for. Whatever other tickets
  are issued, burned and cleaned up meanwhile, a ticket not yet presented yields its record up to the
  end of its two minutes; and once it was presented, it is refused at any later time.\<close>

theorem ticket_single_use:
  assumes "gm_ok s" and "issue_ticket rec b now s = (s1, t, expires)" and "b \<noteq> []"
    and "\<forall>op \<in> set ops. \<not> touches t op \<and> fst op < now + 2 * minute"
    and "\<forall>op \<in> set ops'. \<not> redraws t op"
  shows "snd (consume_identity t now' (ticket_run ops s1)) =
      (if now' < now + 2 * minute then Some (rec\<lparr>ft_expires := now + 2 * minute\<rparr>) else None) \<and>
    snd (consume_identity t now'' (ticket_run ops' (fst (consume_identity t now' (ticket_run ops s1))))) = None"
proof -
  let ?rec = "rec\<lparr>ft_expires := now + 2 * minute\<rparr>" and ?s = "ticket_run ops s1"
  have t: "t = hex_encode b" "s1 = gm_set t ?rec s" using assms(2) by (auto simp: issue_ticket_def Let_def fe_ticket_ttl_def)
  have ne: "t \<noteq> []" using assms(3) by (cases b) (simp_all add: t(1) hex_encode_def)
  have ok1: "gm_ok s1" using assms(1) by (simp add: t(2))
  have kept: "gm_get ?s t = Some ?rec"
    by (rule ticket_run_kept [OF ok1]) (use assms(4) in \<open>simp_all add: t(2) gm_get_set\<close>)
  let ?s' = "fst (consume_identity t now' ?s)"
  have "gm_ok ?s'" "gm_get ?s' t = None"
    using ticket_run_ok [OF ok1, of ops] kept ne by (simp_all add: consume_identity_def gm_get_del)
  then have "gm_get (ticket_run ops' ?s') t = None" by (rule ticket_run_gone [OF _ _ assms(5)])
  then show ?thesis using kept ne by (simp add: consume_identity_def)
qed

lemma ticket_single_use_witness:
  "let s1 = fst (issue_ticket \<lparr>ft_expires = 0, ft_role = ''user'', ft_user_id = ''u_1'', ft_guest_id = []\<rparr> [1, 2] 5 []);
       s2 = ticket_run [(6, TClean), (7, TConsume ''zz'')] s1
   in map_option ft_user_id (snd (consume_identity ''0102'' 8 s2)) = Some ''u_1'' \<and>
      snd (consume_identity ''0102'' 10 (ticket_run [(9, TClean)] (fst (consume_identity ''0102'' 8 s2)))) = None"
proof -
  let ?rec = "\<lparr>ft_expires = 0, ft_role = ''user'', ft_user_id = ''u_1'', ft_guest_id = []\<rparr>"
  obtain s1 t e where i: "issue_ticket ?rec [1, 2] 5 [] = (s1, t, e)" by (cases "issue_ticket ?rec [1, 2] 5 []") auto
  have t: "t = ''0102''"
  proof -
    have "fst (snd (issue_ticket ?rec [1, 2] 5 [])) = ''0102''" by code_simp
    then show ?thesis using i by simp
  qed
  from ticket_single_use [OF gm_ok_Nil i, of "[(6, TClean), (7, TConsume ''zz'')]" "[(9, TClean)]" 8 10]
  show ?thesis by (simp add: i t touches_def redraws_def minute_def second_def)
qed

section \<open>An identity is current\<close>

lemma or_xor_zero: "(a OR (b XOR c) = (0::u8)) \<longleftrightarrow> a = 0 \<and> b = c"
proof -
  have "(b XOR c = 0) \<longleftrightarrow> b = c" by (metis xor.assoc xor.left_neutral xor_self_eq)
  moreover have "a OR d = 0 \<longleftrightarrow> a = 0 \<and> d = 0" for d :: u8 by (auto simp: bit_eq_iff bit_or_iff)
  ultimately show ?thesis by simp
qed

lemma byte_u8_inj: "(of_int (byte_of x) :: u8) = of_int (byte_of y) \<longleftrightarrow> x = y"
proof
  assume eq: "(of_int (byte_of x) :: u8) = of_int (byte_of y)"
  have r: "byte_of c mod 256 = byte_of c" for c
  proof -
    have "int n mod 256 = int n" if "n < 256" for n using that by simp
    from this [OF nat_of_char_less_256 [of c]] show ?thesis unfolding of_nat_of_char .
  qed
  have "uint (of_int (byte_of c) :: u8) = byte_of c mod 256" for c
    by (simp only: unsigned_of_int take_bit_eq_mod) (simp add: of_nat_of_char)
  then have "byte_of x = byte_of y" using eq r by metis
  then show "x = y" by simp
qed simp

lemma token_fold_zero:
  "length a = length b \<Longrightarrow>
   foldl (\<lambda>d (x, y). d OR (of_int (byte_of x) XOR of_int (byte_of y))) d (zip a b) = (0::u8) \<longleftrightarrow> d = 0 \<and> a = b"
  by (induction a b arbitrary: d rule: list_induct2) (auto simp: or_xor_zero byte_u8_inj)

text \<open>The constant-time comparison is equality of non-empty texts.\<close>

lemma token_equal_iff: "token_equal a b \<longleftrightarrow> a = b \<and> a \<noteq> []"
  using token_fold_zero [of a b 0] by (auto simp: token_equal_def token_diff_def)

lemma user_by_token_member:
  "user_by_token sha t now h = (h', Some u) \<Longrightarrow> \<exists>u0 \<in> set (uh_users h). user_identity u = user_identity u0 \<and>
     us_token_hash u0 = hash_user_token sha (trim_space t)"
  by (erule user_by_token_cases) (auto simp: user_identity_def dest: find_by_Some)

lemma user_by_token_none: "user_by_token sha t now h = (h', None) \<Longrightarrow> h' = h"
  by (erule user_by_token_cases) auto

lemma guest_by_token_member:
  "guest_by_token t now h = (h', Some g) \<Longrightarrow> \<exists>g0 \<in> set (gh_guests h). guest_identity g = guest_identity g0 \<and>
     guest_active g0 now \<and> gt_token g0 = trim_space t"
  by (erule guest_by_token_cases) (auto simp: guest_active_def guest_expired_def guest_identity_def)

lemma guest_by_token_none: "guest_by_token t now h = (h', None) \<Longrightarrow> h' = h"
  by (erule guest_by_token_cases) auto

text \<open>
  What entitles a request to the identity it gets: a secret the request presented, or an unexpired
  ticket whose record names the very account or guest record the identity is read from.
\<close>

definition live_ticket :: "request \<Rightarrow> time \<Rightarrow> front \<Rightarrow> (fe_ticket \<Rightarrow> bool) \<Rightarrow> bool" where
  "live_ticket r now f P \<longleftrightarrow>
     (case gm_get (fr_tickets f) (trim_space (query_of r ''ticket'')) of None \<Rightarrow> False | Some rec \<Rightarrow> now < ft_expires rec \<and> P rec)"

definition entitled :: "(string \<Rightarrow> bytes) \<Rightarrow> string \<Rightarrow> request \<Rightarrow> time \<Rightarrow> front \<Rightarrow> identity \<Rightarrow> bool" where
  "entitled sha token r now f i \<longleftrightarrow>
     (i = admin_identity \<and>
        (token \<noteq> [] \<and> token \<in> set (presented_tokens r) \<or>
         token = [] \<and> \<not> credential_present r \<or>
         live_ticket r now f (\<lambda>rec. ft_role rec = ''admin''))) \<or>
     (\<exists>u \<in> set (uh_users (fr_hub f)). i = user_identity u \<and>
        ((\<exists>p \<in> set (presented_tokens r). us_token_hash u = hash_user_token sha (trim_space p)) \<or>
         live_ticket r now f (\<lambda>rec. ft_role rec = ''user'' \<and> ft_user_id rec = us_id u))) \<or>
     (\<exists>g \<in> set (gh_guests (fr_guests f)). i = guest_identity g \<and> guest_active g now \<and>
        ((\<exists>p \<in> set (presented_tokens r). gt_token g = trim_space p) \<or>
         live_ticket r now f (\<lambda>rec. ft_role rec = ''guest'' \<and> ft_guest_id rec = gt_id g)))"

lemma identify_tokens_entitled:
  assumes "identify_tokens sha ts now f = (f', Some i)"
  shows "(\<exists>u \<in> set (uh_users (fr_hub f)). i = user_identity u \<and>
      (\<exists>p \<in> set ts. us_token_hash u = hash_user_token sha (trim_space p))) \<or>
    (\<exists>g \<in> set (gh_guests (fr_guests f)). i = guest_identity g \<and> guest_active g now \<and>
      (\<exists>p \<in> set ts. gt_token g = trim_space p))"
  using assms
proof (induction sha ts now f rule: identify_tokens.induct)
  case (2 sha t ts now f)
  obtain h ru where u: "user_by_token sha t now (fr_hub f) = (h, ru)" by fastforce
  show ?case
  proof (cases ru)
    case (Some us)
    then show ?thesis using "2.prems" u user_by_token_member [of sha t now "fr_hub f" h us] by force
  next
    case None
    obtain g rg where gt: "guest_by_token t now (fr_guests f) = (g, rg)" by fastforce
    show ?thesis
    proof (cases rg)
      case (Some gu)
      then show ?thesis using "2.prems" u None gt guest_by_token_member [of t now "fr_guests f" g gu] by force
    next
      case rg: None
      have same: "h = fr_hub f" "g = fr_guests f"
        using user_by_token_none [OF u [unfolded None]] guest_by_token_none [OF gt [unfolded rg]] by auto
      have "identify_tokens sha ts now (f\<lparr>fr_hub := h, fr_guests := g\<rparr>) = (f', Some i)" using "2.prems" u None gt rg by simp
      from "2.IH" [OF u [symmetric] None gt [symmetric] rg this] show ?thesis by (auto simp: same)
    qed
  qed
qed simp

lemma identify_tokens_none: "identify_tokens sha ts now f = (f', None) \<Longrightarrow> f' = f"
  by (induction sha ts now f rule: identify_tokens.induct)
    (auto split: prod.splits option.splits dest!: user_by_token_none guest_by_token_none)

text \<open>C18: An identity is current. Whoever passes as admin presented the deployment token, or nothing to a
  hub that has none, or a live admin ticket; whoever passes as a user is an account in the table now,
  the one whose digest a presented token has or whose id the record of a live ticket names; and a
  guest is an unrevoked, unexpired record, by its secret or by a live ticket that names its id, with
  the whitelist that record has now.\<close>

theorem identity_is_current:
  assumes "identify sha token r now f = (f', Some i)"
  shows "entitled sha token r now f i"
proof (cases "admin_door token r")
  case True
  then have "i = admin_identity" using assms by (simp add: identify_def)
  moreover have "token \<noteq> [] \<Longrightarrow> token \<in> set (presented_tokens r)"
    using True by (auto simp: admin_door_def list_ex_iff token_equal_iff)
  moreover have "token = [] \<Longrightarrow> \<not> credential_present r"
  proof -
    assume "token = []"
    then have "trim_space (header_of r ''Authorization'') = []" "trim_space (header_of r ''X-Access-Token'') = []" "query_of r ''ticket'' = []"
      using True by (simp_all add: admin_door_def)
    moreover have "trim_space [] = []" by (simp add: trim_space_def trim_left_runes.simps)
    ultimately show ?thesis by (simp add: credential_present_def bearer_token_def Let_def)
  qed
  ultimately show ?thesis unfolding entitled_def by blast
next
  case shut: False
  obtain f1 res where toks: "identify_tokens sha (presented_tokens r) now f = (f1, res)" by fastforce
  show ?thesis
  proof (cases res)
    case (Some j)
    then have "j = i" using assms shut toks by (simp add: identify_def)
    then show ?thesis using identify_tokens_entitled [OF toks [unfolded Some]] unfolding entitled_def by blast
  next
    case None
    have "f1 = f" using identify_tokens_none [OF toks [unfolded None]] .
    then have "identify_ticket r now f = (f', Some i)" using assms shut toks None by (simp add: identify_def)
    then obtain rec where rec: "gm_get (fr_tickets f) (trim_space (query_of r ''ticket'')) = Some rec" "now < ft_expires rec"
      "ticket_identity rec now (f\<lparr>fr_tickets := gm_del (trim_space (query_of r ''ticket'')) (fr_tickets f)\<rparr>) = Some i"
      by (auto simp: identify_ticket_def consume_identity_def Let_def split: if_splits option.splits)
    from rec(3) consider (admin) "ft_role rec = ''admin''" "i = admin_identity"
      | (user) u where "ft_role rec = ''user''" "find_by us_id (ft_user_id rec) (uh_users (fr_hub f)) = Some u" "i = user_identity u"
      | (guest) g where "ft_role rec = ''guest''" "find_by gt_id (ft_guest_id rec) (gh_guests (fr_guests f)) = Some g"
          "guest_active g now" "i = guest_identity g"
      by (auto simp: ticket_identity_def user_by_id_def guest_by_id_def split: if_splits option.splits)
    then show ?thesis
    proof cases
      case admin
      then have "live_ticket r now f (\<lambda>rec. ft_role rec = ''admin'')" using rec(1,2) by (simp add: live_ticket_def)
      then show ?thesis using admin(2) unfolding entitled_def by blast
    next
      case user
      have u: "u \<in> set (uh_users (fr_hub f))" "us_id u = ft_user_id rec" using find_by_Some [OF user(2)] by simp_all
      then have "live_ticket r now f (\<lambda>rec. ft_role rec = ''user'' \<and> ft_user_id rec = us_id u)"
        using rec(1,2) user(1) by (simp add: live_ticket_def)
      then show ?thesis using user(3) u(1) unfolding entitled_def by blast
    next
      case guest
      have g: "g \<in> set (gh_guests (fr_guests f))" "gt_id g = ft_guest_id rec" using find_by_Some [OF guest(2)] by simp_all
      then have "live_ticket r now f (\<lambda>rec. ft_role rec = ''guest'' \<and> ft_guest_id rec = gt_id g)"
        using rec(1,2) guest(1) by (simp add: live_ticket_def)
      then show ?thesis using guest(3,4) g(1) unfolding entitled_def by blast
    qed
  qed
qed

definition sample_front :: front where
  "sample_front = \<lparr>fr_hub = sample_registry,
     fr_guests = \<lparr>gh_guests = [], gh_file = [], gh_persisted_at = 0, gh_disk = None, gh_disk_ok = True, gh_fan = new_fan_hub\<rparr>,
     fr_tickets = [(''aa'', \<lparr>ft_expires = 50, ft_role = ''user'', ft_user_id = ''u_1'', ft_guest_id = []\<rparr>)],
     fr_limiter = new_auth_limiter\<rparr>"

definition ticket_request :: request where
  "ticket_request = \<lparr>rq_method = ''GET'', rq_path = ''/ws/fe'', rq_remote = [], rq_headers = [], rq_query = [(''ticket'', ''aa'')], rq_body = []\<rparr>"

lemma identity_is_current_witness:
  "\<exists>f' i. identify (\<lambda>_. []) ''secret'' ticket_request 7 sample_front = (f', Some i) \<and>
     entitled (\<lambda>_. []) ''secret'' ticket_request 7 sample_front i"
proof -
  have "map_option id_user_id (snd (identify (\<lambda>_. []) ''secret'' ticket_request 7 sample_front)) = Some ''u_1''" by code_simp
  then obtain f' i where i: "identify (\<lambda>_. []) ''secret'' ticket_request 7 sample_front = (f', Some i)"
    by (cases "identify (\<lambda>_. []) ''secret'' ticket_request 7 sample_front") auto
  show ?thesis using i identity_is_current [OF i] by blast
qed

end
