(* ===== verification/GuestRelay.thy ===== *)
theory GuestRelay
  imports Auth Json_Print
begin

text \<open>
  What a guest may send to a host and what comes back (\<open>cmd/capri-hub/main.go\<close>: the relay gate, the
  rewriting of a guest's request body, the redaction of \<open>/api/status\<close>). Bodies are byte strings. A
  value decoded into \<open>any\<close> is a tree; \<open>num\<close> is what \<open>strconv\<close> makes of a number: the text
  \<open>Marshal\<close> prints for the float64 and its conversion to \<open>int64\<close>, no value where it is out of range.
\<close>

section \<open>JSON values\<close>

datatype json_any =
    JNull
  | JBool bool
  | JNum string int
  | JStr string
  | JArr "json_any list"
  | JObj "(string \<times> json_any) list"

type_synonym json_map = "(string, json_any) gomap"
type_synonym number_reader = "string \<Rightarrow> (string \<times> int) option"

text \<open>The value of a valid text; a repeated key keeps its last value. Nesting needs less fuel than the length.\<close>

fun any_of :: "number_reader \<Rightarrow> nat \<Rightarrow> string \<Rightarrow> json_any option" where
  "any_of num 0 raw = None"
| "any_of num (Suc n) raw =
     (if raw = ''null'' then Some JNull
      else if raw = ''true'' then Some (JBool True)
      else if raw = ''false'' then Some (JBool False)
      else case raw of
             [] \<Rightarrow> None
           | c # r \<Rightarrow>
               if c = quote then map_option JStr (unquote_body r)
               else if c = CHR ''['' then
                 Option.bind (json_elems raw) (\<lambda>vs. map_option JArr (dec_all (\<lambda>v. any_of num n v) vs))
               else if c = CHR 0x7B then
                 Option.bind (json_members raw) (\<lambda>ms.
                   map_option (\<lambda>vs. JObj (foldl (\<lambda>m (k, v). gm_set k v m) [] (zip (map fst ms) vs)))
                     (dec_all (\<lambda>v. any_of num n v) (map snd ms)))
               else map_option (\<lambda>(s, i). JNum s i) (num raw))"

definition decode_map :: "number_reader \<Rightarrow> string \<Rightarrow> json_map option" where
  "decode_map num s =
     (case json_value s of
        None \<Rightarrow> None
      | Some raw \<Rightarrow>
          if raw = ''null'' then Some []
          else case any_of num (Suc (length raw)) raw of Some (JObj m) \<Rightarrow> Some m | _ \<Rightarrow> None)"

text \<open>\<open>Marshal\<close> writes the members of a map in the order of their keys.\<close>

primrec enc_any :: "json_any \<Rightarrow> string" where
  "enc_any JNull = ''null''"
| "enc_any (JBool b) = enc_bool b"
| "enc_any (JNum s i) = s"
| "enc_any (JStr s) = enc_str s"
| "enc_any (JArr vs) = enc_list (map enc_any vs)"
| "enc_any (JObj ms) = enc_obj (sort_key fst (map (map_prod id enc_any) ms))"

definition str_at :: "json_map \<Rightarrow> string \<Rightarrow> string" where
  "str_at m k = (case gm_get m k of Some (JStr s) \<Rightarrow> s | _ \<Rightarrow> [])"

definition bool_at :: "json_map \<Rightarrow> string \<Rightarrow> bool" where
  "bool_at m k = (case gm_get m k of Some (JBool b) \<Rightarrow> b | _ \<Rightarrow> False)"

definition list_at :: "json_map \<Rightarrow> string \<Rightarrow> json_any list" where
  "list_at m k = (case gm_get m k of Some (JArr vs) \<Rightarrow> vs | _ \<Rightarrow> [])"

definition int_num :: "int \<Rightarrow> json_any" where "int_num i = JNum (enc_int i) i"

section \<open>The read-only surface\<close>

definition guest_cwd_paths :: "string list" where
  "guest_cwd_paths =
     [''/api/session-updates'', ''/api/session-running-tasks'', ''/api/session-stats'', ''/api/session-plan'',
      ''/api/session-info'', ''/api/git-info'', ''/api/task-output'']"

definition guest_session_paths :: "string list" where
  "guest_session_paths =
     [''/api/session-updates'', ''/api/session-running-tasks'', ''/api/session-stats'', ''/api/session-plan'',
      ''/api/session-info'', ''/api/session/info'', ''/api/session/usage'', ''/api/git-info'',
      ''/api/subagent/list-running'', ''/api/task-list'', ''/api/task-output'']"

definition guest_relay_paths :: "string list" where
  "guest_relay_paths =
     [''/api/session-updates'', ''/api/session-running-tasks'', ''/api/session-stats'', ''/api/session-plan'',
      ''/api/session-info'', ''/api/session/info'', ''/api/session/usage'', ''/api/git-info'',
      ''/api/subagent/get'', ''/api/subagent/list-running'', ''/api/task-list'', ''/api/task-output'', ''/api/status'']"

definition guest_status_allowlist :: "string list" where
  "guest_status_allowlist =
     [''ready'', ''busy'', ''booting'', ''sessionId'', ''cwd'', ''hostId'', ''hostName'', ''homeDir'', ''models'', ''modes'',
      ''configOptions'', ''agentStartedAt'', ''permissionMode'', ''error'', ''bootError'', ''sessionMeta'']"

definition guest_pending_kinds :: "(string, string) gomap" where
  "guest_pending_kinds =
     [(''session/request_permission'', ''permission''), (''x.ai/ask_user_question'', ''question''),
      (''x.ai/exit_plan_mode'', ''plan''), (''x.ai/folder_trust/request'', ''folder_trust''),
      (''x.ai/diff_review'', ''diff_review''), (''x.ai/mcp/elicit'', ''mcp_elicit'')]"

section \<open>Rewriting a request\<close>

definition body_object :: "number_reader \<Rightarrow> string \<Rightarrow> json_map" where
  "body_object num body =
     (if trim_space body = [] then [] else case decode_map num body of None \<Rightarrow> [] | Some obj \<Rightarrow> obj)"

definition put_cwd :: "string \<Rightarrow> string \<Rightarrow> json_map \<Rightarrow> json_map" where
  "put_cwd path cwd obj =
     (if gm_get obj ''cwd'' \<noteq> None \<or> path \<in> set guest_cwd_paths
      then (if cwd \<noteq> [] then gm_set ''cwd'' (JStr cwd) obj else gm_del ''cwd'' obj) else obj)"

text \<open>The working directory a request for a subagent child is pinned to: its parent's.\<close>

definition child_cwd :: "child_table \<Rightarrow> identity \<Rightarrow> string \<Rightarrow> string \<Rightarrow> string option" where
  "child_cwd ct i host requested =
     (if requested \<noteq> [] \<and> guest_child_allowed ct (as_guest_token i) host requested
      then (case session_for i host (guest_parent_of ct host requested) of (parent, cwd) \<Rightarrow> if parent \<noteq> [] then Some cwd else None)
      else None)"

definition enforce_guest_relay :: "number_reader \<Rightarrow> child_table \<Rightarrow> identity \<Rightarrow> string \<Rightarrow> string \<Rightarrow> string \<Rightarrow> 'a registry_scheme \<Rightarrow> string option" where
  "enforce_guest_relay num ct i host path body h =
     (if path \<notin> set guest_relay_paths then None
      else if \<not> allows_host i host h then None
      else if path \<notin> set guest_session_paths then Some body
      else let obj = body_object num body;
               requested = str_at obj ''sessionId''
           in case child_cwd ct i host requested of
                Some cwd \<Rightarrow> Some (enc_any (JObj (put_cwd path cwd obj)))
              | None \<Rightarrow>
                  (case session_for i host requested of
                     (sid, cwd) \<Rightarrow>
                       if sid = [] then None
                       else Some (enc_any (JObj (put_cwd path cwd (gm_set ''sessionId'' (JStr sid) obj))))))"

section \<open>Redacting a status\<close>

definition guest_pending_kind :: "json_map \<Rightarrow> string" where
  "guest_pending_kind req = (case gm_get guest_pending_kinds (str_at req ''method'') of Some k \<Rightarrow> k | None \<Rightarrow> ''other'')"

fun pending_loop :: "string \<Rightarrow> json_any list \<Rightarrow> string \<times> int \<times> int \<Rightarrow> string \<times> int \<times> int" where
  "pending_loop sid [] acc = acc"
| "pending_loop sid (JObj req # reqs) (kind, n, oldest) =
     (if str_at req ''sessionId'' \<noteq> sid then pending_loop sid reqs (kind, n, oldest)
      else pending_loop sid reqs
             (case gm_get req ''receivedAt'' of
                Some (JNum _ t) \<Rightarrow>
                  if oldest = 0 \<or> t < oldest then (guest_pending_kind req, n + 1, t) else (kind, n + 1, oldest)
              | _ \<Rightarrow> (if kind = [] then guest_pending_kind req else kind, n + 1, oldest)))"
| "pending_loop sid (_ # reqs) acc = pending_loop sid reqs acc"

definition derive_guest_pending :: "json_any list \<Rightarrow> string \<Rightarrow> string \<times> int \<times> int" where
  "derive_guest_pending reqs sid =
     (case pending_loop sid reqs ([], 0, 0) of
        (kind, n, oldest) \<Rightarrow> (if kind = [] \<and> n > 0 then ''other'' else kind, n, oldest))"

definition pin_session :: "identity \<Rightarrow> string \<Rightarrow> string \<Rightarrow> json_map \<Rightarrow> json_map" where
  "pin_session i host wanted out =
     (let g = as_guest_token i
      in if wanted \<noteq> [] \<and> guest_allows_session g host wanted then
           (let out = gm_set ''sessionId'' (JStr wanted) out; cwd = snd (session_for i host wanted)
            in if cwd \<noteq> [] then gm_set ''cwd'' (JStr cwd) out else out)
         else if guest_allows_session g host (str_at out ''sessionId'') then out
         else (case session_for i host [] of
                 (sid, cwd) \<Rightarrow>
                   if sid = [] then gm_del ''cwd'' (gm_del ''sessionId'' out)
                   else let out = gm_set ''sessionId'' (JStr sid) out
                        in if cwd \<noteq> [] then gm_set ''cwd'' (JStr cwd) out else gm_del ''cwd'' out))"

definition roster_row :: "string \<Rightarrow> json_any \<Rightarrow> bool" where
  "roster_row sid v = (case v of JObj row \<Rightarrow> str_at row ''sessionId'' = sid | _ \<Rightarrow> False)"

definition session_flags :: "json_map \<Rightarrow> string \<Rightarrow> bool \<times> bool" where
  "session_flags raw sid =
     (case List.find (roster_row sid) (list_at raw ''roster'') of
        Some (JObj row) \<Rightarrow> (bool_at row ''busy'', bool_at row ''awaitingInput'')
      | _ \<Rightarrow> (False, False))"

definition add_session_state :: "json_map \<Rightarrow> json_map \<Rightarrow> json_map" where
  "add_session_state raw out =
     (let sid = str_at out ''sessionId''
      in if sid = [] then out
         else case session_flags raw sid of (busy, awaiting) \<Rightarrow>
              (case derive_guest_pending (list_at raw ''pendingRequests'') sid of (kind, n, received) \<Rightarrow>
                 let blocked = (awaiting \<or> kind \<noteq> []);
                     state = (if blocked then ''awaiting'' else if busy then ''active'' else ''idle'');
                     out = gm_set ''busy'' (JBool busy) out;
                     out = gm_set ''sessionState'' (JStr state) out;
                     out = gm_set ''awaitingInput'' (JBool blocked) out
                 in if kind = [] then out
                    else gm_set ''pendingInput'' (JObj ([(''kind'', JStr kind), (''count'', int_num n)] @
                           (if received > 0 then [(''receivedAt'', int_num received)] else []))) out))"

definition status_unreadable :: string where
  "status_unreadable = enc_obj [(''ok'', ''false''), (''error'', enc_str ''status unreadable'')]"

definition allowed_fields :: "json_map \<Rightarrow> json_map" where
  "allowed_fields raw = List.map_filter (\<lambda>k. map_option (Pair k) (gm_get raw k)) guest_status_allowlist"

definition redact_guest_status :: "number_reader \<Rightarrow> identity \<Rightarrow> string \<Rightarrow> string \<Rightarrow> string \<Rightarrow> string" where
  "redact_guest_status num i host wanted body =
     (case decode_map num body of
        None \<Rightarrow> status_unreadable
      | Some raw \<Rightarrow> enc_any (JObj (add_session_state raw (pin_session i host wanted (allowed_fields raw)))))"

section \<open>The relay handler\<close>

definition max_relay_body :: int where "max_relay_body = 5 * 2 ^ 20"

datatype relay_gate = Rejected int | Forwarded string string

text \<open>\<open>handleRelay\<close> up to \<open>Dispatch\<close>: the answer it writes itself, or the host and the body it forwards.\<close>

definition relay_admit :: "number_reader \<Rightarrow> child_table \<Rightarrow> identity \<Rightarrow> request \<Rightarrow> bool \<Rightarrow> 'a registry_scheme \<Rightarrow> relay_gate" where
  "relay_admit num ct i r readable h =
     (let host = query_of r ''host'';
          host = (if host = [] then default_host i h else host)
      in if host = [] then Rejected 503
         else if \<not> allows_host i host h then Rejected 403
         else if \<not> readable then Rejected 400
         else if int (length (rq_body r)) > max_relay_body then Rejected 413
         else if is_guest i then
           (case enforce_guest_relay num ct i host (rq_path r) (rq_body r) h of
              None \<Rightarrow> Rejected 403
            | Some body \<Rightarrow> Forwarded host body)
         else Forwarded host (rq_body r))"

definition relayed_session_id :: "string \<Rightarrow> string" where
  "relayed_session_id body =
     (case unmarshal (dec_struct [(''sessionId'', dec_str)]) [] body of None \<Rightarrow> [] | Some s \<Rightarrow> s)"

text \<open>\<open>handleRelay\<close> after \<open>Dispatch\<close>: the status, the body for the browser and what the hub learns of subagents.\<close>

definition relay_finish :: "number_reader \<Rightarrow> identity \<Rightarrow> request \<Rightarrow> string \<Rightarrow> string \<Rightarrow> int \<Rightarrow> string \<Rightarrow> child_table \<Rightarrow> int \<times> string \<times> child_table" where
  "relay_finish num i r host body status resp ct =
     (let status = (if status < 100 \<or> status > 599 then 502 else status)
      in if is_guest i \<and> status \<ge> 200 \<and> status < 300 then
           (if rq_path r = ''/api/status'' then (status, redact_guest_status num i host (query_of r ''session'') resp, ct)
            else if rq_path r = ''/api/session-updates''
              then (status, resp, note_history_children host (relayed_session_id body) resp ct)
            else if rq_path r = ''/api/subagent/list-running''
              then (status, resp, note_running_subagents host (relayed_session_id body) resp ct)
            else (status, resp, ct))
         else (status, resp, ct))"

section \<open>What a guest reaches\<close>

lemma session_for_listed:
  assumes "session_for i host sid = (s', cwd)" and "s' \<noteq> []"
  shows "\<exists>s \<in> set (id_sessions i). gs_host_id s = host \<and> gs_session_id s = s' \<and> gs_cwd s = cwd"
  using session_for_loop_spec [of None "set (id_sessions i)" host "id_sessions i" sid] assms
  by (auto simp: session_for_def)

lemma get_put_cwd:
  "gm_get (put_cwd path cwd obj) k =
     (if k = ''cwd'' then (if gm_get obj ''cwd'' \<noteq> None \<or> path \<in> set guest_cwd_paths then (if cwd \<noteq> [] then Some (JStr cwd) else None) else None)
      else gm_get obj k)"
  by (auto simp: put_cwd_def gm_get_set gm_get_del)

lemma str_at_ne: "str_at m k = s \<Longrightarrow> s \<noteq> [] \<Longrightarrow> gm_get m k = Some (JStr s)"
  by (auto simp: str_at_def split: option.splits json_any.splits)

text \<open>A session pair the whitelist of the identity names on the host, the directory left out where it has none.\<close>

definition granted_pair :: "identity \<Rightarrow> string \<Rightarrow> string \<Rightarrow> json_any option \<Rightarrow> bool" where
  "granted_pair i host sid cwd \<longleftrightarrow>
     (\<exists>s \<in> set (id_sessions i). gs_host_id s = host \<and> gs_session_id s = sid \<and> (cwd = None \<or> cwd = Some (JStr (gs_cwd s))))"

text \<open>C9: A guest's request stays in its whitelist. Whatever a guest sends, a forwarded request addresses a
  host its token names on a read-only path; where the path is session-scoped, the body is an object
  whose \<open>sessionId\<close> is a listed session of that host with that session's directory, or a recorded
  subagent child of one, with its parent's directory.\<close>

theorem guest_relay_confined:
  assumes "is_guest i" and "relay_admit num ct i r readable h = Forwarded host body"
  shows "(\<exists>s \<in> set (id_sessions i). gs_host_id s = host) \<and> rq_path r \<in> set guest_relay_paths \<and>
    (rq_path r \<in> set guest_session_paths \<longrightarrow>
       (\<exists>obj sid. body = enc_any (JObj obj) \<and> gm_get obj ''sessionId'' = Some (JStr sid) \<and>
          (granted_pair i host sid (gm_get obj ''cwd'') \<or>
           (guest_child_allowed ct (as_guest_token i) host sid \<and>
            granted_pair i host (guest_parent_of ct host sid) (gm_get obj ''cwd'')))))"
proof -
  have admit: "allows_host i host h" "enforce_guest_relay num ct i host (rq_path r) (rq_body r) h = Some body"
    using assms by (auto simp: relay_admit_def Let_def split: if_splits option.splits)
  have path: "rq_path r \<in> set guest_relay_paths" using admit(2) by (auto simp: enforce_guest_relay_def split: if_splits)
  have "\<exists>obj sid. body = enc_any (JObj obj) \<and> gm_get obj ''sessionId'' = Some (JStr sid) \<and>
      (granted_pair i host sid (gm_get obj ''cwd'') \<or>
       (guest_child_allowed ct (as_guest_token i) host sid \<and> granted_pair i host (guest_parent_of ct host sid) (gm_get obj ''cwd'')))"
    if scoped: "rq_path r \<in> set guest_session_paths"
  proof -
    let ?obj = "body_object num (rq_body r)" and ?path = "rq_path r"
    let ?req = "str_at ?obj ''sessionId''"
    show ?thesis
    proof (cases "child_cwd ct i host ?req")
      case (Some cwd)
      let ?out = "put_cwd ?path cwd ?obj" and ?parent = "guest_parent_of ct host ?req"
      obtain parent where child: "?req \<noteq> []" "guest_child_allowed ct (as_guest_token i) host ?req"
        "session_for i host ?parent = (parent, cwd)" "parent \<noteq> []"
        using Some by (auto simp: child_cwd_def split: if_splits prod.splits)
      have "guest_allows_session (as_guest_token i) host ?parent" "?parent \<noteq> []"
        using child(2) by (auto simp: guest_child_allowed_def Let_def)
      then have "parent = ?parent" using session_for_loop_hit [of ?parent "id_sessions i" host None] child(3)
        by (auto simp: session_for_def guest_allows_session_def as_guest_token_def list_ex_iff)
      then have "granted_pair i host ?parent (gm_get ?out ''cwd'')"
        using session_for_listed [OF child(3,4)] by (auto simp: granted_pair_def get_put_cwd)
      moreover have "gm_get ?out ''sessionId'' = Some (JStr ?req)" using str_at_ne [OF refl child(1)] by (simp add: get_put_cwd)
      moreover have "body = enc_any (JObj ?out)"
        using admit path scoped Some by (simp add: enforce_guest_relay_def Let_def del: enc_any.simps)
      ultimately show ?thesis using child(2) by blast
    next
      case None
      obtain sid cwd where s: "session_for i host ?req = (sid, cwd)" by fastforce
      have ne: "sid \<noteq> []" and body: "body = enc_any (JObj (put_cwd ?path cwd (gm_set ''sessionId'' (JStr sid) ?obj)))"
        using admit path scoped None s by (auto simp: enforce_guest_relay_def Let_def simp del: enc_any.simps split: if_splits)
      let ?out = "put_cwd ?path cwd (gm_set ''sessionId'' (JStr sid) ?obj)"
      have "granted_pair i host sid (gm_get ?out ''cwd'')"
        using session_for_listed [OF s ne] by (auto simp: granted_pair_def get_put_cwd)
      moreover have "gm_get ?out ''sessionId'' = Some (JStr sid)" by (simp add: get_put_cwd gm_get_set)
      ultimately show ?thesis using body by blast
    qed
  qed
  then show ?thesis using admit(1) assms(1) path by (auto simp: allows_host_def list_ex_iff)
qed

definition sample_guest :: identity where
  "sample_guest = \<lparr>id_role = ''guest'', id_user_id = [], id_token_id = ''g_1'', id_label = [], id_expires_at = 0,
     id_sessions = [\<lparr>gs_host_id = ''pc'', gs_host_name = [], gs_session_id = ''a'', gs_cwd = [], gs_title = [],
       gs_added_at = 0, gs_stale = False\<rparr>]\<rparr>"

definition sample_request :: "string \<Rightarrow> string \<Rightarrow> request" where
  "sample_request path body = \<lparr>rq_method = ''POST'', rq_path = path, rq_remote = [], rq_headers = [], rq_query = [(''host'', ''pc'')],
     rq_body = body\<rparr>"

text \<open>Whole numbers as the float64 reader leaves them.\<close>

definition sample_num :: number_reader where
  "sample_num s = map_option (\<lambda>i. (s, i)) (parse_int s)"

definition quoted :: "string \<Rightarrow> string" where "quoted s = map (\<lambda>c. if c = CHR ''`'' then quote else c) s"

lemma guest_relay_confined_witness:
  "relay_admit sample_num no_children sample_guest (sample_request ''/api/session-info'' (quoted ''{`sessionId`:`b`}'')) True sample_registry
     = Forwarded ''pc'' (quoted ''{`sessionId`:`a`}'') \<and> ''/api/session-info'' \<in> set guest_relay_paths"
proof -
  let ?r = "sample_request ''/api/session-info'' (quoted ''{`sessionId`:`b`}'')"
  have f: "relay_admit sample_num no_children sample_guest ?r True sample_registry = Forwarded ''pc'' (quoted ''{`sessionId`:`a`}'')"
    by code_simp
  moreover have g: "is_guest sample_guest" by (simp add: is_guest_def sample_guest_def)
  ultimately show ?thesis using guest_relay_confined [OF g f] by (simp add: sample_request_def)
qed

section \<open>What a guest sees of a host's status\<close>

lemma allowed_fields_get: "gm_get (allowed_fields raw) k = (if k \<in> set guest_status_allowlist then gm_get raw k else None)"
proof -
  have "gm_get (List.map_filter (\<lambda>k. map_option (Pair k) (gm_get raw k)) ks) k = (if k \<in> set ks then gm_get raw k else None)" for ks
    by (induction ks) (auto simp: List.map_filter_simps split: option.split)
  then show ?thesis by (simp add: allowed_fields_def)
qed

lemma pin_session_get:
  assumes "\<forall>s \<in> set (id_sessions i). gs_session_id s \<noteq> []"
  shows "gm_get (pin_session i host wanted out) ''sessionId'' = None \<or>
    (\<exists>sid. gm_get (pin_session i host wanted out) ''sessionId'' = Some (JStr sid) \<and> sid \<noteq> [] \<and> guest_allows_session (as_guest_token i) host sid)"
    and "k \<noteq> ''sessionId'' \<Longrightarrow> k \<noteq> ''cwd'' \<Longrightarrow> gm_get (pin_session i host wanted out) k = gm_get out k"
proof -
  let ?g = "as_guest_token i"
  have allows: "guest_allows_session ?g host sid \<Longrightarrow> sid \<noteq> []" for sid
    using assms by (auto simp: guest_allows_session_def as_guest_token_def list_ex_iff)
  have first: "guest_allows_session ?g host sid" if "session_for i host [] = (sid, cwd)" "sid \<noteq> []" for sid cwd
    using session_for_listed [OF that] by (auto simp: guest_allows_session_def as_guest_token_def list_ex_iff)
  show "gm_get (pin_session i host wanted out) ''sessionId'' = None \<or>
    (\<exists>sid. gm_get (pin_session i host wanted out) ''sessionId'' = Some (JStr sid) \<and> sid \<noteq> [] \<and> guest_allows_session ?g host sid)"
  proof (cases "wanted \<noteq> [] \<and> guest_allows_session ?g host wanted")
    case True
    then show ?thesis by (auto simp: pin_session_def Let_def gm_get_set)
  next
    case unwanted: False
    show ?thesis
    proof (cases "guest_allows_session ?g host (str_at out ''sessionId'')")
      case True
      then have "pin_session i host wanted out = out"
        using unwanted by (simp only: pin_session_def Let_def if_P if_not_P if_False)
      then show ?thesis using True str_at_ne [OF refl allows [OF True]] allows [OF True] by simp
    next
      case False
      obtain sid cwd where "session_for i host [] = (sid, cwd)" by fastforce
      then show ?thesis using unwanted False first [of sid cwd]
        by (auto simp: pin_session_def Let_def gm_get_set gm_get_del)
    qed
  qed
  show "gm_get (pin_session i host wanted out) k = gm_get out k" if "k \<noteq> ''sessionId''" "k \<noteq> ''cwd''"
    using that by (auto simp: pin_session_def Let_def gm_get_set gm_get_del split: prod.split)
qed

lemma add_state_get:
  assumes "k \<notin> {''busy'', ''sessionState'', ''awaitingInput'', ''pendingInput''}"
  shows "gm_get (add_session_state raw out) k = gm_get out k"
  using assms by (simp add: add_session_state_def Let_def gm_get_set split: prod.split)

definition guest_visible :: "string \<Rightarrow> bool" where
  "guest_visible k \<longleftrightarrow> k \<in> set (guest_status_allowlist @ [''sessionState'', ''awaitingInput'', ''pendingInput''])"

lemma not_visible: "\<not> guest_visible ''roster''" "\<not> guest_visible ''pendingRequests''"
  by code_simp+

lemma visible_named:
  "guest_visible ''sessionId''" "guest_visible ''cwd''" "guest_visible ''busy''" "guest_visible ''sessionState''"
  "guest_visible ''awaitingInput''" "guest_visible ''pendingInput''"
  by code_simp+

section \<open>The state of one session\<close>

text \<open>The host's pending requests that name the session, and the session's own roster row.\<close>

definition own_requests :: "json_map \<Rightarrow> string \<Rightarrow> json_map list" where
  "own_requests raw sid = List.map_filter (\<lambda>v. case v of JObj req \<Rightarrow> if str_at req ''sessionId'' = sid then Some req else None | _ \<Rightarrow> None)
     (list_at raw ''pendingRequests'')"

definition own_row :: "json_map \<Rightarrow> string \<Rightarrow> json_map \<Rightarrow> bool" where
  "own_row raw sid row \<longleftrightarrow> (\<exists>pre post. list_at raw ''roster'' = pre @ JObj row # post \<and> str_at row ''sessionId'' = sid \<and>
     (\<forall>other. JObj other \<in> set pre \<longrightarrow> str_at other ''sessionId'' \<noteq> sid))"

definition unlisted :: "json_map \<Rightarrow> string \<Rightarrow> bool" where
  "unlisted raw sid \<longleftrightarrow> (\<forall>row. JObj row \<in> set (list_at raw ''roster'') \<longrightarrow> str_at row ''sessionId'' \<noteq> sid)"

lemma guest_pending_kind_ne: "guest_pending_kind req \<noteq> []"
  by (simp add: guest_pending_kind_def guest_pending_kinds_def)

lemma pending_loop_spec:
  fixes reqs sid defines "own \<equiv> List.map_filter (\<lambda>v. case v of JObj req \<Rightarrow> if str_at req ''sessionId'' = sid then Some req else None | _ \<Rightarrow> None) reqs"
  assumes "pending_loop sid reqs (kind, n, oldest) = (kind', n', oldest')" and "oldest \<noteq> 0 \<longrightarrow> kind \<noteq> []"
  shows "n' = n + int (length own) \<and> (own = [] \<longrightarrow> kind' = kind \<and> oldest' = oldest) \<and> (own \<noteq> [] \<longrightarrow> kind' \<noteq> []) \<and>
    (kind' = kind \<or> kind' \<in> guest_pending_kind ` set own) \<and>
    (oldest' = oldest \<or> (\<exists>req \<in> set own. \<exists>s. gm_get req ''receivedAt'' = Some (JNum s oldest')))"
  using assms(2,3) unfolding own_def
proof (induction reqs arbitrary: kind n oldest)
  case Nil
  then show ?case by (simp add: List.map_filter_simps)
next
  case (Cons v reqs)
  let ?own = "List.map_filter (\<lambda>v. case v of JObj req \<Rightarrow> if str_at req ''sessionId'' = sid then Some req else None | _ \<Rightarrow> None) reqs"
  show ?case
  proof (cases "\<exists>req. v = JObj req \<and> str_at req ''sessionId'' = sid")
    case False
    then have "pending_loop sid reqs (kind, n, oldest) = (kind', n', oldest')"
      using Cons.prems(1) by (cases v) auto
    moreover have "List.map_filter (\<lambda>v. case v of JObj req \<Rightarrow> if str_at req ''sessionId'' = sid then Some req else None | _ \<Rightarrow> None) (v # reqs) = ?own"
      using False by (auto simp: List.map_filter_simps split: json_any.splits)
    ultimately show ?thesis using Cons.IH Cons.prems(2) by simp
  next
    case True
    then obtain req where v: "v = JObj req" "str_at req ''sessionId'' = sid" by blast
    have own: "List.map_filter (\<lambda>v. case v of JObj req \<Rightarrow> if str_at req ''sessionId'' = sid then Some req else None | _ \<Rightarrow> None) (v # reqs) = req # ?own"
      using v by (simp add: List.map_filter_simps)
    obtain k1 o1 where step: "pending_loop sid reqs (k1, n + 1, o1) = (kind', n', oldest')"
      and k1: "k1 = guest_pending_kind req \<or> k1 = kind \<and> kind \<noteq> []"
      and o1: "o1 = oldest \<or> (\<exists>s. gm_get req ''receivedAt'' = Some (JNum s o1))"
    proof (cases "\<exists>s t. gm_get req ''receivedAt'' = Some (JNum s t)")
      case True
      then obtain s t where t: "gm_get req ''receivedAt'' = Some (JNum s t)" by blast
      show ?thesis
      proof (cases "oldest = 0 \<or> t < oldest")
        case True
        then show ?thesis using Cons.prems(1) v t by (intro that [of "guest_pending_kind req" t]) simp_all
      next
        case False
        then show ?thesis using Cons.prems v t by (intro that [of kind oldest]) simp_all
      qed
    next
      case False
      then have "pending_loop sid reqs (if kind = [] then guest_pending_kind req else kind, n + 1, oldest) = (kind', n', oldest')"
        using Cons.prems(1) v by (auto split: option.splits json_any.splits)
      then show ?thesis by (intro that [of "if kind = [] then guest_pending_kind req else kind" oldest]) simp_all
    qed
    have "k1 \<noteq> []" using k1 guest_pending_kind_ne [of req] by (elim disjE) simp_all
    from Cons.IH [OF step] this
    have IH: "n' = n + 1 + int (length ?own)" "?own = [] \<longrightarrow> kind' = k1 \<and> oldest' = o1" "?own \<noteq> [] \<longrightarrow> kind' \<noteq> []"
      "kind' = k1 \<or> kind' \<in> guest_pending_kind ` set ?own"
      "oldest' = o1 \<or> (\<exists>req \<in> set ?own. \<exists>s. gm_get req ''receivedAt'' = Some (JNum s oldest'))" by auto
    have "kind' \<noteq> []" using IH(2,3) \<open>k1 \<noteq> []\<close> by blast
    moreover have "kind' = kind \<or> kind' \<in> guest_pending_kind ` set (req # ?own)" using IH(4) k1 by auto
    moreover have "oldest' = oldest \<or> (\<exists>req \<in> set (req # ?own). \<exists>s. gm_get req ''receivedAt'' = Some (JNum s oldest'))"
      using IH(5) o1 by auto
    ultimately show ?thesis unfolding own using IH(1) by simp
  qed
qed

lemma derive_pending_spec:
  assumes "derive_guest_pending (list_at raw ''pendingRequests'') sid = (kind, n, oldest)"
  shows "n = int (length (own_requests raw sid)) \<and> (kind = [] \<longleftrightarrow> own_requests raw sid = []) \<and>
    (own_requests raw sid \<noteq> [] \<longrightarrow> kind \<in> guest_pending_kind ` set (own_requests raw sid)) \<and>
    (oldest = 0 \<or> (\<exists>req \<in> set (own_requests raw sid). \<exists>s. gm_get req ''receivedAt'' = Some (JNum s oldest)))"
proof -
  obtain k m t where l: "pending_loop sid (list_at raw ''pendingRequests'') ([], 0, 0) = (k, m, t)"
    by (cases "pending_loop sid (list_at raw ''pendingRequests'') ([], 0, 0)")
  have sp: "m = int (length (own_requests raw sid))" "own_requests raw sid = [] \<longrightarrow> k = [] \<and> t = 0"
    "own_requests raw sid \<noteq> [] \<longrightarrow> k \<noteq> []" "k = [] \<or> k \<in> guest_pending_kind ` set (own_requests raw sid)"
    "t = 0 \<or> (\<exists>req \<in> set (own_requests raw sid). \<exists>s. gm_get req ''receivedAt'' = Some (JNum s t))"
    using pending_loop_spec [OF l] by (simp_all add: own_requests_def)
  have "\<not> (k = [] \<and> m > 0)" using sp(1-3) by auto
  then have "kind = k" "n = m" "oldest = t" using assms l by (auto simp: derive_guest_pending_def)
  then show ?thesis using sp by blast
qed

lemma session_flags_spec:
  assumes "session_flags raw sid = (busy, awaiting)"
  shows "unlisted raw sid \<and> \<not> busy \<and> \<not> awaiting \<or>
    (\<exists>row. own_row raw sid row \<and> busy = bool_at row ''busy'' \<and> awaiting = bool_at row ''awaitingInput'')"
proof (cases "List.find (roster_row sid) (list_at raw ''roster'')")
  case None
  then have "\<forall>v \<in> set (list_at raw ''roster''). \<not> roster_row sid v" by (simp add: find_None_iff)
  then have "unlisted raw sid" by (force simp: unlisted_def roster_row_def)
  then show ?thesis using assms None by (simp add: session_flags_def)
next
  case (Some v)
  then obtain j where j: "j < length (list_at raw ''roster'')" "roster_row sid (list_at raw ''roster'' ! j)" "v = list_at raw ''roster'' ! j"
    "\<forall>k < j. \<not> roster_row sid (list_at raw ''roster'' ! k)" by (auto simp: find_Some_iff)
  then obtain row where row: "v = JObj row" "str_at row ''sessionId'' = sid" by (auto simp: roster_row_def split: json_any.splits)
  have "list_at raw ''roster'' = take j (list_at raw ''roster'') @ JObj row # drop (Suc j) (list_at raw ''roster'')"
    using id_take_nth_drop [OF j(1)] j(3) row(1) by simp
  moreover have "str_at other ''sessionId'' \<noteq> sid" if m: "JObj other \<in> set (take j (list_at raw ''roster''))" for other
  proof -
    obtain k where "k < j" "list_at raw ''roster'' ! k = JObj other" using m by (auto simp: in_set_conv_nth)
    then have "\<not> roster_row sid (JObj other)" using j(4) by metis
    then show ?thesis by (simp add: roster_row_def)
  qed
  ultimately have "own_row raw sid row" using row(2) unfolding own_row_def by blast
  then show ?thesis using assms Some row(1) by (auto simp: session_flags_def)
qed

text \<open>What a status says of one session is exactly that session's state in the host's answer.\<close>

definition shows_own_state :: "json_map \<Rightarrow> string \<Rightarrow> json_map \<Rightarrow> bool" where
  "shows_own_state raw sid out \<longleftrightarrow>
     (\<exists>busy awaiting.
        (unlisted raw sid \<and> \<not> busy \<and> \<not> awaiting \<or>
         (\<exists>row. own_row raw sid row \<and> busy = bool_at row ''busy'' \<and> awaiting = bool_at row ''awaitingInput'')) \<and>
        gm_get out ''busy'' = Some (JBool busy) \<and>
        gm_get out ''awaitingInput'' = Some (JBool (awaiting \<or> own_requests raw sid \<noteq> [])) \<and>
        gm_get out ''sessionState'' = Some (JStr (if awaiting \<or> own_requests raw sid \<noteq> [] then ''awaiting''
                                                 else if busy then ''active'' else ''idle''))) \<and>
     (own_requests raw sid = [] \<longrightarrow> gm_get out ''pendingInput'' = None) \<and>
     (own_requests raw sid \<noteq> [] \<longrightarrow>
        (\<exists>req \<in> set (own_requests raw sid). \<exists>since.
           gm_get out ''pendingInput'' = Some (JObj ([(''kind'', JStr (guest_pending_kind req)),
             (''count'', int_num (int (length (own_requests raw sid))))] @ since)) \<and>
           (since = [] \<or> (\<exists>req \<in> set (own_requests raw sid). \<exists>s t. gm_get req ''receivedAt'' = Some (JNum s t) \<and>
              since = [(''receivedAt'', int_num t)]))))"

lemma add_state_own:
  assumes "str_at pinned ''sessionId'' = sid" and "sid \<noteq> []" and "gm_get pinned ''pendingInput'' = None"
  shows "shows_own_state raw sid (add_session_state raw pinned)"
proof -
  obtain busy awaiting where f: "session_flags raw sid = (busy, awaiting)" by fastforce
  obtain kind n received where d: "derive_guest_pending (list_at raw ''pendingRequests'') sid = (kind, n, received)"
    by (cases "derive_guest_pending (list_at raw ''pendingRequests'') sid")
  note dp = derive_pending_spec [OF d]
  let ?own = "own_requests raw sid" and ?out = "add_session_state raw pinned"
  have blocked: "awaiting \<or> kind \<noteq> [] \<longleftrightarrow> awaiting \<or> ?own \<noteq> []" using dp by blast
  have out: "gm_get ?out ''busy'' = Some (JBool busy)" "gm_get ?out ''awaitingInput'' = Some (JBool (awaiting \<or> kind \<noteq> []))"
    "gm_get ?out ''sessionState'' = Some (JStr (if awaiting \<or> kind \<noteq> [] then ''awaiting'' else if busy then ''active'' else ''idle''))"
    "gm_get ?out ''pendingInput'' = (if kind = [] then None else Some (JObj ([(''kind'', JStr kind), (''count'', int_num n)] @
       (if received > 0 then [(''receivedAt'', int_num received)] else []))))"
    using assms(1,2,3) f d by (simp_all add: add_session_state_def Let_def gm_get_set)
  have one: "\<exists>busy awaiting.
        (unlisted raw sid \<and> \<not> busy \<and> \<not> awaiting \<or>
         (\<exists>row. own_row raw sid row \<and> busy = bool_at row ''busy'' \<and> awaiting = bool_at row ''awaitingInput'')) \<and>
        gm_get ?out ''busy'' = Some (JBool busy) \<and>
        gm_get ?out ''awaitingInput'' = Some (JBool (awaiting \<or> ?own \<noteq> [])) \<and>
        gm_get ?out ''sessionState'' = Some (JStr (if awaiting \<or> ?own \<noteq> [] then ''awaiting'' else if busy then ''active'' else ''idle''))"
    by (rule exI [of _ busy], rule exI [of _ awaiting], intro conjI session_flags_spec [OF f] out [unfolded blocked])
  have two: "?own = [] \<longrightarrow> gm_get ?out ''pendingInput'' = None" using dp out(4) by simp
  have three: "\<exists>req \<in> set ?own. \<exists>since. gm_get ?out ''pendingInput'' = Some (JObj ([(''kind'', JStr (guest_pending_kind req)),
             (''count'', int_num (int (length ?own)))] @ since)) \<and>
           (since = [] \<or> (\<exists>req \<in> set ?own. \<exists>s t. gm_get req ''receivedAt'' = Some (JNum s t) \<and> since = [(''receivedAt'', int_num t)]))"
    if ne: "?own \<noteq> []"
  proof -
    obtain req where req: "req \<in> set ?own" "kind = guest_pending_kind req" using dp ne by blast
    have k: "kind \<noteq> []" "n = int (length ?own)" using dp ne by simp_all
    let ?since = "if received > 0 then [(''receivedAt'', int_num received)] else []"
    have "?since = [] \<or> (\<exists>req \<in> set ?own. \<exists>s t. gm_get req ''receivedAt'' = Some (JNum s t) \<and> ?since = [(''receivedAt'', int_num t)])"
      using dp by (cases "received > 0") auto
    moreover have "gm_get ?out ''pendingInput'' = Some (JObj ([(''kind'', JStr (guest_pending_kind req)),
             (''count'', int_num (int (length ?own)))] @ ?since))" using out(4) k req(2) by simp
    ultimately show ?thesis using req(1) by blast
  qed
  show ?thesis unfolding shows_own_state_def using one two three by blast
qed

lemma pin_session_cases:
  assumes "\<forall>s \<in> set (id_sessions i). gs_session_id s \<noteq> []"
  obtains (Nothing) "gm_get (pin_session i host wanted out) ''sessionId'' = None" "gm_get (pin_session i host wanted out) ''cwd'' = None"
  | (One) sid where "gm_get (pin_session i host wanted out) ''sessionId'' = Some (JStr sid)" "sid \<noteq> []"
      "guest_allows_session (as_guest_token i) host sid"
      "gm_get (pin_session i host wanted out) ''cwd'' = None \<or>
       (\<exists>s \<in> set (id_sessions i). gs_host_id s = host \<and> gs_session_id s = sid \<and>
          gm_get (pin_session i host wanted out) ''cwd'' = Some (JStr (gs_cwd s))) \<or>
       (gm_get (pin_session i host wanted out) ''cwd'' = gm_get out ''cwd'' \<and>
          (str_at out ''sessionId'' = sid \<or> wanted = sid \<and> snd (session_for i host wanted) = []))"
proof -
  let ?g = "as_guest_token i"
  have allows: "guest_allows_session ?g host sid \<Longrightarrow> sid \<noteq> []" for sid
    using assms by (auto simp: guest_allows_session_def as_guest_token_def list_ex_iff)
  show thesis
  proof (cases "wanted \<noteq> [] \<and> guest_allows_session ?g host wanted")
    case True
    obtain sid cwd where s: "session_for i host wanted = (sid, cwd)" by fastforce
    have hit: "sid = wanted" using session_for_loop_hit [of wanted "id_sessions i" host None] s True
      by (auto simp: session_for_def guest_allows_session_def as_guest_token_def list_ex_iff)
    have p: "pin_session i host wanted out = (if cwd \<noteq> [] then gm_set ''cwd'' (JStr cwd) (gm_set ''sessionId'' (JStr wanted) out)
        else gm_set ''sessionId'' (JStr wanted) out)" using True s by (simp add: pin_session_def Let_def)
    show thesis
    proof (rule One [of wanted])
      show "gm_get (pin_session i host wanted out) ''cwd'' = None \<or>
       (\<exists>s \<in> set (id_sessions i). gs_host_id s = host \<and> gs_session_id s = wanted \<and>
          gm_get (pin_session i host wanted out) ''cwd'' = Some (JStr (gs_cwd s))) \<or>
       (gm_get (pin_session i host wanted out) ''cwd'' = gm_get out ''cwd'' \<and>
          (str_at out ''sessionId'' = wanted \<or> wanted = wanted \<and> snd (session_for i host wanted) = []))"
      proof (cases "cwd = []")
        case False
        then have "gm_get (pin_session i host wanted out) ''cwd'' = Some (JStr cwd)" by (simp add: p gm_get_set)
        then show ?thesis using session_for_listed [OF s] hit True by auto
      qed (simp add: p gm_get_set s)
    qed (use True in \<open>simp_all add: p gm_get_set\<close>)
  next
    case unwanted: False
    show thesis
    proof (cases "guest_allows_session ?g host (str_at out ''sessionId'')")
      case True
      have "pin_session i host wanted out = out"
        using unwanted True by (simp only: pin_session_def Let_def if_P if_not_P if_False)
      then show thesis using True allows [OF True] str_at_ne [OF refl allows [OF True]]
        by (intro One [of "str_at out ''sessionId''"]) simp_all
    next
      case False
      obtain sid cwd where s: "session_for i host [] = (sid, cwd)" by fastforce
      have p: "pin_session i host wanted out = (if sid = [] then gm_del ''cwd'' (gm_del ''sessionId'' out)
          else if cwd \<noteq> [] then gm_set ''cwd'' (JStr cwd) (gm_set ''sessionId'' (JStr sid) out)
          else gm_del ''cwd'' (gm_set ''sessionId'' (JStr sid) out))"
        unfolding pin_session_def Let_def if_not_P [OF unwanted] if_not_P [OF False] s by simp
      show thesis
      proof (cases "sid = []")
        case True
        then show thesis by (intro Nothing) (simp_all add: p gm_get_set gm_get_del)
      next
        case ne: False
        then have "\<exists>x \<in> set (id_sessions i). gs_host_id x = host \<and> gs_session_id x = sid \<and> gs_cwd x = cwd"
          using session_for_listed [OF s] by blast
        then show thesis using ne
          by (intro One [of sid]) (auto simp: p gm_get_set gm_get_del guest_allows_session_def as_guest_token_def list_ex_iff)
      qed
    qed
  qed
qed

text \<open>C20: A redacted status names no foreign session. Whatever a host answers, the body a guest gets holds
  only fields of the allowlist and one session's state; the roster and the pending requests are gone.
  The session reported is one the token lists on that host, and its \<open>busy\<close>, \<open>awaitingInput\<close>,
  \<open>sessionState\<close> and \<open>pendingInput\<close> come from that session's own roster row and from exactly the
  pending requests that name it. Its directory is absent, the listed one, or the host's own report,
  which passes only when the host reports that very session or the guest asked for it and its entry
  records none. Without such a session none of these is reported, and no directory.\<close>

theorem guest_status_redacted:
  assumes "\<forall>s \<in> set (id_sessions i). gs_session_id s \<noteq> []"
  shows "redact_guest_status num i host wanted body = status_unreadable \<or>
    (\<exists>raw out. decode_map num body = Some raw \<and> redact_guest_status num i host wanted body = enc_any (JObj out) \<and>
       (\<forall>k. gm_get out k \<noteq> None \<longrightarrow> guest_visible k) \<and>
       gm_get out ''roster'' = None \<and> gm_get out ''pendingRequests'' = None \<and>
       (gm_get out ''sessionId'' = None \<and> gm_get out ''cwd'' = None \<and> gm_get out ''sessionState'' = None \<and>
          gm_get out ''awaitingInput'' = None \<and> gm_get out ''pendingInput'' = None \<or>
        (\<exists>sid. gm_get out ''sessionId'' = Some (JStr sid) \<and> guest_allows_session (as_guest_token i) host sid \<and>
           shows_own_state raw sid out \<and>
           (gm_get out ''cwd'' = None \<or>
            (\<exists>s \<in> set (id_sessions i). gs_host_id s = host \<and> gs_session_id s = sid \<and> gm_get out ''cwd'' = Some (JStr (gs_cwd s))) \<or>
            (gm_get out ''cwd'' = gm_get raw ''cwd'' \<and>
               (str_at raw ''sessionId'' = sid \<or> wanted = sid \<and> snd (session_for i host wanted) = []))))))"
proof (cases "decode_map num body")
  case None
  then show ?thesis by (simp add: redact_guest_status_def)
next
  case (Some raw)
  define pinned where "pinned = pin_session i host wanted (allowed_fields raw)"
  define out where "out = add_session_state raw pinned"
  have seen: "gm_get out k = None" if "\<not> guest_visible k" for k
  proof -
    have ne: "k \<noteq> x" if "guest_visible x" for x using that \<open>\<not> guest_visible k\<close> by blast
    note ne = visible_named [THEN ne]
    have k: "k \<notin> {''busy'', ''sessionState'', ''awaitingInput'', ''pendingInput''}" "k \<noteq> ''sessionId''" "k \<noteq> ''cwd''"
      "k \<notin> set guest_status_allowlist"
      using ne \<open>\<not> guest_visible k\<close> by (simp_all add: guest_visible_def)
    have "gm_get out k = gm_get pinned k" unfolding out_def by (rule add_state_get [OF k(1)])
    also have "\<dots> = gm_get (allowed_fields raw) k" unfolding pinned_def by (rule pin_session_get(2) [OF assms k(2,3)])
    also have "\<dots> = None" using k(4) by (simp add: allowed_fields_get)
    finally show ?thesis .
  qed
  have same: "gm_get out ''sessionId'' = gm_get pinned ''sessionId''" "gm_get out ''cwd'' = gm_get pinned ''cwd''"
    unfolding out_def by (rule add_state_get, simp)+
  have flat: "gm_get pinned k = None" if "k \<in> {''sessionState'', ''awaitingInput'', ''pendingInput''}" for k
    using that unfolding pinned_def by (auto simp: pin_session_get(2) [OF assms] allowed_fields_get guest_status_allowlist_def)
  have raw: "gm_get (allowed_fields raw) ''cwd'' = gm_get raw ''cwd''" "str_at (allowed_fields raw) ''sessionId'' = str_at raw ''sessionId''"
    by (simp_all add: str_at_def allowed_fields_get guest_status_allowlist_def)
  have session: "gm_get out ''sessionId'' = None \<and> gm_get out ''cwd'' = None \<and> gm_get out ''sessionState'' = None \<and>
          gm_get out ''awaitingInput'' = None \<and> gm_get out ''pendingInput'' = None \<or>
        (\<exists>sid. gm_get out ''sessionId'' = Some (JStr sid) \<and> guest_allows_session (as_guest_token i) host sid \<and>
           shows_own_state raw sid out \<and>
           (gm_get out ''cwd'' = None \<or>
            (\<exists>s \<in> set (id_sessions i). gs_host_id s = host \<and> gs_session_id s = sid \<and> gm_get out ''cwd'' = Some (JStr (gs_cwd s))) \<or>
            (gm_get out ''cwd'' = gm_get raw ''cwd'' \<and>
               (str_at raw ''sessionId'' = sid \<or> wanted = sid \<and> snd (session_for i host wanted) = []))))"
  proof (cases rule: pin_session_cases [OF assms, of host wanted "allowed_fields raw", case_names Nothing One])
    case Nothing
    then have "out = pinned" unfolding out_def pinned_def by (simp add: add_session_state_def str_at_def)
    then show ?thesis using Nothing flat unfolding pinned_def [symmetric] by simp
  next
    case (One sid)
    have "str_at pinned ''sessionId'' = sid" using One(1) unfolding pinned_def by (simp add: str_at_def)
    then have "shows_own_state raw sid out" unfolding out_def by (rule add_state_own) (use One(2) flat in simp_all)
    then show ?thesis using One(1,3,4) unfolding same pinned_def [symmetric] raw by blast
  qed
  have vis: "\<forall>k. gm_get out k \<noteq> None \<longrightarrow> guest_visible k"
    by (intro allI impI, rule ccontr) (drule seen, erule notE)
  have eq: "redact_guest_status num i host wanted body = enc_any (JObj out)"
    using Some by (simp only: redact_guest_status_def option.case out_def pinned_def)
  show ?thesis
    by (rule disjI2, rule exI [of _ raw], rule exI [of _ out], intro conjI, rule Some, rule eq, rule vis,
        rule seen [OF not_visible(1)], rule seen [OF not_visible(2)], rule session)
qed

lemma guest_status_redacted_witness:
  "\<exists>out. redact_guest_status sample_num sample_guest ''pc'' [] (quoted ''{`sessionId`:`b`,`roster`:[]}'') = enc_any (JObj out) \<and>
     gm_get out ''roster'' = None"
proof -
  have ok: "\<forall>s \<in> set (id_sessions sample_guest). gs_session_id s \<noteq> []" by (simp add: sample_guest_def)
  have "redact_guest_status sample_num sample_guest ''pc'' [] (quoted ''{`sessionId`:`b`,`roster`:[]}'') \<noteq> status_unreadable" by code_simp
  then show ?thesis using guest_status_redacted [OF ok, of sample_num "''pc''" "[]" "quoted ''{`sessionId`:`b`,`roster`:[]}''"] by blast
qed

section \<open>What slips through\<close>

text \<open>C40: The status of a listed session can carry another session's directory. Whenever a guest asks for a
  listed session whose whitelist entry records no directory, and the host answers with a directory of
  whatever session is active there, the guest is told that directory for the session it asked for.\<close>

theorem status_keeps_foreign_cwd:
  assumes "wanted \<noteq> []" and "guest_allows_session (as_guest_token i) host wanted"
    and "snd (session_for i host wanted) = []"
    and "decode_map num body = Some raw" and "gm_get raw ''cwd'' = Some (JStr dir)" and "str_at raw ''sessionId'' \<noteq> wanted"
  shows "\<exists>out. redact_guest_status num i host wanted body = enc_any (JObj out) \<and>
    gm_get out ''sessionId'' = Some (JStr wanted) \<and> gm_get out ''cwd'' = Some (JStr dir)"
proof -
  let ?out = "add_session_state raw (pin_session i host wanted (allowed_fields raw))"
  have p: "pin_session i host wanted (allowed_fields raw) = gm_set ''sessionId'' (JStr wanted) (allowed_fields raw)"
    using assms(1-3) by (simp add: pin_session_def Let_def)
  have "gm_get ?out k = gm_get (pin_session i host wanted (allowed_fields raw)) k" if "k \<in> {''sessionId'', ''cwd''}" for k
    by (rule add_state_get) (use that in auto)
  then have "gm_get ?out ''sessionId'' = Some (JStr wanted)" "gm_get ?out ''cwd'' = Some (JStr dir)"
    using assms(5) by (simp_all add: p gm_get_set allowed_fields_get guest_status_allowlist_def)
  moreover have "redact_guest_status num i host wanted body = enc_any (JObj ?out)"
    using assms(4) by (simp only: redact_guest_status_def option.case)
  ultimately show ?thesis by blast
qed

lemma status_keeps_foreign_cwd_witness:
  "\<exists>out. redact_guest_status sample_num sample_guest ''pc'' ''a'' (quoted ''{`sessionId`:`b`,`cwd`:`/home/b`}'') = enc_any (JObj out) \<and>
     gm_get out ''sessionId'' = Some (JStr ''a'') \<and> gm_get out ''cwd'' = Some (JStr ''/home/b'')"
proof -
  have d: "decode_map sample_num (quoted ''{`sessionId`:`b`,`cwd`:`/home/b`}'') = Some [(''sessionId'', JStr ''b''), (''cwd'', JStr ''/home/b'')]"
    by code_simp
  have s: "snd (session_for sample_guest ''pc'' ''a'') = []" "guest_allows_session (as_guest_token sample_guest) ''pc'' ''a''"
    by code_simp+
  show ?thesis by (rule status_keeps_foreign_cwd [OF _ s(2,1) d]) (simp_all add: str_at_def)
qed

end
