(* ===== verification/Writer.thy ===== *)
theory Writer
  imports SessionProto TransportUnit "HOL-Library.Sublist"
begin

text \<open>
  The goroutine that owns a host's socket (\<open>internal/hub/writer.go\<close>): the queue of control frames, the
  pull of the down log, the replay of its oldest part and the slicing of one frame into transport
  units. The rest of the hub runs between two socket writes: a script says, for each write, whether
  it succeeds, which control frames are posted meanwhile, what happens to the protocol state and
  whether the session is stopped. Compression is the parameter \<open>deflate\<close>. What the socket carried and
  which log entries were completed is recorded.
\<close>

definition retransmit_batch :: int where "retransmit_batch = 8"
definition retransmit_batch_bytes :: int where "retransmit_batch_bytes = 2 ^ 20"
definition min_down_compress_size :: int where "min_down_compress_size = 256"
definition control_queue_depth :: nat where "control_queue_depth = 16"

record writer =
  wr_deflate :: bool
  wr_wake :: bool
  wr_retransmit :: bool
  wr_rewrite :: "u64 option"
  wr_progress :: bool
  wr_control :: "bytes list"
  wr_written :: u64
  wr_frame_id :: u32

section \<open>Signals and the control queue\<close>

definition kick :: "'a writer_scheme \<Rightarrow> 'a writer_scheme" where "kick w = w\<lparr>wr_wake := True\<rparr>"
definition writer_retransmit :: "'a writer_scheme \<Rightarrow> 'a writer_scheme" where "writer_retransmit w = w\<lparr>wr_retransmit := True\<rparr>"
definition writer_rewrite :: "u64 \<Rightarrow> 'a writer_scheme \<Rightarrow> 'a writer_scheme" where "writer_rewrite seq w = w\<lparr>wr_rewrite := Some seq\<rparr>"
definition note_progress :: "'a writer_scheme \<Rightarrow> 'a writer_scheme" where "note_progress w = w\<lparr>wr_progress := True\<rparr>"

fun contains :: "bytes \<Rightarrow> bytes \<Rightarrow> bool" where
  "contains sub [] = (sub = [])"
| "contains sub (x # xs) = (take (length sub) (x # xs) = sub \<or> contains sub xs)"

definition quoted_bytes :: "string \<Rightarrow> bytes" where
  "quoted_bytes s = to_bytes (CHR 0x22 # s @ [CHR 0x22])"

definition is_plain_heartbeat :: "bytes \<Rightarrow> bool" where
  "is_plain_heartbeat payload \<longleftrightarrow>
     \<not> contains (quoted_bytes ''probe'') payload \<and> \<not> contains (quoted_bytes ''probeAck'') payload"

definition drop_oldest_plain :: "bytes list \<Rightarrow> bytes list" where
  "drop_oldest_plain q = (if list_ex is_plain_heartbeat q then remove_first is_plain_heartbeat q else tl q)"

definition queue_control :: "bytes \<Rightarrow> bytes list \<Rightarrow> bytes list" where
  "queue_control payload q =
     (if q \<noteq> [] \<and> is_plain_heartbeat payload \<and> is_plain_heartbeat (last q) then butlast q @ [payload]
      else let q = q @ [payload] in if length q > control_queue_depth then drop_oldest_plain q else q)"

definition post_control :: "bytes \<Rightarrow> 'a writer_scheme \<Rightarrow> 'a writer_scheme" where
  "post_control payload w = kick (w\<lparr>wr_control := queue_control payload (wr_control w)\<rparr>)"

definition take_control :: "'a writer_scheme \<Rightarrow> 'a writer_scheme \<times> bytes option" where
  "take_control w = (case wr_control w of [] \<Rightarrow> (w, None) | c # q \<Rightarrow> (w\<lparr>wr_control := q\<rparr>, Some c))"

section \<open>The socket and its surroundings\<close>

datatype sent = SentFrame bytes | SentUnit bytes

text \<open>What happens while one write is in progress.\<close>

record write_event =
  we_ok :: bool
  we_now :: time
  we_posts :: "bytes list"
  we_ops :: "proto_op list"
  we_rewrite :: "u64 option"
  we_stop :: bool

record link = writer +
  lk_proto :: session_proto
  lk_now :: time
  lk_stopped :: bool
  lk_script :: "write_event list"
  lk_sent :: "sent list"
  lk_done :: "(bool \<times> u64 \<times> bytes) list"

definition new_writer :: "bool \<Rightarrow> session_proto \<Rightarrow> write_event list \<Rightarrow> link" where
  "new_writer deflate p script =
     \<lparr>wr_deflate = deflate, wr_wake = False, wr_retransmit = False, wr_rewrite = None, wr_progress = False,
      wr_control = [], wr_written = proto_down_acked p, wr_frame_id = 0,
      lk_proto = p, lk_now = 0, lk_stopped = False, lk_script = script, lk_sent = [], lk_done = []\<rparr>"

definition proto_env :: "proto_op list \<Rightarrow> session_proto \<Rightarrow> session_proto" where
  "proto_env ops p = fst (proto_run ops (p, []))"

definition transport_write :: "sent \<Rightarrow> link \<Rightarrow> link \<times> bool" where
  "transport_write x w =
     (case lk_script w of
        [] \<Rightarrow> (w\<lparr>lk_sent := lk_sent w @ [x]\<rparr>, True)
      | e # es \<Rightarrow>
          let w = fold post_control (we_posts e) w;
              w = (case we_rewrite e of None \<Rightarrow> w | Some seq \<Rightarrow> writer_rewrite seq w)
          in (w\<lparr>lk_script := es, lk_now := we_now e, lk_stopped := lk_stopped w \<or> we_stop e,
                lk_proto := proto_env (we_ops e) (lk_proto w),
                lk_sent := lk_sent w @ (if we_ok e then [x] else [])\<rparr>, we_ok e))"

section \<open>Writing frames\<close>

definition write_control :: "bytes \<Rightarrow> link \<Rightarrow> link \<times> bool" where
  "write_control payload w = transport_write (SentFrame payload) w"

definition interleave_control :: "link \<Rightarrow> link \<times> bool" where
  "interleave_control w =
     (case take_control w of (w, None) \<Rightarrow> (w, True) | (w, Some c) \<Rightarrow> transport_write (SentFrame c) w)"

definition next_frame_id :: "link \<Rightarrow> link \<times> u32" where
  "next_frame_id w = (w\<lparr>wr_frame_id := wr_frame_id w + 1\<rparr>, wr_frame_id w + 1)"

fun write_units :: "bytes list \<Rightarrow> bool \<Rightarrow> link \<Rightarrow> link \<times> bool" where
  "write_units [] later w = (w, True)"
| "write_units (u # us) later w =
     (case (if later then interleave_control w else (w, True)) of
        (w, False) \<Rightarrow> (w, False)
      | (w, True) \<Rightarrow>
          (case transport_write (SentUnit u) w of
             (w, False) \<Rightarrow> (w, False)
           | (w, True) \<Rightarrow> write_units us True w))"

definition compressed_form :: "(bytes \<Rightarrow> bytes option) \<Rightarrow> bool \<Rightarrow> bytes \<Rightarrow> bytes \<times> bool" where
  "compressed_form deflate enabled payload =
     (if enabled \<and> int (length payload) \<ge> min_down_compress_size then
        (case deflate payload of
           None \<Rightarrow> (payload, False)
         | Some z \<Rightarrow> if length z < length payload then (z, True) else (payload, False))
      else (payload, False))"

definition write_frame :: "(bytes \<Rightarrow> bytes option) \<Rightarrow> bytes \<Rightarrow> link \<Rightarrow> link \<times> bool" where
  "write_frame deflate payload w =
     (case compressed_form deflate (wr_deflate w) payload of
        (out, compressed) \<Rightarrow>
          if \<not> compressed \<and> int (length out) \<le> unit_size_default then transport_write (SentFrame out) w
          else (case interleave_control w of
                  (w, False) \<Rightarrow> (w, False)
                | (w, True) \<Rightarrow>
                    (case next_frame_id w of
                       (w, fid) \<Rightarrow>
                         (case split_frame out compressed fid unit_size_default of
                            Inl e \<Rightarrow> (w, False)
                          | Inr units \<Rightarrow> write_units units False w))))"

definition write_reliable :: "(bytes \<Rightarrow> bytes option) \<Rightarrow> bool \<Rightarrow> log_entry \<Rightarrow> link \<Rightarrow> link \<times> bool" where
  "write_reliable deflate again e w =
     (case write_frame deflate (le_payload e) w of
        (w, False) \<Rightarrow> (w, False)
      | (w, True) \<Rightarrow>
          let w = w\<lparr>lk_proto := note_written (lk_now w) (le_seq e) (le_payload e) (lk_proto w),
                    lk_done := lk_done w @ [(again, le_seq e, le_payload e)]\<rparr>;
              w = (if le_seq e > wr_written w then w\<lparr>wr_written := le_seq e\<rparr> else w)
          in (note_progress w, True))"

datatype write_end = WriteOk | WriteStopped | WriteFailed

fun write_entries :: "(bytes \<Rightarrow> bytes option) \<Rightarrow> bool \<Rightarrow> log_entry list \<Rightarrow> link \<Rightarrow> link \<times> write_end" where
  "write_entries deflate again [] w = (w, WriteOk)"
| "write_entries deflate again (e # es) w =
     (if lk_stopped w then (w, WriteStopped)
      else case interleave_control w of
             (w, False) \<Rightarrow> (w, WriteFailed)
           | (w, True) \<Rightarrow>
               (case write_reliable deflate again e w of
                  (w, False) \<Rightarrow> (w, WriteFailed)
                | (w, True) \<Rightarrow> write_entries deflate again es w))"

definition replay :: "(bytes \<Rightarrow> bytes option) \<Rightarrow> link \<Rightarrow> link \<times> write_end" where
  "replay deflate w = write_entries deflate False (oldest_unacked retransmit_batch retransmit_batch_bytes (lk_proto w)) w"

text \<open>A failed write stops the session; one cut short by a stop has nothing left to do. Either way the goroutine ends.\<close>

definition writer_fail :: "link \<times> write_end \<Rightarrow> link \<times> bool" where
  "writer_fail res =
     (case res of (w, WriteOk) \<Rightarrow> (w, True) | (w, WriteStopped) \<Rightarrow> (w, False) | (w, WriteFailed) \<Rightarrow> (w\<lparr>lk_stopped := True\<rparr>, False))"

text \<open>What the rest of the hub does while the goroutine writes nothing.\<close>

record idle_event =
  ie_posts :: "bytes list"
  ie_ops :: "proto_op list"
  ie_kick :: bool
  ie_retransmit :: bool
  ie_rewrite :: "u64 option"
  ie_stop :: bool

definition idle_step :: "idle_event \<Rightarrow> link \<Rightarrow> link" where
  "idle_step e w =
     (let w = fold post_control (ie_posts e) w;
          w = (if ie_kick e then kick w else w);
          w = (if ie_retransmit e then writer_retransmit w else w);
          w = (case ie_rewrite e of None \<Rightarrow> w | Some seq \<Rightarrow> writer_rewrite seq w)
      in w\<lparr>lk_proto := proto_env (ie_ops e) (lk_proto w), lk_stopped := lk_stopped w \<or> ie_stop e\<rparr>)"

text \<open>The channels the goroutine can be woken by; \<open>select\<close> takes any ready one, after whatever
  happened while it was blocked.\<close>

datatype wakeup = OnStop | OnWake | OnRetransmit | OnRewrite

definition writer_select :: "(bytes \<Rightarrow> bytes option) \<Rightarrow> wakeup \<Rightarrow> link \<Rightarrow> link \<times> bool" where
  "writer_select deflate ch w =
     (case ch of
        OnStop \<Rightarrow> (w, \<not> lk_stopped w)
      | OnWake \<Rightarrow> (w\<lparr>wr_wake := False\<rparr>, True)
      | OnRetransmit \<Rightarrow>
          if wr_retransmit w then writer_fail (replay deflate (w\<lparr>wr_retransmit := False\<rparr>)) else (w, True)
      | OnRewrite \<Rightarrow>
          (case wr_rewrite w of
             None \<Rightarrow> (w, True)
           | Some seq \<Rightarrow>
               (case proto_entry seq (lk_proto w) of
                  None \<Rightarrow> (w\<lparr>wr_rewrite := None\<rparr>, True)
                | Some e \<Rightarrow> writer_fail (write_entries deflate True [e] (w\<lparr>wr_rewrite := None\<rparr>)))))"

definition writer_turn :: "(bytes \<Rightarrow> bytes option) \<Rightarrow> idle_event \<Rightarrow> wakeup \<Rightarrow> link \<Rightarrow> link \<times> bool" where
  "writer_turn deflate blocked ch w =
     (if lk_stopped w then (w, False)
      else case take_control w of
             (w, Some c) \<Rightarrow>
               writer_fail (case write_control c w of (w, ok) \<Rightarrow> (w, if ok then WriteOk else WriteFailed))
           | (_, None) \<Rightarrow>
               let entries = entries_after (wr_written w) (lk_proto w)
               in if entries \<noteq> [] then writer_fail (write_entries deflate False entries w)
                  else writer_select deflate ch (idle_step blocked w))"

fun writer_run :: "(bytes \<Rightarrow> bytes option) \<Rightarrow> (idle_event \<times> idle_event \<times> wakeup) list \<Rightarrow> link \<Rightarrow> link" where
  "writer_run deflate [] w = w"
| "writer_run deflate ((e, blocked, ch) # evs) w =
     (case writer_turn deflate blocked ch (idle_step e w) of
        (w, False) \<Rightarrow> w
      | (w, True) \<Rightarrow> writer_run deflate evs w)"

section \<open>The control queue\<close>

datatype control_op = Post bytes | Take

fun control_step :: "control_op \<Rightarrow> bytes list \<times> bytes list \<Rightarrow> bytes list \<times> bytes list" where
  "control_step (Post p) (q, taken) = (queue_control p q, taken)"
| "control_step Take (q, taken) = (case q of [] \<Rightarrow> (q, taken) | c # q \<Rightarrow> (q, taken @ [c]))"

definition control_run :: "control_op list \<Rightarrow> bytes list \<times> bytes list" where
  "control_run ops = fold control_step ops ([], [])"

definition posted :: "control_op list \<Rightarrow> bytes list" where
  "posted ops = concat (map (\<lambda>op. case op of Post p \<Rightarrow> [p] | Take \<Rightarrow> []) ops)"

definition probes :: "bytes list \<Rightarrow> bytes list" where "probes q = filter (\<lambda>p. \<not> is_plain_heartbeat p) q"

lemma probes_append [simp]: "probes (a @ b) = probes a @ probes b" by (simp add: probes_def)

lemma probes_cut: "list_ex is_plain_heartbeat q \<Longrightarrow> probes (remove_first is_plain_heartbeat q) = probes q"
  by (induction q) (auto simp: probes_def)

lemma remove_first_append: "list_ex P q \<Longrightarrow> remove_first P (q @ r) = remove_first P q @ r"
  by (induction q) auto

lemma length_cut: "list_ex P q \<Longrightarrow> Suc (length (remove_first P q)) = length q"
  by (induction q) auto

lemma probes_all: "\<not> list_ex is_plain_heartbeat q \<Longrightarrow> probes q = q"
  by (induction q) (auto simp: probes_def)

lemma queue_control_cases:
  assumes "length q \<le> control_queue_depth"
  obtains (Coalesce) "q \<noteq> []" "is_plain_heartbeat p" "is_plain_heartbeat (last q)" "queue_control p q = butlast q @ [p]"
  | (Room) "length q < control_queue_depth" "queue_control p q = q @ [p]"
  | (Cut) "list_ex is_plain_heartbeat q" "length q = control_queue_depth" "queue_control p q = remove_first is_plain_heartbeat q @ [p]"
  | (Full) "\<not> list_ex is_plain_heartbeat q" "length q = control_queue_depth"
      "queue_control p q = (if is_plain_heartbeat p then q else tl q @ [p])"
proof (cases "q \<noteq> [] \<and> is_plain_heartbeat p \<and> is_plain_heartbeat (last q)")
  case True
  then show ?thesis using Coalesce by (simp add: queue_control_def)
next
  case False
  then have q: "queue_control p q = (if length (q @ [p]) > control_queue_depth then drop_oldest_plain (q @ [p]) else q @ [p])"
    by (simp only: queue_control_def Let_def if_False)
  show ?thesis
  proof (cases "length q < control_queue_depth")
    case True
    then show ?thesis using Room q by simp
  next
    case full: False
    then have len: "length q = control_queue_depth" "q \<noteq> []" using assms by (auto simp: control_queue_depth_def)
    show ?thesis
    proof (cases "list_ex is_plain_heartbeat q")
      case True
      then show ?thesis using Cut q len by (simp add: drop_oldest_plain_def remove_first_append)
    next
      case none: False
      then have "\<not> (\<exists>x \<in> set q. is_plain_heartbeat x)" by (simp add: list_ex_iff)
      then have "remove_first is_plain_heartbeat (q @ [p]) = (if is_plain_heartbeat p then q else q @ [p])"
        by (induction q) auto
      then show ?thesis using Full q len none by (simp add: drop_oldest_plain_def)
    qed
  qed
qed

lemma queue_control_bound:
  assumes "length q \<le> control_queue_depth" shows "length (queue_control p q) \<le> control_queue_depth"
  using assms
proof (cases rule: queue_control_cases [OF assms, of p, case_names Coalesce Room Cut Full])
  case Cut
  then show ?thesis using length_cut [of is_plain_heartbeat q] by simp
next
  case Full
  then show ?thesis by (cases q) (auto simp: control_queue_depth_def)
qed (auto simp: Suc_diff_1 length_greater_0_conv [symmetric] simp del: length_greater_0_conv)

lemma queue_control_room:
  assumes "length q \<le> control_queue_depth" and "length (probes q) < control_queue_depth"
  shows "queue_control p q \<noteq> []" and "last (queue_control p q) = p" and "probes (queue_control p q) = probes q @ probes [p]"
proof -
  show "queue_control p q \<noteq> []" "last (queue_control p q) = p" "probes (queue_control p q) = probes q @ probes [p]"
    using assms(2)
    by (cases rule: queue_control_cases [OF assms(1), of p, case_names Coalesce Room Cut Full];
        simp add: probes_all probes_cut; metis append_butlast_last_id append_self_conv probes_append probes_def filter.simps)+
qed

lemma control_run_snoc: "control_run (ops @ [op]) = control_step op (control_run ops)"
  by (simp add: control_run_def)

lemma posted_snoc: "posted (ops @ [op]) = posted ops @ (case op of Post p \<Rightarrow> [p] | Take \<Rightarrow> [])"
  by (simp add: posted_def)

lemma control_run_bound: "length (fst (control_run ops)) \<le> control_queue_depth"
proof (induction ops rule: rev_induct)
  case Nil
  then show ?case by (simp add: control_run_def)
next
  case (snoc op ops)
  obtain q t where r: "control_run ops = (q, t)" by fastforce
  then show ?case using snoc queue_control_bound [of q]
    by (cases op) (auto simp: control_run_snoc split: list.split)
qed

lemma subseq_queue_control:
  assumes "length q \<le> control_queue_depth" shows "subseq (t @ queue_control p q) (t @ q @ [p])"
proof -
  have "subseq (remove_first P q) q" for P :: "bytes \<Rightarrow> bool" by (induction q) auto
  moreover have "subseq (butlast q) q" by (cases q rule: rev_cases) auto
  moreover have "subseq (tl q) q" by (cases q) auto
  ultimately have "subseq (queue_control p q) (q @ [p])"
    by (cases rule: queue_control_cases [OF assms, of p, case_names Coalesce Room Cut Full]) (auto intro: list_emb_append_mono)
  then show ?thesis by (rule list_emb_append_mono [OF subseq_order.order_refl])
qed

text \<open>C33: The control queue is bounded, keeps its order and never loses a probe it has room for. Whatever
  heartbeats and probes the session posts and the writer takes, at most 16 frames wait, and what was
  written and what waits is a subsequence of what was posted; while fewer than 16 probes wait, every
  probe posted is written or waiting and the newest frame is the last one.\<close>

theorem control_queue_keeps_probes:
  assumes "control_run ops = (q, taken)"
  shows "length q \<le> 16 \<and> subseq (taken @ q) (posted ops) \<and>
    ((\<forall>n. length (probes (fst (control_run (take n ops)))) < 16) \<longrightarrow>
       probes (taken @ q) = probes (posted ops) \<and> (posted ops \<noteq> [] \<longrightarrow> last (taken @ q) = last (posted ops)))"
  using assms
proof (induction ops arbitrary: q taken rule: rev_induct)
  case Nil
  then show ?case by (simp add: control_run_def posted_def probes_def)
next
  case (snoc op ops)
  obtain q0 t0 where r: "control_run ops = (q0, t0)" by fastforce
  note IH = snoc.IH [OF r]
  have len: "length q0 \<le> control_queue_depth" using control_run_bound [of ops] r by simp
  have step: "control_step op (q0, t0) = (q, taken)" using snoc.prems r by (simp add: control_run_snoc)
  have bound: "length q \<le> 16" using control_run_bound [of "ops @ [op]"] snoc.prems by (simp add: control_queue_depth_def)
  have prefix: "length (probes (fst (control_run (take n ops)))) < 16"
    if all: "\<forall>n. length (probes (fst (control_run (take n (ops @ [op]))))) < 16" for n
  proof (cases "n \<le> length ops")
    case True
    then show ?thesis using all [rule_format, of n] by simp
  next
    case False
    then show ?thesis using all [rule_format, of "length ops"] by simp
  qed
  show ?case
  proof (cases op)
    case (Post p)
    then have q: "q = queue_control p q0" "taken = t0" using step by simp_all
    have "subseq (taken @ q) (t0 @ q0 @ [p])" using subseq_queue_control [OF len] by (simp add: q)
    moreover have "subseq ((t0 @ q0) @ [p]) (posted ops @ [p])" using IH by (intro list_emb_append_mono) auto
    ultimately have "subseq (taken @ q) (posted (ops @ [op]))" using Post by (simp add: posted_snoc subseq_order.order_trans)
    moreover have "probes (taken @ q) = probes (posted (ops @ [op])) \<and> last (taken @ q) = last (posted (ops @ [op]))"
      if all: "\<forall>n. length (probes (fst (control_run (take n (ops @ [op]))))) < 16"
    proof -
      have room: "length (probes q0) < control_queue_depth" using prefix [OF all, of "length ops"] r by (simp add: control_queue_depth_def)
      have "probes (t0 @ q0) = probes (posted ops)" using IH prefix [OF all] by blast
      then show ?thesis using queue_control_room [OF len room, of p] Post by (simp add: q posted_snoc)
    qed
    ultimately show ?thesis using bound by blast
  next
    case Take
    then have "taken @ q = t0 @ q0" "posted (ops @ [op]) = posted ops" using step by (auto simp: posted_snoc split: list.splits)
    then show ?thesis using bound IH prefix by (metis)
  qed
qed

lemma control_queue_keeps_probes_witness:
  "let (q, t) = control_run [Post [1], Post (quoted_bytes ''probe''), Take, Post [2]] in
     probes (t @ q) = [quoted_bytes ''probe''] \<and> last (t @ q) = [2]"
proof -
  let ?ops = "[Post [1], Post (quoted_bytes ''probe''), Take, Post [2]]"
  obtain q t where r: "control_run ?ops = (q, t)" by fastforce
  have few: "list_all (\<lambda>n. length (probes (fst (control_run (take n ?ops)))) < 16) [0, 1, 2, 3, 4]" by code_simp
  have "length (probes (fst (control_run (take n ?ops)))) < 16" for n
  proof -
    consider "n = 0" | "n = 1" | "n = 2" | "n = 3" | "take n ?ops = take 4 ?ops" by (cases "n < 4") fastforce+
    then show ?thesis using few by cases auto
  qed
  moreover have "probes (posted ?ops) = [quoted_bytes ''probe'']" by code_simp
  ultimately show ?thesis using control_queue_keeps_probes [OF r] by (simp add: r posted_def)
qed

section \<open>What the peer reads\<close>

text \<open>The receiving side of a transport: whole frames as they are, units through the reassembler.\<close>

fun peer_receive :: "int \<Rightarrow> reassembler \<Rightarrow> sent list \<Rightarrow> reassembler \<times> (unit_error + (bytes \<times> bool) list)" where
  "peer_receive m r [] = (r, Inr [])"
| "peer_receive m r (SentFrame b # xs) =
     (case peer_receive m r xs of (r', Inl e) \<Rightarrow> (r', Inl e) | (r', Inr fs) \<Rightarrow> (r', Inr ((b, False) # fs)))"
| "peer_receive m r (SentUnit u # xs) =
     (case reasm_accept r u m of
        (r', Inl e) \<Rightarrow> (r', Inl e)
      | (r', Inr (frame, compressed, complete)) \<Rightarrow>
          (case peer_receive m r' xs of
             (r'', Inl e) \<Rightarrow> (r'', Inl e)
           | (r'', Inr fs) \<Rightarrow> (r'', Inr (if complete then (frame, compressed) # fs else fs))))"

definition peer_payload :: "(bytes \<Rightarrow> bytes option) \<Rightarrow> bytes \<times> bool \<Rightarrow> bytes option" where
  "peer_payload inflate f = (if snd f then inflate (fst f) else Some (fst f))"

lemma shuffles_append:
  "x \<in> shuffles a b \<Longrightarrow> y \<in> shuffles c d \<Longrightarrow> x @ y \<in> shuffles (a @ c) (b @ d)"
proof (induction x arbitrary: a b)
  case Nil
  then show ?case by simp
next
  case (Cons z x)
  then show ?case by (auto simp: Cons_in_shuffles_iff neq_Nil_conv)
qed

lemma peer_receive_append:
  "peer_receive m r xs = (r', Inr fs) \<Longrightarrow> peer_receive m r' ys = (r'', Inr gs) \<Longrightarrow>
   peer_receive m r (xs @ ys) = (r'', Inr (fs @ gs))"
  by (induction m r xs arbitrary: fs rule: peer_receive.induct) (auto split: prod.splits sum.splits if_splits)

lemma peer_receive_mix:
  "reasm_run r us m = (r', Inr outs) \<Longrightarrow> mix \<in> shuffles (map SentUnit us) (map SentFrame ctl) \<Longrightarrow>
   \<exists>fs \<in> shuffles outs (map (\<lambda>c. (c, False)) ctl). peer_receive m r mix = (r', Inr fs)"
proof (induction mix arbitrary: r us outs ctl)
  case Nil
  then show ?case by simp
next
  case (Cons x mix)
  from Cons.prems(2) consider (Unit) u us' where "us = u # us'" "x = SentUnit u" "mix \<in> shuffles (map SentUnit us') (map SentFrame ctl)"
    | (Frame) c ctl' where "ctl = c # ctl'" "x = SentFrame c" "mix \<in> shuffles (map SentUnit us) (map SentFrame ctl')"
    by (cases us; cases ctl) (auto simp: Cons_in_shuffles_iff)
  then show ?case
  proof cases
    case Unit
    obtain r1 frame compressed complete where a: "reasm_accept r u m = (r1, Inr (frame, compressed, complete))"
      and "\<exists>rest. reasm_run r1 us' m = (r', Inr rest) \<and> outs = (if complete then (frame, compressed) # rest else rest)"
      using Cons.prems(1) Unit(1) by (auto split: prod.splits sum.splits)
    then obtain rest where rest: "reasm_run r1 us' m = (r', Inr rest)" "outs = (if complete then (frame, compressed) # rest else rest)" by blast
    from Cons.IH [OF rest(1) Unit(3)] obtain fs where "fs \<in> shuffles rest (map (\<lambda>c. (c, False)) ctl)" "peer_receive m r1 mix = (r', Inr fs)" by blast
    then show ?thesis using a Unit(2) rest(2) by (auto intro: Cons_in_shuffles_leftI)
  next
    case Frame
    from Cons.IH [OF Cons.prems(1) Frame(3)] obtain fs where "fs \<in> shuffles outs (map (\<lambda>c. (c, False)) ctl')" "peer_receive m r mix = (r', Inr fs)" by blast
    then show ?thesis using Frame(1,2) by (auto intro: Cons_in_shuffles_rightI)
  qed
qed

text \<open>The control frames a stretch of the writer can put on the socket.\<close>

definition pool :: "link \<Rightarrow> bytes set" where
  "pool w = set (wr_control w) \<union> (\<Union>e \<in> set (lk_script w). set (we_posts e))"

lemma set_queue_control: "set (queue_control p q) \<subseteq> insert p (set q)"
proof -
  have cut: "set (remove_first P xs) \<subseteq> set xs" for P :: "bytes \<Rightarrow> bool" and xs by (induction xs) auto
  have "set (butlast q) \<subseteq> set q" by (auto dest: in_set_butlastD)
  moreover have "set (tl xs) \<subseteq> set xs" for xs :: "bytes list" by (cases xs) auto
  then have "set (drop_oldest_plain xs) \<subseteq> set xs" for xs using cut by (simp add: drop_oldest_plain_def)
  then have "set (drop_oldest_plain (q @ [p])) \<subseteq> insert p (set q)" by (metis Un_insert_right list.simps(15) set_append sup_bot_right empty_set)
  ultimately show ?thesis by (auto simp: queue_control_def Let_def)
qed

lemma fold_post_control:
  "lk_script (fold post_control ps w) = lk_script w" "lk_sent (fold post_control ps w) = lk_sent w"
  "lk_done (fold post_control ps w) = lk_done w" "wr_written (fold post_control ps w) = wr_written w"
  "wr_deflate (fold post_control ps w) = wr_deflate w" "lk_proto (fold post_control ps w) = lk_proto w"
  "lk_stopped (fold post_control ps w) = lk_stopped w"
  by (induction ps arbitrary: w) (simp_all add: post_control_def kick_def)

lemma fold_post_control_pool: "set (wr_control (fold post_control ps w)) \<subseteq> set (wr_control w) \<union> set ps"
proof (induction ps arbitrary: w)
  case (Cons p ps)
  have "set (wr_control (post_control p w)) \<subseteq> insert p (set (wr_control w))"
    using set_queue_control by (simp add: post_control_def kick_def)
  then show ?case using Cons.IH [of "post_control p w"] by auto
qed simp

lemma transport_write_facts:
  assumes "transport_write x w = (w', ok)"
  shows "pool w' \<subseteq> pool w" and "ok \<Longrightarrow> lk_sent w' = lk_sent w @ [x]" and "lk_done w' = lk_done w"
    and "wr_written w' = wr_written w" and "wr_deflate w' = wr_deflate w"
proof -
  have "\<forall>e es. lk_script w = e # es \<longrightarrow> set (wr_control (fold post_control (we_posts e) w)) \<subseteq> pool w"
    using fold_post_control_pool by (fastforce simp: pool_def)
  then show "pool w' \<subseteq> pool w" "ok \<Longrightarrow> lk_sent w' = lk_sent w @ [x]" "lk_done w' = lk_done w"
    "wr_written w' = wr_written w" "wr_deflate w' = wr_deflate w"
    using assms by (auto simp: transport_write_def Let_def pool_def fold_post_control writer_rewrite_def split: list.splits option.splits)
qed

lemma interleave_facts:
  assumes "interleave_control w = (w', ok)"
  shows "pool w' \<subseteq> pool w" and "ok \<Longrightarrow> \<exists>ctl. lk_sent w' = lk_sent w @ map SentFrame ctl \<and> set ctl \<subseteq> pool w"
    and "lk_done w' = lk_done w" and "wr_written w' = wr_written w" and "wr_deflate w' = wr_deflate w"
proof -
  have "pool w' \<subseteq> pool w \<and> (ok \<longrightarrow> (\<exists>ctl. lk_sent w' = lk_sent w @ map SentFrame ctl \<and> set ctl \<subseteq> pool w)) \<and>
      lk_done w' = lk_done w \<and> wr_written w' = wr_written w \<and> wr_deflate w' = wr_deflate w"
  proof (cases "wr_control w")
    case Nil
    then show ?thesis using assms by (auto simp: interleave_control_def take_control_def intro: exI [of _ "[]"])
  next
    case (Cons c q)
    let ?w = "w\<lparr>wr_control := q\<rparr>"
    have t: "transport_write (SentFrame c) ?w = (w', ok)" using assms Cons by (simp add: interleave_control_def take_control_def)
    have "pool ?w \<subseteq> pool w" "c \<in> pool w" using Cons by (auto simp: pool_def)
    then show ?thesis using transport_write_facts [OF t] by (auto intro!: exI [of _ "[c]"])
  qed
  then show "pool w' \<subseteq> pool w" "ok \<Longrightarrow> \<exists>ctl. lk_sent w' = lk_sent w @ map SentFrame ctl \<and> set ctl \<subseteq> pool w"
    "lk_done w' = lk_done w" "wr_written w' = wr_written w" "wr_deflate w' = wr_deflate w" by blast+
qed

lemma write_units_frame:
  "write_units us later w = (w', ok) \<Longrightarrow> pool w' \<subseteq> pool w \<and> lk_done w' = lk_done w \<and> wr_written w' = wr_written w \<and> wr_deflate w' = wr_deflate w"
proof (induction us later w rule: write_units.induct)
  case (2 u us later w)
  obtain w1 ok1 where i: "(if later then interleave_control w else (w, True)) = (w1, ok1)" by fastforce
  then have f1: "pool w1 \<subseteq> pool w \<and> lk_done w1 = lk_done w \<and> wr_written w1 = wr_written w \<and> wr_deflate w1 = wr_deflate w"
    using interleave_facts [of w w1 ok1] by (auto split: if_splits)
  obtain w2 ok2 where t: "transport_write (SentUnit u) w1 = (w2, ok2)" by fastforce
  show ?case
  proof (cases "ok1 \<and> ok2")
    case True
    then show ?thesis using "2.IH" [of w1 True w2 True] "2.prems" i t f1 transport_write_facts [OF t] by auto
  next
    case False
    then show ?thesis using "2.prems" i t f1 transport_write_facts [OF t] by (auto split: bool.splits)
  qed
qed simp

lemma write_units_sent:
  "write_units us later w = (w', True) \<Longrightarrow>
   \<exists>ctl mix. lk_sent w' = lk_sent w @ mix \<and> mix \<in> shuffles (map SentUnit us) (map SentFrame ctl) \<and> set ctl \<subseteq> pool w"
proof (induction us arbitrary: later w)
  case Nil
  then show ?case by (auto intro: exI [of _ "[]"])
next
  case (Cons u us)
  obtain w1 ok1 where i: "(if later then interleave_control w else (w, True)) = (w1, ok1)" by fastforce
  obtain w2 ok2 where t: "transport_write (SentUnit u) w1 = (w2, ok2)" by fastforce
  have ok: "ok1" "ok2" "write_units us True w2 = (w', True)" using Cons.prems i t by (auto split: bool.splits)
  obtain ctl1 where c1: "lk_sent w1 = lk_sent w @ map SentFrame ctl1" "set ctl1 \<subseteq> pool w" "pool w1 \<subseteq> pool w"
    using i ok(1) interleave_facts [of w w1 ok1] by (cases later) (auto intro: exI [of _ "[]"])
  from Cons.IH [OF ok(3)] obtain ctl mix where
    c2: "lk_sent w' = lk_sent w2 @ mix" "mix \<in> shuffles (map SentUnit us) (map SentFrame ctl)" "set ctl \<subseteq> pool w2" by blast
  have s2: "lk_sent w2 = lk_sent w1 @ [SentUnit u]" "pool w2 \<subseteq> pool w1" using transport_write_facts [OF t] ok(2) by auto
  have "map SentFrame ctl1 \<in> shuffles [] (map SentFrame ctl1)" by simp
  moreover have "SentUnit u # mix \<in> shuffles (map SentUnit (u # us)) (map SentFrame ctl)"
    using c2(2) by (simp add: Cons_in_shuffles_leftI)
  ultimately have "map SentFrame ctl1 @ SentUnit u # mix \<in> shuffles (map SentUnit (u # us)) (map SentFrame (ctl1 @ ctl))"
    using shuffles_append [of "map SentFrame ctl1" "[]" "map SentFrame ctl1" "SentUnit u # mix"] by simp
  then show ?case using c1 c2 s2 by (intro exI [of _ "ctl1 @ ctl"] exI [of _ "map SentFrame ctl1 @ SentUnit u # mix"]) auto
qed

lemma peer_receive_frames: "peer_receive m r (map SentFrame ctl) = (r, Inr (map (\<lambda>c. (c, False)) ctl))"
  by (induction ctl) auto

definition reads_as :: "(bytes \<Rightarrow> bytes option) \<Rightarrow> int \<Rightarrow> sent list \<Rightarrow> bytes list \<Rightarrow> bytes list \<Rightarrow> bool" where
  "reads_as inflate m mix payloads ctl \<longleftrightarrow>
     (\<exists>fs. peer_receive m reasm_new mix = (reasm_new, Inr fs) \<and>
        map (peer_payload inflate) fs \<in> shuffles (map Some payloads) (map Some ctl))"

lemma reads_as_append:
  assumes "reads_as inflate m a ps ctl" and "reads_as inflate m b qs dtl"
  shows "reads_as inflate m (a @ b) (ps @ qs) (ctl @ dtl)"
proof -
  obtain fs gs where a: "peer_receive m reasm_new a = (reasm_new, Inr fs)" "map (peer_payload inflate) fs \<in> shuffles (map Some ps) (map Some ctl)"
    and b: "peer_receive m reasm_new b = (reasm_new, Inr gs)" "map (peer_payload inflate) gs \<in> shuffles (map Some qs) (map Some dtl)"
    using assms unfolding reads_as_def by blast
  show ?thesis unfolding reads_as_def
    using peer_receive_append [OF a(1) b(1)] shuffles_append [OF a(2) b(2)] by (intro exI [of _ "fs @ gs"]) simp
qed

lemma reads_as_control: "reads_as inflate m (map SentFrame ctl) [] ctl"
  by (simp add: reads_as_def peer_receive_frames peer_payload_def comp_def)

definition inflates :: "(bytes \<Rightarrow> bytes option) \<Rightarrow> (bytes \<Rightarrow> bytes option) \<Rightarrow> bool" where
  "inflates deflate inflate \<longleftrightarrow> (\<forall>p z. deflate p = Some z \<longrightarrow> inflate z = Some p)"

lemma compressed_form_payload:
  assumes "inflates deflate inflate" and "compressed_form deflate on p = (out, c)" and "frame_fits m p"
  shows "peer_payload inflate (out, c) = Some p" and "frame_fits m out"
  using assms by (auto simp: compressed_form_def inflates_def peer_payload_def frame_fits_def split: if_splits option.splits)

lemma write_frame_frame:
  "write_frame deflate p w = (w', ok) \<Longrightarrow> pool w' \<subseteq> pool w \<and> lk_done w' = lk_done w \<and> wr_written w' = wr_written w \<and> wr_deflate w' = wr_deflate w"
proof -
  assume f: "write_frame deflate p w = (w', ok)"
  obtain out c where form: "compressed_form deflate (wr_deflate w) p = (out, c)" by fastforce
  obtain w1 ok1 where i: "interleave_control w = (w1, ok1)" by fastforce
  have pool1: "pool (w1\<lparr>wr_frame_id := n\<rparr>) = pool w1" for n by (simp add: pool_def)
  consider (Whole) "transport_write (SentFrame out) w = (w', ok)" | (Cut) "w' = w1" | (Bad) "w' = w1\<lparr>wr_frame_id := wr_frame_id w1 + 1\<rparr>"
    | (Units) us where "write_units us False (w1\<lparr>wr_frame_id := wr_frame_id w1 + 1\<rparr>) = (w', ok)"
    using f form i by (cases ok1) (auto simp: write_frame_def next_frame_id_def split: if_splits sum.splits)
  then show ?thesis
  proof cases
    case Whole
    show ?thesis using transport_write_facts [OF Whole] by blast
  next
    case Units
    show ?thesis using write_units_frame [OF Units] interleave_facts [OF i] by (auto simp: pool1)
  qed (use interleave_facts [OF i] in \<open>auto simp: pool1\<close>)
qed

lemma write_frame_sent:
  assumes "write_frame deflate p w = (w', True)" and law: "inflates deflate inflate" and fits: "frame_fits m p"
  shows "\<exists>ctl mix. lk_sent w' = lk_sent w @ mix \<and> set ctl \<subseteq> pool w \<and> reads_as inflate m mix [p] ctl"
proof -
  obtain out c where form: "compressed_form deflate (wr_deflate w) p = (out, c)" by fastforce
  note out = compressed_form_payload [OF law form fits]
  show ?thesis
  proof (cases "\<not> c \<and> int (length out) \<le> unit_size_default")
    case True
    then have t: "transport_write (SentFrame out) w = (w', True)" using assms(1) form by (simp add: write_frame_def)
    have "reads_as inflate m [SentFrame out] [p] []" using out(1) True by (simp add: reads_as_def peer_payload_def)
    then show ?thesis using transport_write_facts [OF t] by (intro exI [of _ "[]"] exI [of _ "[SentFrame out]"]) simp
  next
    case False
    obtain w1 where i: "interleave_control w = (w1, True)"
      using assms(1) form False by (auto simp: write_frame_def split: prod.splits bool.splits)
    let ?w2 = "w1\<lparr>wr_frame_id := wr_frame_id w1 + 1\<rparr>"
    obtain us where us: "split_frame out c (wr_frame_id w1 + 1) unit_size_default = Inr us" "write_units us False ?w2 = (w', True)"
      using assms(1) form False i by (auto simp: write_frame_def next_frame_id_def split: sum.splits)
    obtain ctl1 where c1: "lk_sent w1 = lk_sent w @ map SentFrame ctl1" "set ctl1 \<subseteq> pool w" using interleave_facts(2) [OF i] by blast
    obtain ctl mix where c2: "lk_sent w' = lk_sent ?w2 @ mix" "mix \<in> shuffles (map SentUnit us) (map SentFrame ctl)" "set ctl \<subseteq> pool ?w2"
      using write_units_sent [OF us(2)] by blast
    have run: "reasm_run reasm_new us m = (reasm_new, Inr [(out, c)])"
      using split_mix_reassembles [OF us(1), of us "[]" m] out(2) by auto
    obtain fs where fs: "fs \<in> shuffles [(out, c)] (map (\<lambda>c. (c, False)) ctl)" "peer_receive m reasm_new mix = (reasm_new, Inr fs)"
      using peer_receive_mix [OF run c2(2)] by blast
    have "map (peer_payload inflate) fs \<in> map (peer_payload inflate) ` shuffles [(out, c)] (map (\<lambda>c. (c, False)) ctl)"
      using fs(1) by blast
    also have "\<dots> = shuffles (map (peer_payload inflate) [(out, c)]) (map (peer_payload inflate) (map (\<lambda>c. (c, False)) ctl))"
      by (rule shuffles_map [symmetric])
    also have "\<dots> = shuffles (map Some [p]) (map Some ctl)"
      using out(1) by (simp add: comp_def) (simp add: peer_payload_def)
    finally have "reads_as inflate m mix [p] ctl" unfolding reads_as_def using fs(2) by blast
    then have "reads_as inflate m (map SentFrame ctl1 @ mix) ([] @ [p]) (ctl1 @ ctl)" by (rule reads_as_append [OF reads_as_control])
    moreover have "pool ?w2 \<subseteq> pool w" using interleave_facts(1) [OF i] by (simp add: pool_def)
    ultimately show ?thesis using c1 c2(1,3)
      by (intro exI [of _ "ctl1 @ ctl"] exI [of _ "map SentFrame ctl1 @ mix"]) auto
  qed
qed

lemma write_reliable_frame:
  "write_reliable deflate again e w = (w', ok) \<Longrightarrow> pool w' \<subseteq> pool w \<and>
    lk_done w' = lk_done w @ (if ok then [(again, le_seq e, le_payload e)] else []) \<and>
    wr_written w' = (if ok \<and> le_seq e > wr_written w then le_seq e else wr_written w)"
proof -
  assume r: "write_reliable deflate again e w = (w', ok)"
  obtain w1 ok1 where f: "write_frame deflate (le_payload e) w = (w1, ok1)" by fastforce
  have same: "pool (v\<lparr>lk_proto := a, lk_done := b, wr_written := c, wr_progress := d\<rparr>) = pool v"
    "pool (v\<lparr>lk_proto := a, lk_done := b, wr_progress := d\<rparr>) = pool v" for v a b c d by (simp_all add: pool_def)
  show ?thesis using r f write_frame_frame [OF f] by (cases ok1) (auto simp: write_reliable_def Let_def note_progress_def same)
qed

text \<open>C7: The peer reads the log. Whatever control frames are posted, whatever happens to the log and
  however the frames are compressed and cut, when the writer completes a batch of entries the peer's
  reassembler ends closed and has handed on exactly the payloads of the batch, in order, each once
  and intact, mixed with control frames that were waiting or posted.\<close>

theorem writer_stream_reassembles:
  assumes "write_entries deflate again es w = (w', WriteOk)"
    and "inflates deflate inflate" and "\<forall>e \<in> set es. frame_fits m (le_payload e)"
  shows "\<exists>mix ctl. lk_sent w' = lk_sent w @ mix \<and> reads_as inflate m mix (map le_payload es) ctl \<and> set ctl \<subseteq> pool w \<and>
    lk_done w' = lk_done w @ map (\<lambda>e. (again, le_seq e, le_payload e)) es"
  using assms(1,3)
proof (induction es arbitrary: w)
  case Nil
  then show ?case using reads_as_control [of inflate m "[]"] by (intro exI [of _ "[]"]) simp
next
  case (Cons e es)
  obtain w1 where i: "interleave_control w = (w1, True)"
    using Cons.prems(1) by (auto split: if_splits prod.splits bool.splits)
  obtain w2 where r: "write_reliable deflate again e w1 = (w2, True)" "write_entries deflate again es w2 = (w', WriteOk)"
    using Cons.prems(1) i by (auto split: if_splits prod.splits bool.splits)
  obtain w3 where f: "write_frame deflate (le_payload e) w1 = (w3, True)"
    using r(1) by (auto simp: write_reliable_def split: prod.splits bool.splits)
  have sent2: "lk_sent w2 = lk_sent w3" using r(1) f by (auto simp: write_reliable_def Let_def note_progress_def)
  obtain ctl1 where c1: "lk_sent w1 = lk_sent w @ map SentFrame ctl1" "set ctl1 \<subseteq> pool w" "pool w1 \<subseteq> pool w"
    using interleave_facts(1,2) [OF i] by blast
  obtain ctl2 mix2 where c2: "lk_sent w3 = lk_sent w1 @ mix2" "set ctl2 \<subseteq> pool w1" "reads_as inflate m mix2 [le_payload e] ctl2"
    using write_frame_sent [OF f assms(2)] Cons.prems(2) by (metis list.set_intros(1))
  obtain mix3 ctl3 where c3: "lk_sent w' = lk_sent w2 @ mix3" "reads_as inflate m mix3 (map le_payload es) ctl3" "set ctl3 \<subseteq> pool w2"
      "lk_done w' = lk_done w2 @ map (\<lambda>e. (again, le_seq e, le_payload e)) es"
    using Cons.IH [OF r(2)] Cons.prems(2) by auto
  have "reads_as inflate m (map SentFrame ctl1 @ mix2 @ mix3) ([] @ [le_payload e] @ map le_payload es) (ctl1 @ ctl2 @ ctl3)"
    by (intro reads_as_append reads_as_control c2(3) c3(2))
  moreover have "pool w2 \<subseteq> pool w" "lk_done w2 = lk_done w @ [(again, le_seq e, le_payload e)]"
    using write_reliable_frame [OF r(1)] interleave_facts [OF i] by auto
  ultimately show ?case using c1 c2 c3 sent2
    by (intro exI [of _ "map SentFrame ctl1 @ mix2 @ mix3"] exI [of _ "ctl1 @ ctl2 @ ctl3"]) auto
qed

text \<open>A toy compressor for runs of one byte.\<close>

definition run_deflate :: "bytes \<Rightarrow> bytes option" where
  "run_deflate p = (if length p < 65536 \<and> p = replicate (length p) 7 then Some [of_nat (length p div 256), of_nat (length p mod 256)] else None)"

definition run_inflate :: "bytes \<Rightarrow> bytes option" where
  "run_inflate z = (case z of [a, b] \<Rightarrow> Some (replicate (unat a * 256 + unat b) 7) | _ \<Rightarrow> None)"

lemma run_inflates: "inflates run_deflate run_inflate"
proof -
  have "run_inflate z = Some p" if d: "run_deflate p = Some z" for p z
  proof -
    have p: "length p < 65536" "p = replicate (length p) 7" "z = [of_nat (length p div 256), of_nat (length p mod 256)]"
      using d by (auto simp: run_deflate_def split: if_splits)
    have "unat (of_nat n :: u8) = n" if "n < 256" for n using that by (simp add: unat_of_nat take_bit_eq_mod)
    then have "unat (of_nat (length p div 256) :: u8) = length p div 256" "unat (of_nat (length p mod 256) :: u8) = length p mod 256"
      using p(1) by simp_all
    then have "run_inflate z = Some (replicate (length p) 7)" by (simp add: run_inflate_def p(3))
    then show ?thesis using p(2) by simp
  qed
  then show ?thesis by (simp add: inflates_def)
qed

lemma writer_stream_reassembles_witness:
  "let es = [\<lparr>le_seq = 1, le_payload = replicate 300 7\<rparr>, \<lparr>le_seq = 2, le_payload = [1, 2]\<rparr>];
       (w, res) = write_entries run_deflate False es (new_writer True (new_session_proto 1 0 10)
         [\<lparr>we_ok = True, we_now = 5, we_posts = [[9]], we_ops = [], we_rewrite = None, we_stop = False\<rparr>])
   in res = WriteOk \<and> length (lk_sent w) = 3 \<and> (\<exists>ctl. reads_as run_inflate 1024 (lk_sent w) (map le_payload es) ctl)"
proof -
  let ?es = "[\<lparr>le_seq = 1, le_payload = replicate 300 7\<rparr>, \<lparr>le_seq = 2, le_payload = [1, 2]\<rparr>]"
  let ?w = "new_writer True (new_session_proto 1 0 10)
         [\<lparr>we_ok = True, we_now = 5, we_posts = [[9]], we_ops = [], we_rewrite = None, we_stop = False\<rparr>]"
  obtain w res where w: "write_entries run_deflate False ?es ?w = (w, res)" by fastforce
  have z: "compressed_form run_deflate True (replicate 300 7) = ([1, 44], True)"
    by (simp add: compressed_form_def run_deflate_def min_down_compress_size_def)
  have small: "compressed_form run_deflate True [1, 2] = ([1, 2], False)" by (simp add: compressed_form_def min_down_compress_size_def)
  have u: "\<exists>u. split_frame [1, 44] True 1 unit_size_default = Inr [u]" by (simp add: split_frame_def unit_size_default_def Let_def)
  then obtain u where "split_frame [1, 44] True 1 unit_size_default = Inr [u]" by blast
  then have u: "split_frame [1, 44] True 1 32768 = Inr [u]" by (simp add: unit_size_default_def)
  have "snd (write_entries run_deflate False ?es ?w) = WriteOk \<and> length (lk_sent (fst (write_entries run_deflate False ?es ?w))) = 3"
    by (simp add: new_writer_def interleave_control_def take_control_def write_reliable_def write_frame_def z small u next_frame_id_def
        transport_write_def post_control_def queue_control_def kick_def control_queue_depth_def note_progress_def Let_def
        unit_size_default_def)
  then have res: "res = WriteOk" "length (lk_sent w) = 3" using w by simp_all
  have "\<forall>e \<in> set ?es. frame_fits 1024 (le_payload e)" by (simp add: frame_fits_def)
  from writer_stream_reassembles [OF w [unfolded res(1)] run_inflates this]
  obtain mix ctl where m: "lk_sent w = lk_sent ?w @ mix" "reads_as run_inflate 1024 mix (map le_payload ?es) ctl" by blast
  have "lk_sent w = mix" using m(1) by (simp add: new_writer_def)
  then have "\<exists>ctl. reads_as run_inflate 1024 (lk_sent w) (map le_payload ?es) ctl" using m(2) by blast
  then show ?thesis unfolding Let_def w prod.case using res by blast
qed

section \<open>Nothing is skipped\<close>

lemma log_frame_acked:
  assumes "log_frame build mark p = (p', res)" and "\<And>seq q. sn_acked (sp_down (mark seq q)) = sn_acked (sp_down q)"
  shows "sn_acked (sp_down p') = sn_acked (sp_down p)"
  using assms by (auto simp: log_frame_def Let_def sender_append_def sender_append_entry_def split: sum.splits if_splits)

lemma elide_acked: "sn_acked (fst (sender_elide s seq b)) = sn_acked s"
  by (auto simp: sender_elide_def sender_elide_from_def Let_def split: sum.splits option.splits)

lemma push_audience_acked:
  assumes "push_audience a p = (p', res)" shows "sn_acked (sp_down p') = sn_acked (sp_down p)"
proof -
  have app: "log_frame (\<lambda>seq ack. new_audience seq ack a)
        (\<lambda>seq p. p\<lparr>sp_aud_seq := seq, sp_aud_gen := au_gen a, sp_aud_sent_gen := 0\<rparr>) q = (q', r) \<Longrightarrow>
      sn_acked (sp_down q') = sn_acked (sp_down q)" for q q' r
    by (erule log_frame_acked) simp
  have el: "sender_elide s seq b = (d, e) \<Longrightarrow> sn_acked d = sn_acked s" for s seq b d e using elide_acked [of s seq b] by simp
  show ?thesis using assms
    by (auto simp: push_audience_def Let_def clear_audience_def dest!: app el split: if_splits sum.splits prod.splits option.splits)
qed

lemma proto_ok_step:
  assumes "proto_ok p" and "room p" and "valid_push op" and "proto_step op (p, t) = (p', t')"
  shows "proto_ok p'" and "unat (sn_next (sp_down p')) \<le> Suc (unat (sn_next (sp_down p)))"
    and "sn_acked (sp_down p) \<le> sn_acked (sp_down p')"
proof -
  have "proto_ok p' \<and> unat (sn_next (sp_down p')) \<le> Suc (unat (sn_next (sp_down p))) \<and> sn_acked (sp_down p) \<le> sn_acked (sp_down p')"
  proof (cases op)
    case (PAccept seq b)
    then obtain r where "p' = p\<lparr>sp_up := r\<rparr>" using assms(4) by (auto simp: proto_accept_def split: prod.splits)
    then show ?thesis using assms(1) by (simp add: proto_ok_def carries_def)
  next
    case (PAck n)
    obtain q applied where q: "ack_down n p = (q, applied)" by (cases "ack_down n p")
    then have "p' = q" using assms(4) PAck by simp
    moreover have "sn_acked (sp_down p) \<le> sn_acked (sp_down q)"
      using ack_down_frame(1) [OF assms(1) q] sender_ack_inv(2) [of "sp_down p" n] assms(1)
      by (simp add: proto_ok_def sender_full_inv ack_target_def)
    ultimately show ?thesis using proto_ok_ack [OF assms(1) q] by simp
  next
    case PTake
    then have "p' = p \<or> p' = p\<lparr>sp_aud_resend := None\<rparr>"
      using assms(4) by (auto simp: take_audience_resend_def split: option.splits prod.splits)
    then show ?thesis
    proof
      assume p': "p' = p\<lparr>sp_aud_resend := None\<rparr>"
      have "carries p' = carries p" by (simp add: p' carries_def)
      then show ?thesis using assms(1) by (simp add: proto_ok_def p')
    qed (use assms(1) in simp)
  next
    case (PDispatch r f w)
    obtain res where d: "dispatch_request r f w p = (p', res)" using assms(4) PDispatch by (cases "dispatch_request r f w p") simp
    have "sn_acked (sp_down p') = sn_acked (sp_down p)" using d unfolding dispatch_request_def by (rule log_frame_acked) simp
    then show ?thesis using proto_ok_dispatch [OF assms(1,2) d] by simp
  next
    case (PWritten now seq b)
    then have p': "p' = note_written now seq b p" using assms(4) by simp
    note w = written_facts [where p = p and now = now and seq = seq and b = b, folded p']
    then show ?thesis using assms(1) by (simp add: proto_ok_def carries_def w(1-7))
  next
    case (PPush a)
    obtain res where d: "push_audience a p = (p', res)" using assms(4) PPush by (cases "push_audience a p") simp
    have "audience_validate a = None" using assms(3) PPush by (simp add: valid_push_def)
    then show ?thesis using proto_ok_push [OF assms(1,2) _ d] push_audience_acked [OF d] by simp
  next
    case (PExpire now)
    have "p' = p\<lparr>sp_req_acks := filter (\<lambda>(seq, ra). \<not> request_expired now ra) (sp_req_acks p)\<rparr>"
      using assms(4) PExpire by (simp add: expire_requests_def)
    moreover from this have "carries p' = carries p" by (simp add: carries_def)
    ultimately show ?thesis using assms(1) by (auto simp: proto_ok_def)
  qed
  then show "proto_ok p'" "unat (sn_next (sp_down p')) \<le> Suc (unat (sn_next (sp_down p)))"
    "sn_acked (sp_down p) \<le> sn_acked (sp_down p')" by blast+
qed

lemma proto_run_ok:
  "proto_ok p \<Longrightarrow> list_all valid_push ops \<Longrightarrow> unat (sn_next (sp_down p)) + length ops < 2 ^ 64 \<Longrightarrow>
   proto_ok (fst (proto_run ops (p, t))) \<and>
   unat (sn_next (sp_down (fst (proto_run ops (p, t))))) \<le> unat (sn_next (sp_down p)) + length ops \<and>
   sn_acked (sp_down p) \<le> sn_acked (sp_down (fst (proto_run ops (p, t))))"
proof (induction ops arbitrary: p t)
  case Nil
  then show ?case by (simp add: proto_run_def)
next
  case (Cons op ops)
  obtain p1 t1 where s: "proto_step op (p, t) = (p1, t1)" by fastforce
  have "room p" using Cons.prems(3) by (simp add: room_def)
  note step = proto_ok_step [OF Cons.prems(1) this _ s]
  have "unat (sn_next (sp_down p1)) + length ops < 2 ^ 64" using step(2) Cons.prems(2,3) by simp
  then show ?case using Cons.IH [OF step(1), of t1] step Cons.prems(2) s by (auto simp: proto_run_def)
qed

text \<open>The room left in the sequence space for what the surroundings still do.\<close>

definition planned :: "link \<Rightarrow> nat" where "planned w = sum_list (map (\<lambda>e. length (we_ops e)) (lk_script w))"

definition link_ok :: "nat \<Rightarrow> link \<Rightarrow> bool" where
  "link_ok later w \<longleftrightarrow> proto_ok (lk_proto w) \<and> unat (sn_next (sp_down (lk_proto w))) + planned w + later < 2 ^ 64 \<and>
     (\<forall>e \<in> set (lk_script w). list_all valid_push (we_ops e))"

definition acked_of :: "link \<Rightarrow> u64" where "acked_of w = sn_acked (sp_down (lk_proto w))"

text \<open>Every number up to the watermark was written, is acknowledged, or lies below a rewrite.\<close>

definition covered :: "u64 \<Rightarrow> link \<Rightarrow> bool" where
  "covered start w \<longleftrightarrow> (\<forall>n. start < n \<and> n \<le> wr_written w \<longrightarrow>
     n \<in> (\<lambda>(again, seq, payload). seq) ` set (lk_done w) \<or> n \<le> acked_of w \<or> (\<exists>seq payload. (True, seq, payload) \<in> set (lk_done w) \<and> n < seq))"

definition quiet :: "nat \<Rightarrow> link \<Rightarrow> link \<Rightarrow> bool" where
  "quiet later w w' \<longleftrightarrow> lk_done w' = lk_done w \<and> wr_written w' = wr_written w \<and>
     (link_ok later w \<longrightarrow> link_ok later w' \<and> acked_of w \<le> acked_of w')"

lemma quiet_refl: "quiet later w w" by (simp add: quiet_def)

lemma quiet_trans: "quiet later a b \<Longrightarrow> quiet later b c \<Longrightarrow> quiet later a c"
  unfolding quiet_def by (metis order.trans)

lemma quiet_same:
  "lk_done w' = lk_done w \<Longrightarrow> wr_written w' = wr_written w \<Longrightarrow> lk_proto w' = lk_proto w \<Longrightarrow> lk_script w' = lk_script w \<Longrightarrow> quiet later w w'"
  by (simp add: quiet_def link_ok_def planned_def acked_of_def)

lemma quiet_env:
  assumes "lk_done w' = lk_done w" and "wr_written w' = wr_written w" and "lk_proto w' = proto_env ops (lk_proto w)"
    and "lk_script w' = lk_script w" and "list_all valid_push ops" and "link_ok (length ops + later) w"
  shows "link_ok later w'" and "acked_of w \<le> acked_of w'"
proof -
  have "unat (sn_next (sp_down (lk_proto w))) + length ops < 2 ^ 64" using assms(6) by (simp add: link_ok_def)
  then show "link_ok later w'" "acked_of w \<le> acked_of w'"
    using proto_run_ok [of "lk_proto w" ops "[]"] assms by (auto simp: link_ok_def planned_def acked_of_def proto_env_def)
qed

lemma quiet_transport: assumes "transport_write x w = (w', ok)" shows "quiet later w w'"
proof (cases "lk_script w")
  case Nil
  then show ?thesis using assms by (auto simp: transport_write_def intro: quiet_same)
next
  case (Cons e es)
  let ?v = "w\<lparr>lk_script := es\<rparr>"
  have w': "lk_script w' = es" "lk_proto w' = proto_env (we_ops e) (lk_proto w)" "lk_done w' = lk_done w" "wr_written w' = wr_written w"
    using assms Cons by (auto simp: transport_write_def Let_def fold_post_control writer_rewrite_def split: option.splits)
  have "link_ok later w' \<and> acked_of w \<le> acked_of w'" if "link_ok later w"
  proof -
    have "list_all valid_push (we_ops e)" "link_ok (length (we_ops e) + later) ?v"
      using that Cons by (auto simp: link_ok_def planned_def)
    from quiet_env [of w' ?v "we_ops e", OF _ _ _ _ this] show ?thesis using w' by (simp add: acked_of_def)
  qed
  then show ?thesis using w' by (simp add: quiet_def)
qed

lemma quiet_interleave: assumes "interleave_control w = (w', ok)" shows "quiet later w w'"
proof (cases "wr_control w")
  case (Cons c q)
  then have "transport_write (SentFrame c) (w\<lparr>wr_control := q\<rparr>) = (w', ok)" using assms by (simp add: interleave_control_def take_control_def)
  moreover have "quiet later w (w\<lparr>wr_control := q\<rparr>)" by (rule quiet_same) simp_all
  ultimately show ?thesis using quiet_trans quiet_transport by blast
qed (use assms in \<open>simp add: interleave_control_def take_control_def quiet_refl\<close>)

lemma quiet_units: "write_units us later w = (w', ok) \<Longrightarrow> quiet k w w'"
proof (induction us later w rule: write_units.induct)
  case (2 u us later w)
  obtain w1 ok1 where i: "(if later then interleave_control w else (w, True)) = (w1, ok1)" by fastforce
  then have q1: "quiet k w w1" using quiet_interleave [of w w1 ok1] by (auto simp: quiet_refl split: if_splits)
  obtain w2 ok2 where t: "transport_write (SentUnit u) w1 = (w2, ok2)" by fastforce
  show ?case
  proof (cases "ok1 \<and> ok2")
    case True
    then show ?thesis using "2.IH" [of w1 True w2 True] "2.prems" i t quiet_trans [OF quiet_trans [OF q1 quiet_transport [OF t]]] by auto
  next
    case False
    then show ?thesis using "2.prems" i t q1 quiet_trans [OF q1 quiet_transport [OF t]] by (auto split: bool.splits)
  qed
qed (simp add: quiet_refl)

lemma quiet_frame: assumes "write_frame deflate p w = (w', ok)" shows "quiet k w w'"
proof -
  obtain out c where form: "compressed_form deflate (wr_deflate w) p = (out, c)" by fastforce
  obtain w1 ok1 where i: "interleave_control w = (w1, ok1)" by fastforce
  let ?w2 = "w1\<lparr>wr_frame_id := wr_frame_id w1 + 1\<rparr>"
  have "quiet k w w1" by (rule quiet_interleave [OF i])
  moreover have "quiet k w1 ?w2" by (rule quiet_same) simp_all
  ultimately have q: "quiet k w w1" "quiet k w ?w2" using quiet_trans by blast+
  consider (Whole) "transport_write (SentFrame out) w = (w', ok)" | (Cut) "w' = w1" | (Bad) "w' = ?w2"
    | (Units) us where "write_units us False ?w2 = (w', ok)"
    using assms form i by (cases ok1) (auto simp: write_frame_def next_frame_id_def split: if_splits sum.splits)
  then show ?thesis
  proof cases
    case Whole
    then show ?thesis by (rule quiet_transport)
  next
    case Units
    show ?thesis by (rule quiet_trans [OF q(2) quiet_units [OF Units]])
  qed (use q in simp_all)
qed

text \<open>Entries whose numbers leave no gap above what is written or acknowledged.\<close>

fun linked :: "nat \<Rightarrow> log_entry list \<Rightarrow> bool" where
  "linked b [] = True"
| "linked b (e # es) = (unat (le_seq e) \<le> Suc b \<and> linked (max b (unat (le_seq e))) es)"

lemma linked_mono: "linked b es \<Longrightarrow> b \<le> b' \<Longrightarrow> linked b' es"
proof (induction es arbitrary: b b')
  case (Cons e es)
  then show ?case using Cons.IH [of "max b (unat (le_seq e))" "max b' (unat (le_seq e))"] by simp
qed simp

lemma linked_take: "linked b es \<Longrightarrow> linked b (take k es)"
  by (induction es arbitrary: b k) (auto simp: take_Cons split: nat.split)

lemma linked_filter:
  "map (unat \<circ> le_seq) es = [a..<b] \<Longrightarrow> linked (max (unat written) (a - 1)) (filter (\<lambda>e. le_seq e > written) es)"
proof (induction es arbitrary: a)
  case (Cons e es)
  then have e: "unat (le_seq e) = a" "map (unat \<circ> le_seq) es = [Suc a..<b]" by (auto simp: Cons_eq_upt comp_def)
  have IH: "linked (max (unat written) a) (filter (\<lambda>e. le_seq e > written) es)" using Cons.IH [OF e(2)] by simp
  show ?case
  proof (cases "written < le_seq e")
    case True
    then have "unat written < a" using e(1) by (simp add: word_less_nat_alt)
    then show ?thesis using True e(1) linked_mono [OF IH] by simp
  next
    case False
    then have "a \<le> unat written" using e(1) by (simp add: word_less_nat_alt)
    then show ?thesis using False linked_mono [OF IH] by simp
  qed
qed simp

lemma log_numbers:
  assumes "proto_ok p"
  shows "map (unat \<circ> le_seq) (sn_log (sp_down p)) = [Suc (unat (sn_acked (sp_down p)))..<Suc (unat (sn_next (sp_down p)))]"
proof -
  have "sender_full (sp_down p)" using assms by (simp add: proto_ok_def)
  moreover from this have "unat (sn_acked (sp_down p)) \<le> unat (sn_next (sp_down p))"
    by (simp add: sender_full_def sender_inv_def word_le_nat_alt)
  ultimately show ?thesis by (auto simp: sender_full_def sender_inv_def)
qed

lemma linked_entries_after:
  assumes "proto_ok p" shows "linked (max (unat written) (unat (sn_acked (sp_down p)))) (entries_after written p)"
  using linked_filter [OF log_numbers [OF assms], of written] by (simp add: entries_after_def sender_entries_def)

lemma oldest_loop_take: "\<exists>k. oldest_loop acked m b es out n = out @ take k (filter (\<lambda>e. \<not> le_seq e \<le> acked) es)"
proof (induction acked m b es out n rule: oldest_loop.induct)
  case (2 acked m b e es out n)
  show ?case
  proof (cases "le_seq e \<le> acked \<or> int (length out) \<ge> m \<or> (out \<noteq> [] \<and> n + int (length (le_payload e)) > b)")
    case True
    then show ?thesis using "2.IH"(1) by (cases "le_seq e \<le> acked") (auto intro: exI [of _ 0])
  next
    case False
    then obtain k where "oldest_loop acked m b es (out @ [e]) (n + int (length (le_payload e))) =
        (out @ [e]) @ take k (filter (\<lambda>e. \<not> le_seq e \<le> acked) es)" using "2.IH"(2) by blast
    then show ?thesis using False by (intro exI [of _ "Suc k"]) auto
  qed
qed simp

lemma linked_oldest:
  assumes "proto_ok p" shows "linked (unat (sn_acked (sp_down p))) (oldest_unacked m b p)"
proof -
  obtain k where k: "oldest_unacked m b p = take k (filter (\<lambda>e. \<not> le_seq e \<le> sn_acked (sp_down p)) (sn_log (sp_down p)))"
    using oldest_loop_take [of "sn_acked (sp_down p)" m b "sn_log (sp_down p)" "[]" 0]
    by (auto simp: oldest_unacked_def sender_acked_def sender_entries_def)
  have "linked (unat (sn_acked (sp_down p))) (filter (\<lambda>e. sn_acked (sp_down p) < le_seq e) (sn_log (sp_down p)))"
    using linked_filter [OF log_numbers [OF assms], of "sn_acked (sp_down p)"] by simp
  then show ?thesis unfolding k using linked_take by (simp add: not_le)
qed

lemma covered_quiet:
  assumes "covered start w" and "quiet later w w'" and "link_ok later w" shows "covered start w'"
proof -
  have q: "lk_done w' = lk_done w" "wr_written w' = wr_written w" "acked_of w \<le> acked_of w'"
    using assms(2,3) by (simp_all add: quiet_def)
  show ?thesis unfolding covered_def q(1,2)
  proof (intro allI impI)
    fix n assume "start < n \<and> n \<le> wr_written w"
    then have "n \<in> (\<lambda>(again, seq, payload). seq) ` set (lk_done w) \<or> n \<le> acked_of w \<or>
        (\<exists>seq payload. (True, seq, payload) \<in> set (lk_done w) \<and> n < seq)"
      using assms(1) unfolding covered_def by (elim allE impE)
    then show "n \<in> (\<lambda>(again, seq, payload). seq) ` set (lk_done w) \<or> n \<le> acked_of w' \<or>
        (\<exists>seq payload. (True, seq, payload) \<in> set (lk_done w) \<and> n < seq)"
      using order.trans [OF _ q(3), of n] by (elim disjE) simp_all
  qed
qed

text \<open>A completed entry moves the watermark over nothing but what is acknowledged.\<close>

lemma write_reliable_covered:
  assumes "write_reliable deflate again e w = (w', ok)" and "link_ok later w" and "covered start w"
    and "again \<or> unat (le_seq e) \<le> Suc (max (unat (wr_written w)) (unat (acked_of w)))"
  shows "link_ok later w'" and "covered start w'" and "acked_of w \<le> acked_of w'" and "wr_written w \<le> wr_written w'"
    and "ok \<Longrightarrow> le_seq e \<le> wr_written w'"
proof -
  obtain w1 ok1 where f: "write_frame deflate (le_payload e) w = (w1, ok1)" by fastforce
  note q = quiet_frame [OF f, of later]
  have ok1: "link_ok later w1" "acked_of w \<le> acked_of w1" "wr_written w1 = wr_written w" using q assms(2) by (auto simp: quiet_def)
  have cov1: "covered start w1" by (rule covered_quiet [OF assms(3) q assms(2)])
  have "link_ok later w' \<and> covered start w' \<and> acked_of w \<le> acked_of w' \<and> wr_written w \<le> wr_written w' \<and> (ok \<longrightarrow> le_seq e \<le> wr_written w')"
  proof (cases ok1)
    case False
    then have "w' = w1" "\<not> ok" using assms(1) f by (auto simp: write_reliable_def)
    then show ?thesis using ok1 cov1 by simp
  next
    case True
    let ?p = "note_written (lk_now w1) (le_seq e) (le_payload e) (lk_proto w1)"
    have w': "lk_proto w' = ?p" "lk_script w' = lk_script w1" "lk_done w' = lk_done w1 @ [(again, le_seq e, le_payload e)]"
      "wr_written w' = max (wr_written w1) (le_seq e)"
      using assms(1) f True by (auto simp: write_reliable_def Let_def note_progress_def max_def)
    note wf = written_facts [where p = "lk_proto w1" and now = "lk_now w1" and seq = "le_seq e" and b = "le_payload e"]
    have "carries ?p = carries (lk_proto w1)" by (simp add: carries_def wf)
    then have "proto_ok ?p" using ok1(1) by (simp add: link_ok_def proto_ok_def wf(1-7))
    then have lk: "link_ok later w'" using ok1(1) w' by (simp add: link_ok_def planned_def wf)
    have acked: "acked_of w' = acked_of w1" by (simp add: acked_of_def w' wf)
    have "n \<in> (\<lambda>(again, seq, payload). seq) ` set (lk_done w') \<or> n \<le> acked_of w' \<or>
        (\<exists>seq payload. (True, seq, payload) \<in> set (lk_done w') \<and> n < seq)" if n: "start < n" "n \<le> wr_written w'" for n
    proof (cases "n \<le> wr_written w1")
      case True
      then have "n \<in> (\<lambda>(again, seq, payload). seq) ` set (lk_done w1) \<or> n \<le> acked_of w1 \<or>
          (\<exists>seq payload. (True, seq, payload) \<in> set (lk_done w1) \<and> n < seq)"
        using cov1 n(1) unfolding covered_def by blast
      then show ?thesis unfolding w'(3) acked set_append image_Un by blast
    next
      case False
      then have up: "wr_written w1 < n" "n \<le> le_seq e" using n(2) by (auto simp: w'(4) max_def split: if_splits)
      then consider "n = le_seq e" | "again" "n < le_seq e"
        | "\<not> again" "n < le_seq e" "unat (le_seq e) \<le> Suc (max (unat (wr_written w)) (unat (acked_of w)))"
        using assms(4) le_neq_trans [OF up(2)] by blast
      then show ?thesis
      proof cases
        case 3
        then have "unat n \<le> max (unat (wr_written w)) (unat (acked_of w))" by (simp add: word_less_nat_alt)
        moreover have "unat (wr_written w) < unat n" using up(1) ok1(3) by (simp add: word_less_nat_alt)
        ultimately have "n \<le> acked_of w" by (simp add: word_le_nat_alt)
        then have "n \<le> acked_of w'" unfolding acked using ok1(2) by (rule order.trans)
        then show ?thesis by blast
      next
        case 1
        then have "n \<in> (\<lambda>(again, seq, payload). seq) ` set (lk_done w')" unfolding w'(3) by simp
        then show ?thesis by blast
      next
        case 2
        then have "(True, le_seq e, le_payload e) \<in> set (lk_done w')" unfolding w'(3) by simp
        then show ?thesis using 2(2) by blast
      qed
    qed
    then have "covered start w'" unfolding covered_def by (intro allI impI) (elim conjE)
    then show ?thesis using lk ok1(2,3) acked w'(4) by simp
  qed
  then show "link_ok later w'" "covered start w'" "acked_of w \<le> acked_of w'" "wr_written w \<le> wr_written w'"
    "ok \<Longrightarrow> le_seq e \<le> wr_written w'" by simp_all
qed

lemma write_entries_covered:
  "write_entries deflate again es w = (w', res) \<Longrightarrow> link_ok later w \<Longrightarrow> covered start w \<Longrightarrow>
   again \<or> linked (max (unat (wr_written w)) (unat (acked_of w))) es \<Longrightarrow> link_ok later w' \<and> covered start w'"
proof (induction deflate again es w rule: write_entries.induct)
  case (2 deflate again e es w)
  obtain w1 ok1 where i: "interleave_control w = (w1, ok1)" by fastforce
  obtain w2 ok2 where r: "write_reliable deflate again e w1 = (w2, ok2)" by fastforce
  note q = quiet_interleave [OF i, of later]
  have s1: "link_ok later w1" "acked_of w \<le> acked_of w1" "wr_written w1 = wr_written w" using q "2.prems"(2) by (auto simp: quiet_def)
  have cov1: "covered start w1" by (rule covered_quiet [OF "2.prems"(3) q "2.prems"(2)])
  have le1: "max (unat (wr_written w)) (unat (acked_of w)) \<le> max (unat (wr_written w1)) (unat (acked_of w1))"
    using s1(2,3) by (simp add: word_le_nat_alt)
  then have first: "again \<or> unat (le_seq e) \<le> Suc (max (unat (wr_written w1)) (unat (acked_of w1)))" using "2.prems"(4) by auto
  note s2 = write_reliable_covered [OF r s1(1) cov1 first]
  consider "w' = w" | "w' = w1" | "w' = w2" | (More) "\<not> lk_stopped w" "ok1" "ok2" "write_entries deflate again es w2 = (w', res)"
    using "2.prems"(1) i r by (auto split: if_splits bool.splits)
  then show ?case
  proof cases
    case More
    have "linked (max (unat (wr_written w2)) (unat (acked_of w2))) es" if "\<not> again"
    proof -
      have "linked (max (max (unat (wr_written w)) (unat (acked_of w))) (unat (le_seq e))) es" using "2.prems"(4) that by simp
      moreover have "max (max (unat (wr_written w)) (unat (acked_of w))) (unat (le_seq e)) \<le> max (unat (wr_written w2)) (unat (acked_of w2))"
        using order.trans [OF s1(2) s2(3)] s2(4) [unfolded s1(3)] s2(5) [OF More(3)]
        unfolding word_le_nat_alt by linarith
      ultimately show ?thesis by (rule linked_mono)
    qed
    then show ?thesis using "2.IH" [OF More(1) i [symmetric] _ r [symmetric]] More s2(1,2) by auto
  qed (use s1 s2 cov1 "2.prems" in simp_all)
qed simp

lemma link_ok_same: "lk_proto w' = lk_proto w \<Longrightarrow> lk_script w' = lk_script w \<Longrightarrow> link_ok later w' = link_ok later w"
  by (simp add: link_ok_def planned_def)

lemma covered_same: "lk_proto w' = lk_proto w \<Longrightarrow> lk_done w' = lk_done w \<Longrightarrow> wr_written w' = wr_written w \<Longrightarrow> covered start w' = covered start w"
  by (simp add: covered_def acked_of_def)

lemma stopped_same: "link_ok later (w\<lparr>lk_stopped := b\<rparr>) = link_ok later w" "covered start (w\<lparr>lk_stopped := b\<rparr>) = covered start w"
  by (rule link_ok_same covered_same; simp)+

lemma writer_fail_covered:
  "writer_fail (w, e) = (w', go) \<Longrightarrow> link_ok later w \<and> covered start w \<Longrightarrow> link_ok later w' \<and> covered start w'"
  by (cases e) (auto simp: writer_fail_def stopped_same)

lemma entries_keep:
  assumes "write_entries deflate again es v = (v1, res)" and "writer_fail (v1, res) = (v', g)"
    and "lk_proto v = lk_proto w" "lk_script v = lk_script w" "lk_done v = lk_done w" "wr_written v = wr_written w"
    and "again \<or> linked (max (unat (wr_written w)) (unat (acked_of w))) es" and "link_ok later w" and "covered start w"
  shows "link_ok later v' \<and> covered start v'"
proof -
  have lk: "link_ok later v" using assms by (simp add: link_ok_same [of v w])
  have cov: "covered start v" using assms by (simp add: covered_same [of v w])
  have "again \<or> linked (max (unat (wr_written v)) (unat (acked_of v))) es" using assms by (simp add: acked_of_def)
  from writer_fail_covered [OF assms(2) write_entries_covered [OF assms(1) lk cov this]] show ?thesis .
qed

lemma idle_step_covered:
  assumes "link_ok (length (ie_ops e) + later) w" and "covered start w" and "list_all valid_push (ie_ops e)"
  shows "link_ok later (idle_step e w)" and "covered start (idle_step e w)"
proof -
  let ?v = "idle_step e w"
  have v: "lk_done ?v = lk_done w" "wr_written ?v = wr_written w" "lk_proto ?v = proto_env (ie_ops e) (lk_proto w)" "lk_script ?v = lk_script w"
    by (auto simp: idle_step_def Let_def fold_post_control kick_def writer_retransmit_def writer_rewrite_def split: option.split)
  note q = quiet_env [OF v assms(3,1)]
  show "link_ok later ?v" by (rule q(1))
  have "link_ok later w" using assms(1) by (simp add: link_ok_def)
  moreover have "quiet later w ?v" using q v by (simp add: quiet_def)
  ultimately show "covered start ?v" using covered_quiet [OF assms(2)] by blast
qed

lemma writer_select_covered:
  assumes "writer_select deflate ch w = (w', go)" and "link_ok later w" and "covered start w"
  shows "link_ok later w' \<and> covered start w'"
proof -
  have ok: "proto_ok (lk_proto w)" using assms(2) by (simp add: link_ok_def)
  consider (Same) "lk_proto w' = lk_proto w" "lk_script w' = lk_script w" "lk_done w' = lk_done w" "wr_written w' = wr_written w"
    | (Replay) "writer_fail (replay deflate (w\<lparr>wr_retransmit := False\<rparr>)) = (w', go)"
    | (Rewrite) e where "writer_fail (write_entries deflate True [e] (w\<lparr>wr_rewrite := None\<rparr>)) = (w', go)"
    using assms(1) unfolding writer_select_def
    by (cases ch; cases "wr_retransmit w"; cases "wr_rewrite w"; cases "proto_entry (the (wr_rewrite w)) (lk_proto w)")
      (auto simp del: write_entries.simps)
  then show ?thesis
  proof cases
    case Same
    then show ?thesis using assms(2,3) by (simp add: link_ok_same [of w' w] covered_same [of w' w])
  next
    case Replay
    let ?os = "oldest_unacked retransmit_batch retransmit_batch_bytes (lk_proto w)"
    obtain v1 res where e: "write_entries deflate False ?os (w\<lparr>wr_retransmit := False\<rparr>) = (v1, res)" by fastforce
    then have "writer_fail (v1, res) = (w', go)" using Replay by (simp add: replay_def)
    moreover have "linked (max (unat (wr_written w)) (unat (acked_of w))) ?os"
      using linked_mono [OF linked_oldest [OF ok]] by (simp add: acked_of_def)
    ultimately show ?thesis using entries_keep [OF e _ _ _ _ _ _ assms(2,3)] by simp
  next
    case Rewrite
    obtain v1 res where e: "write_entries deflate True [e] (w\<lparr>wr_rewrite := None\<rparr>) = (v1, res)" by fastforce
    then have "writer_fail (v1, res) = (w', go)" using Rewrite by simp
    then show ?thesis using entries_keep [OF e _ _ _ _ _ _ assms(2,3)] by simp
  qed
qed

lemma writer_turn_covered:
  assumes "writer_turn deflate b ch w = (w', go)" and "link_ok (length (ie_ops b) + later) w" and "covered start w"
    and "list_all valid_push (ie_ops b)"
  shows "link_ok later w' \<and> covered start w'"
proof -
  have lk: "link_ok later w" using assms(2) by (simp add: link_ok_def)
  have ok: "proto_ok (lk_proto w)" using lk by (simp add: link_ok_def)
  show ?thesis
  proof (cases "lk_stopped w")
    case True
    then show ?thesis using assms(1,3) lk by (simp add: writer_turn_def)
  next
    case running: False
    show ?thesis
    proof (cases "wr_control w")
      case (Cons c q)
      let ?v = "w\<lparr>wr_control := q\<rparr>"
      obtain v1 ok1 where t: "write_control c ?v = (v1, ok1)" by fastforce
      then have fail: "writer_fail (v1, if ok1 then WriteOk else WriteFailed) = (w', go)"
        using assms(1) running Cons by (simp add: writer_turn_def take_control_def)
      have "quiet later w ?v" by (rule quiet_same) simp_all
      then have q: "quiet later w v1" by (rule quiet_trans [OF _ quiet_transport [OF t [unfolded write_control_def]]])
      then have "link_ok later v1" using lk by (simp add: quiet_def)
      then show ?thesis using writer_fail_covered [OF fail] covered_quiet [OF assms(3) q lk] by blast
    next
      case Nil
      let ?es = "entries_after (wr_written w) (lk_proto w)"
      show ?thesis
      proof (cases "?es = []")
        case False
        obtain v1 res where e: "write_entries deflate False ?es w = (v1, res)" by fastforce
        then have "writer_fail (v1, res) = (w', go)" using assms(1) running Nil False by (simp add: writer_turn_def take_control_def)
        from entries_keep [OF e this _ _ _ _ _ lk assms(3)] show ?thesis
          using linked_entries_after [OF ok, of "wr_written w"] by (simp add: acked_of_def)
      next
        case True
        then have "writer_select deflate ch (idle_step b w) = (w', go)"
          using assms(1) running Nil by (simp add: writer_turn_def take_control_def)
        then show ?thesis using writer_select_covered idle_step_covered [OF assms(2-4)] by blast
      qed
    qed
  qed
qed

definition idle_ops :: "idle_event \<times> idle_event \<times> wakeup \<Rightarrow> proto_op list" where
  "idle_ops = (\<lambda>(e, blocked, ch). ie_ops e @ ie_ops blocked)"

lemma writer_run_covered:
  "link_ok (length (concat (map idle_ops evs))) w \<Longrightarrow> covered start w \<Longrightarrow> \<forall>x \<in> set evs. list_all valid_push (idle_ops x) \<Longrightarrow>
   covered start (writer_run deflate evs w)"
proof (induction evs arbitrary: w)
  case (Cons x evs)
  obtain e b ch where x: "x = (e, b, ch)" by (cases x)
  let ?rest = "length (concat (map idle_ops evs))"
  have lk: "link_ok (length (ie_ops e) + (length (ie_ops b) + ?rest)) w" using Cons.prems(1) by (simp add: x idle_ops_def add.assoc)
  have valid: "list_all valid_push (ie_ops e)" "list_all valid_push (ie_ops b)" using Cons.prems(3) by (simp_all add: x idle_ops_def)
  note idle = idle_step_covered [OF lk Cons.prems(2) valid(1)]
  obtain w1 go where t: "writer_turn deflate b ch (idle_step e w) = (w1, go)" by fastforce
  have "link_ok ?rest w1 \<and> covered start w1" by (rule writer_turn_covered [OF t idle valid(2)])
  then show ?case using Cons.IH [of w1] Cons.prems(3) t by (cases go) (auto simp: x)
qed simp

text \<open>C12: No entry is skipped. Over every interleaving of the writer with the rest of the hub and every
  pattern of failing writes, a logged entry at or below the writer's watermark was written out on
  this transport, or is acknowledged, or lies below an entry that a rewrite wrote ahead of its turn.\<close>

theorem writer_skips_nothing:
  assumes "proto_run ops (new_session_proto epoch up window, []) = (p, taken)" and "list_all valid_push ops"
    and "\<forall>e \<in> set script. list_all valid_push (we_ops e)" and "\<forall>x \<in> set evs. list_all valid_push (idle_ops x)"
    and "length ops + length (concat (map we_ops script)) + length (concat (map idle_ops evs)) < 2 ^ 64"
    and "writer_run deflate evs (new_writer on p script) = w"
    and "proto_down_acked p < n" and "n \<le> wr_written w"
  shows "n \<in> (\<lambda>(again, seq, payload). seq) ` set (lk_done w) \<or> n \<le> proto_down_acked (lk_proto w) \<or>
    (\<exists>seq payload. (True, seq, payload) \<in> set (lk_done w) \<and> n < seq)"
proof -
  let ?w = "new_writer on p script"
  have hist: "hist_ok ops p taken" using hist_ok_run [OF assms(2) _ assms(1)] assms(5) by simp
  have "planned ?w = length (concat (map we_ops script))" by (simp add: planned_def new_writer_def length_concat comp_def)
  then have "link_ok (length (concat (map idle_ops evs))) ?w"
    using hist assms(3,5) by (simp add: link_ok_def hist_ok_def new_writer_def)
  moreover have "covered (proto_down_acked p) ?w"
    by (simp add: covered_def new_writer_def acked_of_def proto_down_acked_def sender_acked_def)
  ultimately have "covered (proto_down_acked p) w" using writer_run_covered [OF _ _ assms(4)] assms(6) by blast
  then show ?thesis using assms(7,8) by (simp add: covered_def acked_of_def proto_down_acked_def sender_acked_def)
qed

definition calm :: idle_event where
  "calm = \<lparr>ie_posts = [], ie_ops = [], ie_kick = False, ie_retransmit = False, ie_rewrite = None, ie_stop = False\<rparr>"

lemma writer_skips_nothing_witness:
  "let w = writer_run (\<lambda>_. None) [(calm\<lparr>ie_ops := [PDispatch ''r1'' sample_request 0]\<rparr>, calm, OnWake)]
       (new_writer False (new_session_proto 1 0 10) [])
   in wr_written w = 1 \<and> 1 \<in> (\<lambda>(again, seq, payload). seq) ` set (lk_done w)"
proof -
  let ?evs = "[(calm\<lparr>ie_ops := [PDispatch ''r1'' sample_request 0]\<rparr>, calm, OnWake)]"
  let ?w = "writer_run (\<lambda>_. None) ?evs (new_writer False (new_session_proto 1 0 10) [])"
  have run: "proto_run [] (new_session_proto 1 0 10, []) = (new_session_proto 1 0 10, [])" by (simp add: proto_run_def)
  have facts: "wr_written ?w = 1 \<and> proto_down_acked (lk_proto ?w) = 0 \<and> map (\<lambda>(again, seq, payload). again) (lk_done ?w) = [False]" by code_simp
  have start: "proto_down_acked (new_session_proto 1 0 10) < 1" by code_simp
  have "1 \<in> (\<lambda>(again, seq, payload). seq) ` set (lk_done ?w) \<or> 1 \<le> proto_down_acked (lk_proto ?w) \<or>
      (\<exists>seq payload. (True, seq, payload) \<in> set (lk_done ?w) \<and> 1 < seq)"
    by (rule writer_skips_nothing [OF run _ _ _ _ refl start])
      (use facts in \<open>simp_all add: idle_ops_def calm_def valid_push_def\<close>)
  moreover have "(True, seq, payload) \<notin> set (lk_done ?w)" for seq payload using facts by auto
  ultimately show ?thesis using facts unfolding Let_def by auto
qed

lemma proto_entry_seq: "proto_entry seq p = Some e \<Longrightarrow> le_seq e = seq"
  by (auto simp: proto_entry_def sender_entry_def find_Some_iff)

text \<open>The watermark of the writer only moves up.\<close>

lemma written_quiet: "quiet k w w' \<Longrightarrow> wr_written w' = wr_written w \<and> lk_done w' = lk_done w"
  by (simp add: quiet_def)

lemma reliable_written:
  assumes "write_reliable deflate again e w = (w', ok)"
  shows "wr_written w \<le> wr_written w'"
    and "ok \<Longrightarrow> le_seq e \<le> wr_written w' \<and> lk_done w' = lk_done w @ [(again, le_seq e, le_payload e)]"
proof -
  obtain w1 ok1 where f: "write_frame deflate (le_payload e) w = (w1, ok1)" by fastforce
  note q = written_quiet [OF quiet_frame [OF f]]
  show "wr_written w \<le> wr_written w'"
    using assms f q by (auto simp: write_reliable_def note_progress_def Let_def split: bool.splits if_splits)
  show "le_seq e \<le> wr_written w' \<and> lk_done w' = lk_done w @ [(again, le_seq e, le_payload e)]" if "ok"
    using assms f q that by (auto simp: write_reliable_def note_progress_def Let_def split: bool.splits if_splits)
qed

lemma entries_written: "write_entries deflate again es w = (w', r) \<Longrightarrow> wr_written w \<le> wr_written w'"
proof (induction deflate again es w rule: write_entries.induct)
  case (2 deflate again e es w)
  show ?case
  proof (cases "lk_stopped w")
    case False
    obtain w1 ok1 where i: "interleave_control w = (w1, ok1)" by fastforce
    obtain w2 ok2 where t: "write_reliable deflate again e w1 = (w2, ok2)" by fastforce
    have le1: "wr_written w \<le> wr_written w1" using written_quiet [OF quiet_interleave [OF i]] by simp
    have le2: "wr_written w1 \<le> wr_written w2" by (rule reliable_written(1) [OF t])
    show ?thesis
    proof (cases ok1)
      case ok1: True
      show ?thesis
      proof (cases ok2)
        case True
        then have run: "write_entries deflate again es w2 = (w', r)" using 2(2) False i t ok1 by simp
        have "wr_written w2 \<le> wr_written w'" using 2(1) [OF False i [symmetric, unfolded ok1 True] _ t [symmetric, unfolded True]] ok1 True run i t by simp
        then show ?thesis using le1 le2 by (meson order_trans)
      next
        case no: False
        then have "w' = w2" using 2(2) False i t ok1 by simp
        then show ?thesis using le1 le2 by (meson order_trans)
      qed
    next
      case no: False
      then have "w' = w1" using 2(2) False i by simp
      then show ?thesis using le1 by simp
    qed
  qed (use 2 in simp)
qed simp

lemma idle_written: "wr_written (idle_step e w) = wr_written w" "lk_done (idle_step e w) = lk_done w"
  "wr_control w = [] \<Longrightarrow> ie_posts e = [] \<Longrightarrow> wr_control (idle_step e w) = []"
  by (simp_all add: idle_step_def Let_def fold_post_control kick_def writer_retransmit_def writer_rewrite_def split: option.split)

lemma fail_written: "writer_fail (w1, r) = (w', go) \<Longrightarrow> wr_written w' = wr_written w1 \<and> lk_done w' = lk_done w1"
  by (cases r) (auto simp: writer_fail_def)

lemma select_written:
  assumes "writer_select deflate ch w = (w', go)" shows "wr_written w \<le> wr_written w'"
proof (cases ch)
  case OnRetransmit
  obtain w1 r where e: "replay deflate (w\<lparr>wr_retransmit := False\<rparr>) = (w1, r)" by fastforce
  then have "wr_written w \<le> wr_written w1" using entries_written unfolding replay_def by fastforce
  then show ?thesis using assms OnRetransmit e fail_written [of w1 r w' go]
    by (auto simp: writer_select_def split: if_splits)
next
  case OnRewrite
  show ?thesis
  proof (cases "wr_rewrite w")
    case (Some seq)
    show ?thesis
    proof (cases "proto_entry seq (lk_proto w)")
      case entry: (Some e)
      obtain w1 r where e: "write_entries deflate True [e] (w\<lparr>wr_rewrite := None\<rparr>) = (w1, r)" by fastforce
      have "wr_written w \<le> wr_written w1" using entries_written [OF e] by simp
      moreover have "writer_fail (w1, r) = (w', go)"
        using assms OnRewrite Some entry e by (simp add: writer_select_def del: write_entries.simps)
      ultimately show ?thesis using fail_written by fastforce
    qed (use assms OnRewrite Some in \<open>simp add: writer_select_def\<close>, force)
  qed (use assms OnRewrite in \<open>simp add: writer_select_def\<close>)
qed (use assms in \<open>auto simp: writer_select_def\<close>)

lemma turn_written:
  assumes "writer_turn deflate blocked ch w = (w', go)" shows "wr_written w \<le> wr_written w'"
proof (cases "lk_stopped w")
  case False
  show ?thesis
  proof (cases "wr_control w")
    case Nil
    show ?thesis
    proof (cases "entries_after (wr_written w) (lk_proto w) = []")
      case True
      then have "writer_select deflate ch (idle_step blocked w) = (w', go)"
        using assms False Nil by (simp add: writer_turn_def take_control_def)
      then show ?thesis using select_written idle_written by metis
    next
      case rest: False
      obtain w1 r where e: "write_entries deflate False (entries_after (wr_written w) (lk_proto w)) w = (w1, r)" by fastforce
      then have "writer_fail (w1, r) = (w', go)"
        using assms False Nil rest by (simp add: writer_turn_def take_control_def)
      then show ?thesis using entries_written [OF e] fail_written by metis
    qed
  next
    case (Cons c q)
    obtain w1 ok where e: "transport_write (SentFrame c) (w\<lparr>wr_control := q\<rparr>) = (w1, ok)" by fastforce
    then have "writer_fail (w1, if ok then WriteOk else WriteFailed) = (w', go)"
      using assms False Cons by (simp add: writer_turn_def take_control_def write_control_def)
    then show ?thesis using written_quiet [OF quiet_transport [OF e]] fail_written by fastforce
  qed
qed (use assms in \<open>simp add: writer_turn_def\<close>)

lemma run_written: "wr_written w \<le> wr_written (writer_run deflate evs w)"
proof (induction deflate evs w rule: writer_run.induct)
  case (2 deflate e blocked ch evs w)
  obtain w1 go where t: "writer_turn deflate blocked ch (idle_step e w) = (w1, go)" by fastforce
  have "wr_written w \<le> wr_written w1" using turn_written [OF t] by (simp add: idle_written)
  moreover have "go \<Longrightarrow> wr_written w1 \<le> wr_written (writer_run deflate evs w1)" using "2.IH" [OF t [symmetric]] by simp
  ultimately show ?case using t by (cases go) (auto intro: order_trans)
qed simp

text \<open>C39: A rewrite overtakes unwritten entries. The writer is blocked with nothing left to write; while it
  is, anything may be logged and an audience frame in the log replaced. When the signal to write that
  frame again is the one \<open>select\<close> takes, a completed turn writes this one frame, and an entry logged
  below it that was never written is not among what any later look at the log finds to write: the
  watermark has passed it for good, whatever follows. It waits for the retransmission timer.\<close>

theorem rewrite_skips_unwritten:
  assumes "\<not> lk_stopped w" and "wr_control w = []" and "entries_after (wr_written w) (lk_proto w) = []"
    and "w1 = idle_step blocked w" and "wr_control w1 = []"
    and "wr_rewrite w1 = Some seq" and "proto_entry seq (lk_proto w1) = Some e"
    and "x \<in> set (entries_after (wr_written w1) (lk_proto w1))" and "le_seq x < seq"
    and "writer_turn deflate blocked OnRewrite w = (w2, True)"
  shows "lk_done w2 = lk_done w @ [(True, seq, le_payload e)] \<and>
    (\<forall>evs p. x \<notin> set (entries_after (wr_written (writer_run deflate evs w2)) p))"
proof -
  have seq: "le_seq e = seq" by (rule proto_entry_seq [OF assms(7)])
  let ?v = "w1\<lparr>wr_rewrite := None\<rparr>"
  have "writer_select deflate OnRewrite w1 = (w2, True)"
    using assms(1-4,10) by (simp add: writer_turn_def take_control_def)
  then have run: "writer_fail (write_entries deflate True [e] ?v) = (w2, True)"
    using assms(6,7) by (simp add: writer_select_def del: write_entries.simps)
  have ic: "interleave_control ?v = (?v, True)" using assms(5) by (simp add: interleave_control_def take_control_def)
  obtain w3 ok where t: "write_reliable deflate True e ?v = (w3, ok)" by fastforce
  have "ok \<and> w2 = w3" using run ic t by (cases ok) (auto simp: writer_fail_def split: if_splits)
  then have fin: "seq \<le> wr_written w2" "lk_done w2 = lk_done ?v @ [(True, seq, le_payload e)]"
    using reliable_written(2) [OF t] seq by auto
  have "le_seq x \<le> wr_written (writer_run deflate evs w2)" for evs
    using assms(9) fin(1) run_written [of w2 deflate evs] by (meson less_imp_le order_trans)
  then have "x \<notin> set (entries_after (wr_written (writer_run deflate evs w2)) p)" for evs p
    by (auto simp: entries_after_def not_less)
  then show ?thesis using fin(2) by (simp add: assms(4) idle_written)
qed

lemma rewrite_skips_unwritten_witness:
  "let w = new_writer False (new_session_proto 1 0 10) [];
       blocked = calm\<lparr>ie_ops := [PDispatch ''r1'' sample_request 0, PPush sample_audience, PPush (sample_audience\<lparr>au_gen := 2\<rparr>)],
                   ie_rewrite := Some 2\<rparr>
   in \<exists>x \<in> set (proto_entries (lk_proto (idle_step blocked w))). le_seq x = 1 \<and>
        (\<forall>evs p. \<not> x \<in> set (entries_after (wr_written (writer_run (\<lambda>_. None) evs (fst (writer_turn (\<lambda>_. None) blocked OnRewrite w)))) p))"
proof -
  let ?w = "new_writer False (new_session_proto 1 0 10) []"
  let ?blocked = "calm\<lparr>ie_ops := [PDispatch ''r1'' sample_request 0, PPush sample_audience, PPush (sample_audience\<lparr>au_gen := 2\<rparr>)],
                   ie_rewrite := Some 2\<rparr>"
  let ?w1 = "idle_step ?blocked ?w" and ?t = "writer_turn (\<lambda>_. None) ?blocked OnRewrite ?w"
  have f1: "\<not> lk_stopped ?w \<and> wr_control ?w = [] \<and> entries_after (wr_written ?w) (lk_proto ?w) = []" by code_simp
  have f2: "wr_control ?w1 = [] \<and> wr_rewrite ?w1 = Some 2 \<and> wr_written ?w1 = 0" by code_simp
  have f3: "map le_seq (proto_entries (lk_proto ?w1)) = [1, 2] \<and> map_option le_seq (proto_entry 2 (lk_proto ?w1)) = Some 2" by code_simp
  have f4: "snd ?t" by code_simp
  obtain e where e: "proto_entry 2 (lk_proto ?w1) = Some e" using f3 by auto
  obtain x where x: "x \<in> set (proto_entries (lk_proto ?w1))" "le_seq x = 1" using f3 by (cases "proto_entries (lk_proto ?w1)") auto
  have "x \<in> set (entries_after (wr_written ?w1) (lk_proto ?w1))" using x f2 by (simp add: entries_after_def proto_entries_def)
  moreover have "le_seq x < 2" using x(2) by (simp add: word_less_nat_alt)
  moreover have "?t = (fst ?t, True)" using f4 by (simp add: prod_eq_iff)
  ultimately have "\<forall>evs p. x \<notin> set (entries_after (wr_written (writer_run (\<lambda>_. None) evs (fst ?t))) p)"
    using rewrite_skips_unwritten [OF _ _ _ refl _ _ e, of x "\<lambda>_. None" "fst ?t"] f1 f2 by blast
  then show ?thesis using x unfolding Let_def by blast
qed

end
