(* ===== verification/Spec2Isabelle.thy ===== *)
theory Spec2Isabelle
  imports TransportUnit Receiver Sender Channel CloseReason Frame Relay Relay_Answer
    Events FeQueue Whitelist Subscribers Tables Guests EventBuffer
    Prefs Users SessionProto Registry Registry_Inv Registry_Sound RateLimit Auth GuestRelay Writer
begin

text \<open>
  A verification development for capri-hub, the relay between coding-agent hosts and browsers.

  The program. A host dials the hub over a websocket or QUIC and speaks the v2 protocol of \<open>wire/\<close>:
  reliable events upwards, reliable requests and audience snapshots downwards, answers in chunks and
  heartbeats. The hub (\<open>internal/hub/\<close>) keeps the registry of paired hosts, the protocol state of each
  host's session, a buffer of recent events, the table of relayed requests, the accounts, the guest
  tokens and the preferences, and fans events out to browser pages. \<open>cmd/capri-hub/\<close> is the HTTP
  surface: it authenticates browsers, relays their requests and confines guests to a whitelist.

  Theories, in the order of the layers.

  Prelude: words, Go maps as association lists (their order is the iteration order the runtime
  happens to choose, so a lemma over every list holds for every order), time values, \<open>sort.Search\<close>,
  \<open>strings.TrimSpace\<close>, and the lemmas the components share.

  The wire. TransportUnit (\<open>unit.go\<close>): the unit codec, the splitter, the reassembler; splitting and
  reassembling are inverse under interleaving. Sender and Receiver (\<open>sender.go\<close>, \<open>receiver.go\<close>): the
  unacknowledged log and the in-order receiver with its parking window. Channel: both over a network
  that loses, repeats and reorders, with reconnects; the interfaces are the locales \<open>sequenced_log\<close>,
  \<open>in_order_receiver\<close> and \<open>reliable_channel\<close>, interpreted on the code's sender and receiver.
  CloseReason (\<open>identity.go\<close>, \<open>limits.go\<close>). Json and Json_Print: what the code uses of
  \<open>encoding/json\<close>, on bytes, and that what the encoder prints the scanner accepts. Frame
  (\<open>frame.go\<close>): the envelope, its validation, encoding and decoding.

  The host side of the hub (\<open>hub.go\<close>, \<open>session.go\<close>, \<open>writer.go\<close>). SessionProto: the state of one
  epoch, its log, the requests whose ack is awaited, and the single audience slot. Writer: the
  goroutine that owns a socket, with its control queue. Relay and Relay_Answer: pending requests,
  ordered chunks, tombstones and the acknowledgement table. EventBuffer: the gap-pull buffer, ingest
  and the fan-out queue of a host. Registry, Registry_Inv, Registry_Sound: pairing codes, tokens,
  hosts, attachment, status, listings and the data file.

  The browser side of the hub. Events, FeQueue (ring, drop accounting, pump and resync of one page, one
  step per critical section; the locale \<open>bounded_fifo\<close>), Whitelist (what a guest token grants, recorded subagent children), Subscribers
  (filters, kicks, audience, broadcast), Prefs (the merge of preference writes and both stores),
  Tables with Guests and Users (the stores, over the locale \<open>keyed_table\<close>).

  The HTTP surface (\<open>main.go\<close>). RateLimit: both limiters. Auth: request addresses, tokens, tickets,
  identities and the gates. GuestRelay: the relay gate, the rewriting of a guest's body and the
  redaction of a status.

  Correspondence. A Go struct is a record with the fields the code reads, an enumeration or an error a
  datatype, a method a function from the old state and its arguments to the new state and the
  results; a mutex makes a method one step. Where the code unlocks in between and what happens there
  matters, the model has a step for each part: the commit of preferences and the file write, a
  delivery and its call of \<open>noteDrop\<close> (FeQueue), the two halves of an authentication attempt
  (RateLimit). Operations of the registry and the guest store that persist and kick after unlocking
  are one step, in the code's order. Sequence numbers are 64-bit words and wrap; the \<open>atomic.Int64\<close>
  counters of request and page ids are integers, which agree until 2^63 - 1. Clocks are explicit
  arguments and random bytes explicit lists of draws. Concurrency is a list of operations in any
  order, an inductive step relation (Channel, FeQueue), or a script of what the rest of the hub does
  between two steps of a goroutine (Writer).

  What the lemmas show: round trips of the codecs and of the writer's stream; that delivery is
  in order, complete and resumable; that a request gets at most one outcome; that the tables keep
  their invariants over every history of operations; that guests are delivered only what their tokens
  list; that credentials are current, single-use where they should be, and expensive to guess (the
  bound grows with the attempts an address has evaluated at once); that replicas of the preferences
  converge while no stamps tie and no deletion is forgotten; bounds of every buffer. Theorems of kind
  error state the conditions under which the code behaves as its comments deny.

  Fuel and bounds. The JSON scanner takes the nesting limit of \<open>encoding/json\<close> as fuel and the value
  reader the length of its text, which exceeds its depth. Loops that draw random identifiers consume
  a list of draws and give no value when it is used up. All other loops are total functions; that
  the search for a free host id ends is a theorem. Histories are bounded below the 64-bit range
  where a sequence number would wrap.

  Parameters: SHA-256, DEFLATE, \<open>net.ParseIP\<close> and the float formatting of \<open>strconv\<close>.

  Not modelled: sockets, goroutine scheduling inside one mutex, timers, TLS and the QUIC and
  websocket libraries; gzip and DEFLATE; routing, environment variables, start-up and logging; the
  loop of \<open>session.run\<close> with its timers and the preflight probe (its operations on the protocol
  state, the registry and the relay are modelled); the websocket handler of browser pages and the
  management handlers, which decode a body, call one modelled operation and write its result; the
  paircode command line, an HTTP client.
\<close>

end
